(* ===== verification/Metering_Prelude.thy ===== *)
theory Metering_Prelude
  imports Complex_Main "HOL-Library.Char_ord" "HOL-Library.List_Lexorder"
begin

text \<open>
  Shared vocabulary of the metering development: Go's \<^verbatim>\<open>int64\<close> with its wrap-around, Go's
  \<^verbatim>\<open>time.Time\<close> and \<^verbatim>\<open>time.Duration\<close>, error results as a sum type, and the list lemmas
  about sorted boundaries, adjacent intervals and telescoping sums that the usage engine, the
  round comparison and the replay all rest on.
\<close>

named_theorems int64_simps \<open>rewriting with the 64-bit wrap-around\<close>
named_theorems time_simps \<open>rewriting with Go time arithmetic\<close>

section \<open>Signed 64-bit integers\<close>

text \<open>
  An \<^verbatim>\<open>int64\<close> is an \<open>int\<close> in \<open>[-2^63, 2^63)\<close>; \<open>wrap64\<close> is the two's complement
  wrap-around of Go's \<^verbatim>\<open>+\<close>, \<^verbatim>\<open>-\<close> and \<^verbatim>\<open>*\<close>; \<open>is_int64\<close> is
  \<^verbatim>\<open>big.Int.IsInt64\<close>.
\<close>

definition is_int64 :: "int \<Rightarrow> bool" where
  "is_int64 x \<longleftrightarrow> - (2 ^ 63) \<le> x \<and> x < 2 ^ 63"

definition wrap64 :: "int \<Rightarrow> int" where
  "wrap64 x = (x + 2 ^ 63) mod 2 ^ 64 - 2 ^ 63"

lemma wrap64_range [simp]: "is_int64 (wrap64 x)"
proof -
  have "0 \<le> (x + 2 ^ 63) mod 2 ^ 64" "(x + 2 ^ 63) mod 2 ^ 64 < 2 ^ 64" by simp_all
  then show ?thesis by (simp add: wrap64_def is_int64_def)
qed

lemma wrap64_id [int64_simps]: "is_int64 x \<Longrightarrow> wrap64 x = x"
  by (simp add: wrap64_def is_int64_def)

lemma wrap64_cong: "x mod 2 ^ 64 = y mod 2 ^ 64 \<Longrightarrow> wrap64 x = wrap64 y"
  unfolding wrap64_def by (metis mod_add_left_eq)

lemma wrap64_mod: "wrap64 x mod 2 ^ 64 = x mod 2 ^ 64"
  unfolding wrap64_def by (metis add_diff_cancel_right' mod_diff_left_eq)

lemma wrap64_wrap64 [simp]: "wrap64 (wrap64 x) = wrap64 x"
  by (rule wrap64_id) simp

lemma wrap64_add_left [int64_simps]: "wrap64 (wrap64 x + y) = wrap64 (x + y)"
  by (rule wrap64_cong) (metis mod_add_left_eq wrap64_mod)

lemma wrap64_add_right [int64_simps]: "wrap64 (x + wrap64 y) = wrap64 (x + y)"
  by (metis add.commute wrap64_add_left)

lemma wrap64_diff_left [int64_simps]: "wrap64 (wrap64 x - y) = wrap64 (x - y)"
  by (rule wrap64_cong) (metis mod_diff_left_eq wrap64_mod)

lemma wrap64_diff_right [int64_simps]: "wrap64 (x - wrap64 y) = wrap64 (x - y)"
  by (rule wrap64_cong) (metis mod_diff_right_eq wrap64_mod)

lemma wrap64_sum_cong:
  assumes "\<And>x. x \<in> set xs \<Longrightarrow> wrap64 (f x) = wrap64 (g x)"
  shows "wrap64 (sum_list (map f xs)) = wrap64 (sum_list (map g xs))"
  using assms
proof (induction xs)
  case Nil
  then show ?case by simp
next
  case (Cons x xs)
  have "wrap64 (f x + sum_list (map f xs)) = wrap64 (wrap64 (f x) + wrap64 (sum_list (map f xs)))"
    by (simp add: int64_simps)
  also have "\<dots> = wrap64 (wrap64 (g x) + wrap64 (sum_list (map g xs)))"
    using Cons by simp
  also have "\<dots> = wrap64 (g x + sum_list (map g xs))"
    by (simp add: int64_simps)
  finally show ?case by simp
qed

section \<open>Go time\<close>

text \<open>
  A \<^verbatim>\<open>time.Time\<close> is its number of nanoseconds since January 1, year 1, 00:00:00 UTC, so the
  zero time (\<^verbatim>\<open>IsZero\<close>) is \<open>0\<close>, every multiple of a day is a UTC midnight and
  \<^verbatim>\<open>Truncate(time.Second)\<close>, which rounds down since the zero time, is a \<open>mod\<close>. A
  \<^verbatim>\<open>time.Duration\<close> is an \<^verbatim>\<open>int64\<close> of nanoseconds and \<^verbatim>\<open>Time.Sub\<close>
  saturates.
\<close>

type_synonym time = int
type_synonym duration = int

abbreviation (input) zero_time :: time where "zero_time \<equiv> 0"
abbreviation second :: duration where "second \<equiv> 1000000000"
abbreviation day :: duration where "day \<equiv> 86400000000000"

definition time_sub :: "time \<Rightarrow> time \<Rightarrow> duration" where
  "time_sub a b = max (- (2 ^ 63)) (min (2 ^ 63 - 1) (a - b))"

definition Microseconds :: "duration \<Rightarrow> int" where
  "Microseconds d = (if d < 0 then - ((- d) div 1000) else d div 1000)"

definition truncate_second :: "time \<Rightarrow> time" where
  "truncate_second t = t - t mod second"

definition whole_second :: "time \<Rightarrow> bool" where
  "whole_second t \<longleftrightarrow> second dvd t"

text \<open>
  Times of this pipeline lie between year 1 and 292 years after the earliest one, the span a
  \<^verbatim>\<open>time.Duration\<close> can measure; \<open>in_span lo\<close> says so of a time.
\<close>

definition in_span :: "time \<Rightarrow> time \<Rightarrow> bool" where
  "in_span base t \<longleftrightarrow> base \<le> t \<and> t < base + 2 ^ 63"

lemma time_sub_exact [time_simps]:
  "in_span base a \<Longrightarrow> in_span base b \<Longrightarrow> time_sub a b = a - b"
  by (simp add: in_span_def time_sub_def)

lemma Microseconds_nonneg: "0 \<le> d \<Longrightarrow> 0 \<le> Microseconds d"
  by (simp add: Microseconds_def)

lemma Microseconds_seconds [time_simps]: "Microseconds (second * k) = 1000000 * k"
proof -
  have a: "1000000000 * k div 1000 = 1000000 * k" for k :: int
    using nonzero_mult_div_cancel_left [of 1000 "1000000 * k"] by (simp add: mult.assoc [symmetric])
  show ?thesis using a [of k] a [of "- k"] by (simp add: Microseconds_def)
qed

lemma whole_second_truncate [simp]: "whole_second (truncate_second t)"
  by (simp add: truncate_second_def whole_second_def)

lemma truncate_second_whole [simp]: "whole_second t \<Longrightarrow> truncate_second t = t"
  by (simp add: truncate_second_def whole_second_def)

section \<open>Errors\<close>

text \<open>
  A Go function that may fail returns \<open>Inl\<close> of its error or \<open>Inr\<close> of its result. Each
  constructor stands for one error the code builds; its arguments are the values the message
  names.
\<close>

datatype metering_error =
    QuantityDoesNotFit rat
  | NotADecimalNumber string
  | NeedsMoreThanSixDecimals string
  | NumberIsNegative string
  | NumberDoesNotFit string
  | MultiplierIsNotANumber string string string metering_error
  | TwoOwnerFields string string string
  | OwnedThroughTwoFields string string string
  | NoCreationFact string string
  | InvalidRevision string string
  | NoRevisionsFound
  | RevisionRepeated string
  | RevisionNotAfterPrevious string string
  | UsedRevisionMissing string
  | UsedRevisionChanged string
  | RevisionBehindLastRound string
  | MeterShapeChanged string string string
  | OwnerChainExceeded string string
  | NoRevisionDefinesMeter string string
  | NoTenant
  | ForeignTenant string string
  | UnknownPayload
  | MissingResourceID
  | MissingCreationTime
  | MissingDeletionTime
  | BillingChangeWithoutTime
  | TopicEndUnreadable
  | OffsetPastEnd int int
  | OffsetBelowRetention int
  | UndecodableHeartbeat int
  | NoCompleteGroup int
  | UndecodableDimensions string
  | UndecodablePayload string
  | MissingIdentityFields string
  | MissingUsageFields string
  | UnparsableTime string
  | NoProgress string
  | ConsumeFailed
  | RoundCrashed
  | UnknownResourceType string
  | UnknownSemantics string
  | UnknownPrecision string
  | RecordBeforeVersion string
  | QuantityNotFixedPoint string
  | InvalidSchema string string
  | NoVersionForType string
  | NoVersionInEffect
  | MissingRequiredField string
  | FieldNotAnObject string

fun ebind :: "('e + 'a) \<Rightarrow> ('a \<Rightarrow> 'e + 'b) \<Rightarrow> 'e + 'b" where
  "ebind (Inl e) f = Inl e"
| "ebind (Inr x) f = f x"

fun traverse :: "('a \<Rightarrow> 'e + 'b) \<Rightarrow> 'a list \<Rightarrow> 'e + 'b list" where
  "traverse f [] = Inr []"
| "traverse f (x # xs) = ebind (f x) (\<lambda>y. ebind (traverse f xs) (\<lambda>ys. Inr (y # ys)))"

fun efold :: "('s \<Rightarrow> 'a \<Rightarrow> 'e + 's) \<Rightarrow> 's \<Rightarrow> 'a list \<Rightarrow> 'e + 's" where
  "efold f s [] = Inr s"
| "efold f s (x # xs) = ebind (f s x) (\<lambda>s'. efold f s' xs)"

lemma ebind_Inr_iff: "ebind m f = Inr y \<longleftrightarrow> (\<exists>x. m = Inr x \<and> f x = Inr y)"
  by (cases m) auto

lemma ebind_Inr_E:
  assumes "ebind m f = Inr y"
  obtains x where "m = Inr x" "f x = Inr y"
  using assms by (auto simp: ebind_Inr_iff)

lemma ebind_Inl_iff: "ebind m f = Inl e \<longleftrightarrow> m = Inl e \<or> (\<exists>x. m = Inr x \<and> f x = Inl e)"
  by (cases m) auto

lemma traverse_Inr_map:
  "traverse f xs = Inr ys \<Longrightarrow> map Inr ys = map f xs"
  by (induction xs arbitrary: ys) (auto simp: ebind_Inr_iff)

lemma traverse_Inr_length: "traverse f xs = Inr ys \<Longrightarrow> length ys = length xs"
  by (drule traverse_Inr_map) (metis length_map)

lemma traverse_all_Inr:
  "(\<And>x. x \<in> set xs \<Longrightarrow> f x = Inr (g x)) \<Longrightarrow> traverse f xs = Inr (map g xs)"
  by (induction xs) auto

lemma traverse_Inr_mem:
  "traverse f xs = Inr ys \<Longrightarrow> y \<in> set ys \<Longrightarrow> \<exists>x\<in>set xs. f x = Inr y"
  by (induction xs arbitrary: ys) (auto simp: ebind_Inr_iff)

lemma traverse_Inr_ex:
  "traverse f xs = Inr ys \<Longrightarrow> x \<in> set xs \<Longrightarrow> \<exists>y\<in>set ys. f x = Inr y"
  by (induction xs arbitrary: ys) (auto simp: ebind_Inr_iff)

lemma efold_append:
  "efold f s (xs @ ys) = ebind (efold f s xs) (\<lambda>s'. efold f s' ys)"
proof (induction xs arbitrary: s)
  case Nil
  then show ?case by simp
next
  case (Cons x xs)
  then show ?case by (cases "f s x") auto
qed

lemma efold_invariant:
  assumes "efold f s xs = Inr t" and "P s"
    and "\<And>s x s'. x \<in> set xs \<Longrightarrow> P s \<Longrightarrow> f s x = Inr s' \<Longrightarrow> P s'"
  shows "P t"
  using assms
proof (induction xs arbitrary: s)
  case Nil
  then show ?case by simp
next
  case (Cons x xs)
  from Cons.prems(1) obtain s' where s': "f s x = Inr s'" "efold f s' xs = Inr t"
    by (auto simp: ebind_Inr_iff)
  have "P s'" by (rule Cons.prems(3) [OF _ Cons.prems(2) s'(1)]) simp
  with s'(2) show ?case by (rule Cons.IH) (meson Cons.prems(3) list.set_intros(2))
qed

lemma list_all2_mem1: "list_all2 P xs ys \<Longrightarrow> x \<in> set xs \<Longrightarrow> \<exists>y\<in>set ys. P x y"
  by (induction rule: list_all2_induct) auto

lemma list_all2_mem2: "list_all2 P xs ys \<Longrightarrow> y \<in> set ys \<Longrightarrow> \<exists>x\<in>set xs. P x y"
  by (induction rule: list_all2_induct) auto

lemma find_app: "find P (xs @ ys) = (case find P xs of None \<Rightarrow> find P ys | Some x \<Rightarrow> Some x)"
  by (induction xs) auto

lemma find_none_all: "find P xs = None \<longleftrightarrow> (\<forall>x\<in>set xs. \<not> P x)"
  by (auto simp: find_None_iff)

section \<open>Adjacent intervals of a boundary list\<close>

text \<open>
  Go's loops \<^verbatim>\<open>for i := 1; i < len(points); i++\<close> read \<^verbatim>\<open>points[i-1], points[i]\<close>:
  the adjacent pairs of the list.
\<close>

definition adj_pairs :: "'a list \<Rightarrow> ('a \<times> 'a) list" where
  "adj_pairs xs = zip xs (tl xs)"

lemma adj_pairs_simps [simp]:
  "adj_pairs [] = []" "adj_pairs [x] = []" "adj_pairs (x # y # xs) = (x, y) # adj_pairs (y # xs)"
  by (simp_all add: adj_pairs_def)

lemma adj_pairs_less:
  "sorted_wrt (<) xs \<Longrightarrow> (a, b) \<in> set (adj_pairs xs) \<Longrightarrow> a < (b :: 'a :: linorder)"
  by (induction xs rule: induct_list012) auto

lemma adj_pairs_mem: "(a, b) \<in> set (adj_pairs xs) \<Longrightarrow> a \<in> set xs \<and> b \<in> set xs"
  by (induction xs rule: induct_list012) auto

lemma adj_pairs_no_between:
  "sorted_wrt (<) xs \<Longrightarrow> (a, b) \<in> set (adj_pairs xs) \<Longrightarrow> p \<in> set xs \<Longrightarrow> p \<le> a \<or> (b :: 'a :: linorder) \<le> p"
proof (induction xs rule: induct_list012)
  case (3 x y zs)
  show ?case
  proof (cases "(a, b) = (x, y)")
    case True
    then show ?thesis using "3.prems" by auto
  next
    case False
    then have ab: "(a, b) \<in> set (adj_pairs (y # zs))" using "3.prems" by auto
    then have "x \<le> a" using "3.prems"(1) adj_pairs_mem [OF ab] by auto
    then show ?thesis using "3.IH"(2) [OF _ ab] "3.prems" by auto
  qed
qed auto

lemma adj_pairs_cover:
  assumes "sorted_wrt (<) xs" "p \<in> set xs" "q \<in> set xs" "p \<le> m" "m < (q :: 'a :: linorder)"
  shows "\<exists>a b. (a, b) \<in> set (adj_pairs xs) \<and> a \<le> m \<and> m < b"
  using assms
proof (induction xs arbitrary: p rule: induct_list012)
  case (3 x y zs)
  show ?case
  proof (cases "m < y")
    case True
    then have "x \<le> m" using 3 by fastforce
    then show ?thesis using True by auto
  next
    case False
    then have "q \<in> set (y # zs)" using 3 by auto
    then have "\<exists>a b. (a, b) \<in> set (adj_pairs (y # zs)) \<and> a \<le> m \<and> m < b"
      using "3.prems" False by (intro "3.IH"(2) [of y]) auto
    then show ?thesis by auto
  qed
qed auto

lemma adj_pairs_telescope:
  "xs \<noteq> [] \<Longrightarrow> (\<Sum>(a, b)\<leftarrow>adj_pairs xs. g b - g a) = g (last xs) - (g (hd xs) :: int)"
  by (induction xs rule: induct_list012) auto

lemma adj_pairs_snoc:
  "xs \<noteq> [] \<Longrightarrow> adj_pairs (xs @ [y]) = adj_pairs xs @ [(last xs, y)]"
  by (induction xs rule: induct_list012) auto

lemma strict_sorted_le_last: "sorted_wrt (<) xs \<Longrightarrow> x \<in> set xs \<Longrightarrow> x \<le> (last xs :: 'a :: linorder)"
  by (induction xs) (auto intro: less_imp_le)

lemma strict_sorted_hd_le: "sorted_wrt (<) xs \<Longrightarrow> x \<in> set xs \<Longrightarrow> (hd xs :: 'a :: linorder) \<le> x"
  by (cases xs) (auto intro: less_imp_le)

lemma strict_sorted_remdups_adj:
  "sorted (xs :: 'a :: linorder list) \<Longrightarrow> sorted_wrt (<) (remdups_adj xs)"
  by (induction xs rule: remdups_adj.induct) (auto simp: less_le)

lemma strict_sorted_remdups_adj_sort:
  "sorted_wrt (<) (remdups_adj (sort (xs :: 'a :: linorder list)))"
  by (rule strict_sorted_remdups_adj) simp

text \<open>
  Go drops the empty intervals between repeated boundaries while it walks the sorted list; that is
  the walk over the list without the repetitions.
\<close>

lemma filter_adj_pairs:
  "sorted (xs :: 'a :: linorder list) \<Longrightarrow>
   filter (\<lambda>(a, b). a < b) (adj_pairs xs) = adj_pairs (remdups_adj xs)"
proof (induction xs rule: remdups_adj.induct)
  case (3 x y xs)
  show ?case
  proof (cases "x = y")
    case True
    then show ?thesis using 3 by simp
  next
    case False
    then have "x < y" using 3 by auto
    moreover obtain zs where zs: "remdups_adj (y # xs) = y # zs"
      by (metis remdups_adj_Cons_alt)
    ultimately show ?thesis using 3 False by simp
  qed
qed auto

end
