(* ===== verification/Go_Stdlib.thy ===== *)
theory Go_Stdlib
  imports Metering_Prelude "HOL-Library.AList"
begin

text \<open>
  The parts of Go's standard library the metering code computes with, on byte strings:
  \<^verbatim>\<open>big.Rat.SetString\<close>, \<^verbatim>\<open>netip.ParseAddr\<close> (whether a text is an address and of which
  family) and \<^verbatim>\<open>json.Marshal\<close> of a \<^verbatim>\<open>map[string]string\<close>.
\<close>

section \<open>big.Rat.SetString\<close>

definition digit_value :: "char \<Rightarrow> nat" where
  "digit_value c =
     (let n = (of_char c :: nat) in
      if 48 \<le> n \<and> n \<le> 57 then n - 48
      else if 97 \<le> n \<and> n \<le> 122 then n - 87
      else if 65 \<le> n \<and> n \<le> 90 then n - 55
      else 255)"

text \<open>
  The digit loop of \<^verbatim>\<open>nat.scan\<close> with base argument 0, so that underscores may separate digits.
  \<open>prev\<close> is the class of the previous character, \<open>dp\<close> the digit count at the radix point. It
  returns the value, the number of digits, the radix position, the last class, whether a separator was
  misplaced, and the unread rest.
\<close>

record scan_state =
  Scan_Value :: nat
  Scan_Count :: nat
  Scan_Dp :: "nat option"
  Scan_Prev :: char
  Scan_Inval :: bool

fun scan_digits :: "nat \<Rightarrow> bool \<Rightarrow> scan_state \<Rightarrow> string \<Rightarrow> scan_state \<times> string" where
  "scan_digits b fracOk st [] = (st, [])"
| "scan_digits b fracOk st (ch # rest) =
     (if ch = CHR ''.'' \<and> fracOk then
        scan_digits b False
          (st\<lparr>Scan_Inval := Scan_Inval st \<or> Scan_Prev st = CHR ''_'', Scan_Prev := CHR ''.'',
              Scan_Dp := Some (Scan_Count st)\<rparr>) rest
      else if ch = CHR ''_'' then
        scan_digits b fracOk
          (st\<lparr>Scan_Inval := Scan_Inval st \<or> Scan_Prev st \<noteq> CHR ''0'', Scan_Prev := CHR ''_''\<rparr>) rest
      else if digit_value ch < b then
        scan_digits b fracOk
          (st\<lparr>Scan_Value := b * Scan_Value st + digit_value ch, Scan_Count := Scan_Count st + 1,
              Scan_Prev := CHR ''0''\<rparr>) rest
      else (st, ch # rest))"

text \<open>
  \<^verbatim>\<open>nat.scan(r, 0, fracOk)\<close>: base prefix, digits, and the checks on separators and on the
  number of digits. \<open>Some (value, base, count, rest)\<close>, with \<open>count\<close> the negated number of
  fraction digits when there is a radix point.
\<close>

definition nat_scan :: "bool \<Rightarrow> string \<Rightarrow> (nat \<times> nat \<times> int \<times> string) option" where
  "nat_scan fracOk s =
     (let init = \<lparr>Scan_Value = 0, Scan_Count = 0, Scan_Dp = None, Scan_Prev = CHR ''.'', Scan_Inval = False\<rparr>;
          zero = init\<lparr>Scan_Prev := CHR ''0'', Scan_Count := 1\<rparr>;
          prefixed = zero\<lparr>Scan_Count := 0\<rparr>;
          (base, octal, start, body) = (case s of
             c # rest \<Rightarrow>
               if c = CHR ''0'' then
                 (case rest of
                    [] \<Rightarrow> (10, False, zero, [])
                  | d # rest' \<Rightarrow>
                      if d \<in> {CHR ''b'', CHR ''B''} then (2, False, prefixed, rest')
                      else if d \<in> {CHR ''o'', CHR ''O''} then (8, False, prefixed, rest')
                      else if d \<in> {CHR ''x'', CHR ''X''} then (16, False, prefixed, rest')
                      else if \<not> fracOk then (8, True, prefixed, rest)
                      else (10, False, zero, rest))
               else (10, False, init, s)
           | [] \<Rightarrow> (10 :: nat, False, init, s));
          (st, rest) = scan_digits base fracOk start body
      in if Scan_Inval st \<or> Scan_Prev st = CHR ''_'' then None
         else if Scan_Count st = 0 then (if octal then Some (0, 10, 1, rest) else None)
         else Some (Scan_Value st, base,
                (case Scan_Dp st of None \<Rightarrow> int (Scan_Count st)
                 | Some dp \<Rightarrow> int dp - int (Scan_Count st)), rest))"

text \<open>
  \<^verbatim>\<open>scanExponent(r, true, true)\<close>: an optional \<^verbatim>\<open>e\<close> or \<^verbatim>\<open>p\<close> exponent.
  \<open>Some (exponent, base, rest)\<close>.
\<close>

fun exp_digits :: "int \<Rightarrow> bool \<Rightarrow> char \<Rightarrow> bool \<Rightarrow> string \<Rightarrow> int \<times> bool \<times> char \<times> bool \<times> string" where
  "exp_digits v has prev inval [] = (v, has, prev, inval, [])"
| "exp_digits v has prev inval (c # cs) =
     (if c = CHR ''_'' then exp_digits v has (CHR ''_'') (inval \<or> prev \<noteq> CHR ''0'') cs
      else if digit_value c < 10 then exp_digits (10 * v + int (digit_value c)) True (CHR ''0'') inval cs
      else (v, has, prev, inval, c # cs))"

definition scanExponent :: "string \<Rightarrow> (int \<times> nat \<times> string) option" where
  "scanExponent s =
     (case s of
        [] \<Rightarrow> Some (0, 10, [])
      | c # rest \<Rightarrow>
          if c \<in> {CHR ''e'', CHR ''E'', CHR ''p'', CHR ''P''} then
            (let base = (if c \<in> {CHR ''e'', CHR ''E''} then 10 else 2);
                 (neg, body) = (case rest of
                    d # rest' \<Rightarrow> if d = CHR ''-'' then (True, rest')
                                 else if d = CHR ''+'' then (False, rest') else (False, rest)
                  | [] \<Rightarrow> (False, rest));
                 (v, has, prev, inval, left) = exp_digits 0 False (CHR ''.'') False body;
                 v' = (if neg then - v else v)
             in if \<not> has \<or> \<not> is_int64 v' \<or> inval \<or> prev = CHR ''_'' then None
                else Some (v', base, left))
          else Some (0, 10, s))"

definition scan_sign :: "string \<Rightarrow> bool \<times> string" where
  "scan_sign s =
     (case s of
        c # cs \<Rightarrow> if c = CHR ''-'' then (True, cs) else if c = CHR ''+'' then (False, cs) else (False, s)
      | [] \<Rightarrow> (False, s))"

definition signed_rat :: "bool \<Rightarrow> rat \<Rightarrow> rat" where
  "signed_rat neg q = (if neg then - q else q)"

definition pow_rat :: "nat \<Rightarrow> int \<Rightarrow> rat" where
  "pow_rat b e = (if 0 \<le> e then of_nat b ^ nat e else 1 / of_nat b ^ nat (- e))"

text \<open>
  \<^verbatim>\<open>SetString\<close>: a fraction \<^verbatim>\<open>a/b\<close> of integers, or a mantissa with an optional
  radix point and exponent. Fraction digits of a binary, octal or hexadecimal mantissa scale by a power
  of two, and a scaling exponent beyond one million is refused.
\<close>

definition RatSetString :: "string \<Rightarrow> rat option" where
  "RatSetString s =
     (if s = [] then None
      else if CHR ''/'' \<in> set s then
        (let a = takeWhile (\<lambda>c. c \<noteq> CHR ''/'') s;
             b = tl (dropWhile (\<lambda>c. c \<noteq> CHR ''/'') s);
             (neg, a') = scan_sign a
         in case nat_scan False a' of
              Some (na, _, _, []) \<Rightarrow>
                (case nat_scan False b of
                   Some (nb, _, _, []) \<Rightarrow>
                     if nb = 0 then None else Some (signed_rat neg (of_nat na / of_nat nb))
                 | _ \<Rightarrow> None)
            | _ \<Rightarrow> None)
      else
        (let (neg, body) = scan_sign s
         in case nat_scan True body of
              None \<Rightarrow> None
            | Some (n, base, fcount, rest) \<Rightarrow>
                (case scanExponent rest of
                   Some (e, ebase, []) \<Rightarrow>
                     if n = 0 then Some 0
                     else
                       (let d = (if fcount < 0 then fcount else 0);
                            exp5 = (if base = 10 then d else 0) + (if ebase = 10 then e else 0);
                            exp2 = (if base = 10 then d else if base = 2 then d
                                    else if base = 8 then 3 * d else 4 * d) + e
                        in if \<bar>exp5\<bar> > 1000000 \<or> \<bar>exp2\<bar> > 10000000 then None
                           else Some (signed_rat neg (of_nat n * pow_rat 5 exp5 * pow_rat 2 exp2)))
                 | _ \<Rightarrow> None)))"

section \<open>netip.ParseAddr\<close>

text \<open>
  \<open>v4_fields\<close> is \<^verbatim>\<open>parseIPv4Fields\<close>: four decimal fields of at most 255 without leading
  zeros, separated by dots. \<open>val\<close>, \<open>digits\<close> and \<open>pos\<close> are the current field's value, its number of
  digits and the number of finished fields.
\<close>

fun v4_fields :: "nat \<Rightarrow> nat \<Rightarrow> nat \<Rightarrow> string \<Rightarrow> bool" where
  "v4_fields val digits pos [] = (digits > 0 \<and> pos = 3)"
| "v4_fields val digits pos (c # cs) =
     (if digit_value c < 10 then
        (if digits = 1 \<and> val = 0 then False
         else if 10 * val + digit_value c > 255 then False
         else v4_fields (10 * val + digit_value c) (digits + 1) pos cs)
      else if c = CHR ''.'' then
        (if digits = 0 \<or> cs = [] \<or> pos = 3 then False else v4_fields 0 0 (pos + 1) cs)
      else False)"

definition is_v4 :: "string \<Rightarrow> bool" where
  "is_v4 s \<longleftrightarrow> v4_fields 0 0 0 s"

fun hex_run :: "string \<Rightarrow> string" where
  "hex_run [] = []"
| "hex_run (c # cs) = (if digit_value c < 16 then c # hex_run cs else [])"

text \<open>
  The group loop of \<^verbatim>\<open>parseIPv6\<close> on the text without its zone: \<open>i\<close> is the number of bytes
  filled and \<open>ellipsis\<close> whether \<^verbatim>\<open>::\<close> was seen. Each round consumes a group, so the length of
  the text bounds the recursion.
\<close>

function v6_groups :: "nat \<Rightarrow> bool \<Rightarrow> string \<Rightarrow> bool" where
  "v6_groups i ellipsis s =
     (if i \<ge> 16 then s = [] \<and> \<not> ellipsis
      else
        (let h = hex_run s; rest = drop (length h) s in
         if h = [] \<or> length h > 4 then False
         else if rest \<noteq> [] \<and> hd rest = CHR ''.'' then
           (if (\<not> ellipsis \<and> i \<noteq> 12) \<or> i + 4 > 16 then False
            else is_v4 s \<and> (if i + 4 < 16 then ellipsis else \<not> ellipsis))
         else if rest = [] then (if i + 2 < 16 then ellipsis else \<not> ellipsis)
         else if hd rest \<noteq> CHR '':'' \<or> tl rest = [] then False
         else if hd (tl rest) = CHR '':'' then
           (if ellipsis then False
            else if tl (tl rest) = [] then i + 2 < 16
            else v6_groups (i + 2) True (tl (tl rest)))
         else v6_groups (i + 2) ellipsis (tl rest)))"
  by pat_completeness auto
termination
  by (relation "measure (\<lambda>(i, e, s). 16 - i)") auto

declare v6_groups.simps [simp del]

definition is_v6 :: "string \<Rightarrow> bool" where
  "is_v6 input =
     (let zoned = CHR ''%'' \<in> set input;
          s = takeWhile (\<lambda>c. c \<noteq> CHR ''%'') input;
          zone = tl (dropWhile (\<lambda>c. c \<noteq> CHR ''%'') input)
      in if zoned \<and> zone = [] then False
         else if length s \<ge> 2 \<and> hd s = CHR '':'' \<and> hd (tl s) = CHR '':'' then
           (tl (tl s) = [] \<or> v6_groups 0 True (tl (tl s)))
         else v6_groups 0 False s)"

datatype ip_family = IPv4 | IPv6

definition ParseAddr :: "string \<Rightarrow> ip_family option" where
  "ParseAddr s =
     (case dropWhile (\<lambda>c. c \<noteq> CHR ''.'' \<and> c \<noteq> CHR '':'' \<and> c \<noteq> CHR ''%'') s of
        c # _ \<Rightarrow>
          if c = CHR ''.'' then (if is_v4 s then Some IPv4 else None)
          else if c = CHR '':'' then (if is_v6 s then Some IPv6 else None)
          else None
      | [] \<Rightarrow> None)"

section \<open>json.Marshal of a string map\<close>

text \<open>
  The number of bytes of the valid UTF-8 sequence a byte string starts with, 0 when there is none
  (\<^verbatim>\<open>utf8.DecodeRune\<close> returns the error rune of width 1).
\<close>

definition byte_in :: "nat \<Rightarrow> nat \<Rightarrow> char \<Rightarrow> bool" where
  "byte_in lo hi c \<longleftrightarrow> lo \<le> (of_char c :: nat) \<and> (of_char c :: nat) \<le> hi"

fun utf8_len :: "string \<Rightarrow> nat" where
  "utf8_len [] = 0"
| "utf8_len (c # cs) =
     (if byte_in 0 127 c then 1
      else case cs of
        [] \<Rightarrow> 0
      | c1 # cs1 \<Rightarrow>
          if byte_in 194 223 c then (if byte_in 128 191 c1 then 2 else 0)
          else case cs1 of
            [] \<Rightarrow> 0
          | c2 # cs2 \<Rightarrow>
              if byte_in 224 239 c then
                (if byte_in (if of_char c = (224 :: nat) then 160 else 128)
                            (if of_char c = (237 :: nat) then 159 else 191) c1 \<and> byte_in 128 191 c2
                 then 3 else 0)
              else case cs2 of
                [] \<Rightarrow> 0
              | c3 # _ \<Rightarrow>
                  if byte_in 240 244 c \<and>
                     byte_in (if of_char c = (240 :: nat) then 144 else 128)
                             (if of_char c = (244 :: nat) then 143 else 191) c1 \<and>
                     byte_in 128 191 c2 \<and> byte_in 128 191 c3
                  then 4 else 0)"

definition hex_digit :: "nat \<Rightarrow> char" where
  "hex_digit n = ''0123456789abcdef'' ! (n mod 16)"

text \<open>
  A byte below 128, as the encoder writes it: quotes, backslashes, control bytes and the HTML
  characters \<^verbatim>\<open><\<close>, \<^verbatim>\<open>>\<close> and \<^verbatim>\<open>&\<close> are escaped.
\<close>

definition json_ascii :: "char \<Rightarrow> string" where
  "json_ascii c =
     (let n = (of_char c :: nat); bs = char_of (92 :: nat) in
      if n = 34 \<or> n = 92 then [bs, c]
      else if n = 8 then [bs, CHR ''b'']
      else if n = 12 then [bs, CHR ''f'']
      else if n = 10 then [bs, CHR ''n'']
      else if n = 13 then [bs, CHR ''r'']
      else if n = 9 then [bs, CHR ''t'']
      else if n < 32 \<or> n = 60 \<or> n = 62 \<or> n = 38
        then bs # ''u00'' @ [hex_digit (n div 16), hex_digit n]
      else [c])"

function json_escape :: "string \<Rightarrow> string" where
  "json_escape [] = []"
| "json_escape (c # cs) =
     (let n = utf8_len (c # cs); bs = char_of (92 :: nat) in
      if n = 0 then bs # ''ufffd'' @ json_escape cs
      else if n = 1 then json_ascii c @ json_escape cs
      else if n = 3 \<and> map of_char (take 3 (c # cs)) = [226, 128, 168 :: nat]
        then bs # ''u2028'' @ json_escape (drop 2 cs)
      else if n = 3 \<and> map of_char (take 3 (c # cs)) = [226, 128, 169 :: nat]
        then bs # ''u2029'' @ json_escape (drop 2 cs)
      else take n (c # cs) @ json_escape (drop (n - 1) cs))"
  by pat_completeness auto
termination
  by (relation "measure length") auto

definition json_string :: "string \<Rightarrow> string" where
  "json_string s = CHR 0x22 # json_escape s @ [CHR 0x22]"

definition json_members :: "(string \<times> string) list \<Rightarrow> string list" where
  "json_members kvs = map (\<lambda>(k, v). json_string k @ '':'' @ json_string v) (sort_key fst kvs)"

text \<open>The map is an association list with distinct keys; the encoder sorts the keys.\<close>

fun join_comma :: "string list \<Rightarrow> string" where
  "join_comma [] = []"
| "join_comma [x] = x"
| "join_comma (x # y # zs) = x @ '','' @ join_comma (y # zs)"

definition json_Marshal :: "(string \<times> string) list \<Rightarrow> string" where
  "json_Marshal kvs = ''{'' @ join_comma (json_members kvs) @ ''}''"

section \<open>json.Unmarshal into a map[string]string\<close>

definition is_ws :: "char \<Rightarrow> bool" where
  "is_ws c \<longleftrightarrow> (of_char c :: nat) \<in> {32, 9, 10, 13}"

definition skip_ws :: "string \<Rightarrow> string" where
  "skip_ws s = dropWhile is_ws s"

lemma skip_ws_length: "length (skip_ws s) \<le> length s"
  by (simp add: skip_ws_def length_dropWhile_le)

fun hex4 :: "string \<Rightarrow> (nat \<times> string) option" where
  "hex4 (a # b # c # d # rest) =
     (if digit_value a < 16 \<and> digit_value b < 16 \<and> digit_value c < 16 \<and> digit_value d < 16
      then Some (4096 * digit_value a + 256 * digit_value b + 16 * digit_value c + digit_value d, rest)
      else None)"
| "hex4 _ = None"

lemma hex4_length: "hex4 s = Some (n, rest) \<Longrightarrow> length rest < length s"
  by (cases s rule: hex4.cases) (auto split: if_splits)

definition utf8_encode :: "nat \<Rightarrow> string" where
  "utf8_encode r =
     (if r < 128 then [char_of r]
      else if r < 2048 then [char_of (192 + r div 64), char_of (128 + r mod 64)]
      else if r < 65536 then [char_of (224 + r div 4096), char_of (128 + r div 64 mod 64), char_of (128 + r mod 64)]
      else [char_of (240 + r div 262144), char_of (128 + r div 4096 mod 64),
            char_of (128 + r div 64 mod 64), char_of (128 + r mod 64)])"

text \<open>
  A rune after \<^verbatim>\<open>\u\<close>: a surrogate must be the first of a pair, else it decodes to the
  replacement character U+FFFD and what follows is read on its own.
\<close>

definition unicode_escape :: "nat \<Rightarrow> string \<Rightarrow> string \<times> string" where
  "unicode_escape r rest =
     (if r < 55296 \<or> 57344 \<le> r then (utf8_encode r, rest)
      else case rest of
        b # u # rest' \<Rightarrow>
          if b = CHR 0x5C \<and> u = CHR ''u'' then
            (case hex4 rest' of
               Some (r2, rest'') \<Rightarrow>
                 if r < 56320 \<and> 56320 \<le> r2 \<and> r2 < 57344
                 then (utf8_encode (65536 + 1024 * (r - 55296) + (r2 - 56320)), rest'')
                 else (utf8_encode 65533, rest)
             | None \<Rightarrow> (utf8_encode 65533, rest))
          else (utf8_encode 65533, rest)
      | _ \<Rightarrow> (utf8_encode 65533, rest))"

lemma unicode_escape_length: "length (snd (unicode_escape r rest)) \<le> length rest"
  by (auto simp: unicode_escape_def split: list.splits option.splits dest: hex4_length)

lemma hex4_unicode_length: "hex4 s = Some (r, rest) \<Longrightarrow> length (snd (unicode_escape r rest)) < length s"
  using unicode_escape_length [of r rest] hex4_length [of s r rest] by simp

definition simple_escape :: "char \<Rightarrow> char option" where
  "simple_escape e =
     map_of [(CHR 0x22, CHR 0x22), (CHR 0x5C, CHR 0x5C), (CHR 0x2F, CHR 0x2F), (CHR ''b'', CHR 0x08),
             (CHR ''f'', CHR 0x0C), (CHR ''n'', CHR 0x0A), (CHR ''r'', CHR 0x0D), (CHR ''t'', CHR 0x09)] e"

text \<open>The characters of a string literal after its opening quote, and what follows the closing one.\<close>

function json_chars :: "string \<Rightarrow> (string \<times> string) option" where
  "json_chars [] = None"
| "json_chars (c # cs) =
     (if c = CHR 0x22 then Some ([], cs)
      else if c = CHR 0x5C then
        (case cs of
           [] \<Rightarrow> None
         | e # es \<Rightarrow>
             (case simple_escape e of
                Some x \<Rightarrow> map_option (apfst (Cons x)) (json_chars es)
              | None \<Rightarrow>
                  if e = CHR ''u'' then
                    (case hex4 es of
                       None \<Rightarrow> None
                     | Some (r, es') \<Rightarrow>
                         map_option (apfst (append (fst (unicode_escape r es'))))
                           (json_chars (snd (unicode_escape r es'))))
                  else None))
      else if (of_char c :: nat) < 32 then None
      else
        (let n = utf8_len (c # cs) in
         if n = 0 then map_option (apfst (append (utf8_encode 65533))) (json_chars cs)
         else map_option (apfst (append (take n (c # cs)))) (json_chars (drop (n - 1) cs))))"
  by pat_completeness auto
termination
  by (relation "measure length") (auto dest: hex4_unicode_length less_SucI)

lemma json_chars_length: "json_chars s = Some (v, rest) \<Longrightarrow> length rest < length s"
proof (induction s arbitrary: v rest rule: json_chars.induct)
  case (2 c cs)
  show ?case
  proof (cases "c = CHR 0x5C")
    case True
    from 2(5) True obtain e es where cs: "cs = e # es" by (auto split: list.splits)
    show ?thesis
    proof (cases "simple_escape e")
      case (Some x)
      then obtain v' where "json_chars es = Some (v', rest)" using 2(5) True cs by auto
      from 2(2) [OF _ True cs Some this] show ?thesis using True cs by simp
    next
      case None
      then obtain r es' v' where h: "e = CHR ''u''" "hex4 es = Some (r, es')"
        "json_chars (snd (unicode_escape r es')) = Some (v', rest)"
        using 2(5) True cs by (auto split: if_splits option.splits)
      from 2(1) [OF _ True cs None h(1,2) refl h(3)] True have "length rest < length (snd (unicode_escape r es'))" by simp
      then show ?thesis using hex4_unicode_length [OF h(2)] cs by simp
    qed
  next
    case False
    show ?thesis
    proof (cases "c = CHR 0x22")
      case True
      then show ?thesis using 2(5) by auto
    next
      case nq: False
      have nc: "\<not> (of_char c :: nat) < 32" using 2(5) False nq by (auto split: if_splits)
      show ?thesis
      proof (cases "utf8_len (c # cs) = 0")
        case True
        then obtain v' where "json_chars cs = Some (v', rest)"
          using 2(5) False nq nc by (auto simp del: utf8_len.simps)
        then show ?thesis using 2(3) [OF nq False nc refl True] by fastforce
      next
        case ne: False
        then obtain v' where "json_chars (drop (utf8_len (c # cs) - 1) cs) = Some (v', rest)"
          using 2(5) False nq nc by (auto simp: Let_def simp del: utf8_len.simps)
        from 2(4) [OF nq False nc refl ne this] show ?thesis by simp
      qed
    qed
  qed
qed simp

text \<open>
  A member value: a string, or \<^verbatim>\<open>null\<close>, which leaves the empty string. Any other JSON value
  is a type error.
\<close>

definition json_value :: "string \<Rightarrow> (string \<times> string) option" where
  "json_value s =
     (case s of
        c # cs \<Rightarrow> if c = CHR 0x22 then json_chars cs
                  else if take 4 s = ''null'' then Some ([], drop 4 s) else None
      | [] \<Rightarrow> None)"

lemma json_value_length: "json_value s = Some (v, rest) \<Longrightarrow> length rest < length s"
  by (auto simp: json_value_def split: list.splits if_splits dest: json_chars_length)

definition json_member :: "string \<Rightarrow> ((string \<times> string) \<times> string) option" where
  "json_member s =
     (case s of
        q # cs \<Rightarrow>
          if q = CHR 0x22 then
            (case json_chars cs of
               None \<Rightarrow> None
             | Some (k, rest) \<Rightarrow>
                 (case skip_ws rest of
                    colon # rest' \<Rightarrow>
                      if colon = CHR '':'' then
                        map_option (\<lambda>(v, rest''). ((k, v), skip_ws rest'')) (json_value (skip_ws rest'))
                      else None
                  | [] \<Rightarrow> None))
          else None
      | [] \<Rightarrow> None)"

lemma json_member_length:
  assumes "json_member s = Some (kv, rest)"
  shows "length rest < length s"
proof -
  from assms obtain cs k r colon r' v r'' where s: "s = CHR 0x22 # cs" "json_chars cs = Some (k, r)"
    "skip_ws r = colon # r'" "json_value (skip_ws r') = Some (v, r'')" "rest = skip_ws r''"
    by (auto simp: json_member_def split: list.splits if_splits option.splits)
  have "length (colon # r') \<le> length r" using s(3) skip_ws_length [of r] by simp
  then show ?thesis
    using json_chars_length [OF s(2)] json_value_length [OF s(4)] skip_ws_length [of r'] skip_ws_length [of r''] s by simp
qed

function json_object :: "string \<Rightarrow> ((string \<times> string) list \<times> string) option" where
  "json_object s =
     (case json_member s of
        None \<Rightarrow> None
      | Some (kv, rest) \<Rightarrow>
          (case rest of
             c # rest' \<Rightarrow>
               if c = CHR ''}'' then Some ([kv], rest')
               else if c = CHR '','' then map_option (apfst (Cons kv)) (json_object (skip_ws rest'))
               else None
           | [] \<Rightarrow> None))"
  by pat_completeness auto
termination
proof (relation "measure length", goal_cases)
  case (2 s x kv rest c rest')
  then have "length (c # rest') < length s" by (auto dest: json_member_length)
  then show ?case using skip_ws_length [of rest'] by simp
qed simp

declare json_object.simps [simp del]

definition json_Unmarshal :: "string \<Rightarrow> (string \<times> string) list option" where
  "json_Unmarshal s =
     (case skip_ws s of
        c # rest \<Rightarrow>
          if c = CHR ''{'' then
            (case skip_ws rest of
               d # rest' \<Rightarrow>
                 if d = CHR ''}'' then (if skip_ws rest' = [] then Some [] else None)
                 else (case json_object (skip_ws rest) of
                         Some (kvs, left) \<Rightarrow>
                           if skip_ws left = [] then Some (foldl (\<lambda>m (k, v). AList.update k v m) [] kvs) else None
                       | None \<Rightarrow> None)
             | [] \<Rightarrow> None)
          else if take 4 (c # rest) = ''null'' \<and> skip_ws (drop 4 (c # rest)) = [] then Some []
          else None
      | [] \<Rightarrow> None)"

section \<open>Decimal text\<close>

text \<open>The decimal digits of a number, least significant last, and \<^verbatim>\<open>fmt\<close>'s \<^verbatim>\<open>%d\<close> and \<^verbatim>\<open>%06d\<close>.\<close>

definition digit_char :: "nat \<Rightarrow> char" where
  "digit_char d = char_of (48 + d)"

fun nat_text :: "nat \<Rightarrow> string" where
  "nat_text n = (if n < 10 then [digit_char n] else nat_text (n div 10) @ [digit_char (n mod 10)])"

declare nat_text.simps [simp del]

definition int_text :: "int \<Rightarrow> string" where
  "int_text i = (if i < 0 then CHR ''-'' # nat_text (nat (- i)) else nat_text (nat i))"

definition zero_pad :: "nat \<Rightarrow> string \<Rightarrow> string" where
  "zero_pad w s = replicate (w - length s) (CHR ''0'') @ s"

definition int_text_06 :: "int \<Rightarrow> string" where
  "int_text_06 i =
     (if i < 0 then CHR ''-'' # zero_pad 5 (nat_text (nat (- i))) else zero_pad 6 (nat_text (nat i)))"

text \<open>Go's integer division truncates toward zero.\<close>

definition quot :: "int \<Rightarrow> int \<Rightarrow> int" where
  "quot a b = sgn a * sgn b * (\<bar>a\<bar> div \<bar>b\<bar>)"

definition remainder :: "int \<Rightarrow> int \<Rightarrow> int" where
  "remainder a b = a - b * quot a b"

end
