(* ===== verification/Go_Time.thy ===== *)
theory Go_Time
  imports Go_Stdlib "HOL-Library.Monad_Syntax"
begin

text \<open>
  Times as RFC 3339 text: \<^verbatim>\<open>Time.Format("2006-01-02T15:04:05Z07:00")\<close> of a UTC time and
  \<^verbatim>\<open>time.Parse(time.RFC3339Nano, text)\<close>, on the proleptic Gregorian calendar, and that reading a
  written time gives it back to the second.
\<close>

section \<open>Dates\<close>

definition leap :: "int \<Rightarrow> bool" where
  "leap y \<longleftrightarrow> y mod 4 = 0 \<and> (y mod 100 \<noteq> 0 \<or> y mod 400 = 0)"

text \<open>Days of a year before each month, and of a month.\<close>

definition days_before :: "bool \<Rightarrow> int \<Rightarrow> int" where
  "days_before lp m =
     (let d = [0, 31, 59, 90, 120, 151, 181, 212, 243, 273, 304, 334] ! nat (m - 1)
      in if lp \<and> m > 2 then d + 1 else d)"

definition daysIn :: "int \<Rightarrow> int \<Rightarrow> int" where
  "daysIn m y = (if m = 2 \<and> leap y then 29 else [31, 28, 31, 30, 31, 30, 31, 31, 30, 31, 30, 31] ! nat (m - 1))"

text \<open>Days from January 1, year 1 to January 1 of a year.\<close>

definition days_to_year :: "int \<Rightarrow> int" where
  "days_to_year y = (let n = y - 1 in 365 * n + n div 4 - n div 100 + n div 400)"

definition year_and_day :: "int \<Rightarrow> int \<times> int" where
  "year_and_day d =
     (let n400 = d div 146097; d1 = d mod 146097;
          n100 = min 3 (d1 div 36524); d2 = d1 - 36524 * n100;
          n4 = d2 div 1461; d3 = d2 mod 1461;
          n1 = min 3 (d3 div 365)
      in (400 * n400 + 100 * n100 + 4 * n4 + n1 + 1, d3 - 365 * n1))"

definition month_of :: "bool \<Rightarrow> int \<Rightarrow> int" where
  "month_of lp yday = int (length (filter (\<lambda>m. days_before lp m \<le> yday) [1, 2, 3, 4, 5, 6, 7, 8, 9, 10, 11, 12]))"

definition date_of_days :: "int \<Rightarrow> int \<times> int \<times> int" where
  "date_of_days d =
     (let (y, yday) = year_and_day d; m = month_of (leap y) yday
      in (y, m, yday - days_before (leap y) m + 1))"

definition days_of_date :: "int \<Rightarrow> int \<Rightarrow> int \<Rightarrow> int" where
  "days_of_date y m d = days_to_year y + days_before (leap y) m + d - 1"

lemma mod_zero_iff_full:
  fixes m q r :: int
  assumes "1 \<le> r" "r \<le> m"
  shows "(m * q + r) mod m = 0 \<longleftrightarrow> r = m"
proof -
  have "(m * q + r) mod m = r mod m" by simp
  moreover have "r mod m = (if r = m then 0 else r)" using assms by (auto intro: mod_pos_pos_trivial)
  ultimately show ?thesis using assms by simp
qed

lemma year_and_day_correct:
  assumes "year_and_day d = (y, yday)"
  shows "days_to_year y + yday = d" "0 \<le> yday" "yday < (if leap y then 366 else 365)"
proof -
  define a where "a = d div 146097"
  define d1 where "d1 = d mod 146097"
  define b where "b = min 3 (d1 div 36524)"
  define d2 where "d2 = d1 - 36524 * b"
  define c where "c = d2 div 1461"
  define d3 where "d3 = d2 mod 1461"
  define e where "e = min 3 (d3 div 365)"
  note defs = a_def d1_def b_def d2_def c_def d3_def e_def
  have "400 * a + 100 * b + 4 * c + e + 1 = y \<and> d3 - 365 * e = yday"
    using assms unfolding year_and_day_def Let_def prod.inject defs .
  then have y: "y = 400 * a + 100 * b + 4 * c + e + 1" and yd: "yday = d3 - 365 * e" by simp_all
  have d: "d = 146097 * a + d1" by (simp add: a_def d1_def)
  have d1: "0 \<le> d1" "d1 < 146097" by (simp_all add: d1_def)
  have b: "0 \<le> b" "b \<le> 3" using d1 by (auto simp: b_def)
  have d2: "0 \<le> d2" "d2 \<le> 36524" "b < 3 \<Longrightarrow> d2 < 36524"
    using d1 unfolding d2_def b_def by (auto simp: min_def split: if_splits)
  have c: "0 \<le> c" "c \<le> 24" and d2': "d2 = 1461 * c + d3" and d3: "0 \<le> d3" "d3 < 1461"
    using d2 by (auto simp: c_def d3_def)
  have e: "0 \<le> e" "e \<le> 3" using d3 by (auto simp: e_def)
  have yday: "0 \<le> yday" "yday \<le> 365" "e < 3 \<Longrightarrow> yday < 365"
    using d3 unfolding yd e_def by (auto simp: min_def split: if_splits)
  show "0 \<le> yday" by fact
  have n: "y - 1 = 4 * (100 * a + 25 * b + c) + e" "y - 1 = 100 * (4 * a + b) + (4 * c + e)"
    "y - 1 = 400 * a + (100 * b + 4 * c + e)" using y by simp_all
  have "(y - 1) div 4 = 100 * a + 25 * b + c" "(y - 1) div 100 = 4 * a + b" "(y - 1) div 400 = a"
    by (rule int_div_pos_eq [OF n(1)] int_div_pos_eq [OF n(2)] int_div_pos_eq [OF n(3)]; use b c e in simp)+
  then show "days_to_year y + yday = d"
    unfolding days_to_year_def Let_def yd d d2'[unfolded d2_def, symmetric] using d2' d2_def y by simp
  have "leap y \<longleftrightarrow> e = 3 \<and> (c < 24 \<or> b = 3)"
  proof -
    have "y mod 4 = 0 \<longleftrightarrow> e + 1 = 4"
      using mod_zero_iff_full [of "e + 1" 4 "100 * a + 25 * b + c"] e unfolding y by (simp add: algebra_simps)
    moreover have "y mod 100 = 0 \<longleftrightarrow> 4 * c + e + 1 = 100"
      using mod_zero_iff_full [of "4 * c + e + 1" 100 "4 * a + b"] c e unfolding y by (simp add: algebra_simps)
    moreover have "y mod 400 = 0 \<longleftrightarrow> 100 * b + 4 * c + e + 1 = 400"
      using mod_zero_iff_full [of "100 * b + 4 * c + e + 1" 400 a] b c e unfolding y by (simp add: algebra_simps)
    moreover have "4 * c + e + 1 = 100 \<longleftrightarrow> e = 3 \<and> c = 24" using c e by (intro iffI conjI) linarith+
    moreover have "100 * b + 4 * c + e + 1 = 400 \<longleftrightarrow> e = 3 \<and> c = 24 \<and> b = 3" using b c e by (intro iffI conjI) linarith+
    ultimately show ?thesis using c by (auto simp: leap_def)
  qed
  moreover have "yday < 365" if "c = 24" "b < 3"
    using d2(3) [OF that(2)] d2' that e d3 yd yday by (auto simp: e_def min_def split: if_splits)
  ultimately show "yday < (if leap y then 366 else 365)" using yday b c e by fastforce
qed

lemma days_before_table:
  "days_before lp 1 = 0" "days_before lp 2 = 31" "days_before False 3 = 59" "days_before False 4 = 90"
  "days_before False 5 = 120" "days_before False 6 = 151" "days_before False 7 = 181" "days_before False 8 = 212"
  "days_before False 9 = 243" "days_before False 10 = 273" "days_before False 11 = 304" "days_before False 12 = 334"
  "days_before True 3 = 60" "days_before True 4 = 91"
  "days_before True 5 = 121" "days_before True 6 = 152" "days_before True 7 = 182" "days_before True 8 = 213"
  "days_before True 9 = 244" "days_before True 10 = 274" "days_before True 11 = 305" "days_before True 12 = 335"
  by (simp_all add: days_before_def)

lemma month_bounds:
  assumes "0 \<le> yday" "yday < (if lp then 366 else 365)"
  shows "1 \<le> month_of lp yday \<and> month_of lp yday \<le> 12 \<and> days_before lp (month_of lp yday) \<le> yday \<and>
    (month_of lp yday < 12 \<longrightarrow> yday < days_before lp (month_of lp yday + 1))"
proof -
  define l :: int where "l = (if lp then 1 else 0)"
  have "yday < 31 \<or> (31 \<le> yday \<and> yday < 59 + l) \<or> (59 + l \<le> yday \<and> yday < 90 + l) \<or> (90 + l \<le> yday \<and> yday < 120 + l) \<or>
    (120 + l \<le> yday \<and> yday < 151 + l) \<or> (151 + l \<le> yday \<and> yday < 181 + l) \<or> (181 + l \<le> yday \<and> yday < 212 + l) \<or>
    (212 + l \<le> yday \<and> yday < 243 + l) \<or> (243 + l \<le> yday \<and> yday < 273 + l) \<or> (273 + l \<le> yday \<and> yday < 304 + l) \<or>
    (304 + l \<le> yday \<and> yday < 334 + l) \<or> 334 + l \<le> yday" by linarith
  then show ?thesis
    by (elim disjE conjE; cases lp; insert assms; simp add: l_def month_of_def days_before_table)
qed
lemma month_correct:
  assumes "0 \<le> yday" "yday < (if lp then 366 else 365)"
  shows "1 \<le> month_of lp yday" "month_of lp yday \<le> 12" "days_before lp (month_of lp yday) \<le> yday"
    "month_of lp yday < 12 \<Longrightarrow> yday < days_before lp (month_of lp yday + 1)"
    "month_of lp yday = 12 \<Longrightarrow> yday < (if lp then 366 else 365)"
proof -
  have *: "1 \<le> month_of lp yday \<and> month_of lp yday \<le> 12 \<and> days_before lp (month_of lp yday) \<le> yday \<and>
    (month_of lp yday < 12 \<longrightarrow> yday < days_before lp (month_of lp yday + 1))"
    by (rule month_bounds [OF assms])
  then show "1 \<le> month_of lp yday" "month_of lp yday \<le> 12" "days_before lp (month_of lp yday) \<le> yday"
    "month_of lp yday < 12 \<Longrightarrow> yday < days_before lp (month_of lp yday + 1)" by auto
  show "month_of lp yday = 12 \<Longrightarrow> yday < (if lp then 366 else 365)" using assms by simp
qed

lemma date_round_trip:
  assumes "date_of_days d = (y, m, dd)"
  shows "days_of_date y m dd = d" "1 \<le> m" "m \<le> 12" "1 \<le> dd" "dd \<le> daysIn m y" "dd \<le> 31"
proof -
  obtain y' yday where yd: "year_and_day d = (y', yday)" by (cases "year_and_day d")
  then have y: "y' = y" and m: "m = month_of (leap y) yday" and dd: "dd = yday - days_before (leap y) m + 1"
    using assms by (auto simp: date_of_days_def Let_def)
  note c = year_and_day_correct [OF yd [unfolded y]]
  note mc = month_correct [OF c(2,3), folded m]
  show "days_of_date y m dd = d" using c(1) by (simp add: days_of_date_def dd)
  show "1 \<le> m" "m \<le> 12" using mc by simp_all
  show "1 \<le> dd" using mc(3) by (simp add: dd)
  have "m \<in> {1, 2, 3, 4, 5, 6, 7, 8, 9, 10, 11, 12}" using mc(1,2) by (simp only: insert_iff empty_iff) presburger
  then have "dd \<le> daysIn m y \<and> daysIn m y \<le> 31"
    using mc(4,5) unfolding dd by (auto simp: days_before_def daysIn_def split: if_splits)
  then show "dd \<le> daysIn m y" "dd \<le> 31" by auto
qed

lemma days_to_year_10000: "date_of_days d = (y, m, dd) \<Longrightarrow> 0 \<le> d \<Longrightarrow> d < 3652059 \<Longrightarrow> 1 \<le> y \<and> y \<le> 9999"
proof -
  assume a: "date_of_days d = (y, m, dd)" "0 \<le> d" "d < 3652059"
  obtain y' yday where yd: "year_and_day d = (y', yday)" by (cases "year_and_day d")
  then have y: "y' = y" using a(1) by (auto simp: date_of_days_def Let_def)
  note c = year_and_day_correct [OF yd [unfolded y]]
  have "days_to_year y \<ge> 3652059" if "y \<ge> 10000"
  proof -
    have "9999 div 4 \<le> (y - 1) div 4" "9999 div 400 \<le> (y - 1) div 400" using that by (intro zdiv_mono1; simp)+
    moreover have "(y - 1) div 100 < 100 + (y - 10000)" using that mult_div_mod_eq [of 100 "y - 1"] pos_mod_sign [of 100 "y - 1"] by linarith
    ultimately show ?thesis using that by (simp add: days_to_year_def Let_def)
  qed
  moreover have "days_to_year y < - 365" if "y \<le> 0"
  proof -
    have "(y - 1) div 4 \<le> - 1 div 4" "(y - 1) div 400 \<le> - 1 div 400" using that by (intro zdiv_mono1; simp)+
    moreover have "y - 1 \<le> (y - 1) div 100" using that mult_div_mod_eq [of 100 "y - 1"] pos_mod_bound [of 100 "y - 1"] by linarith
    ultimately have "(y - 1) div 4 \<le> - 1" "(y - 1) div 400 \<le> -1" "- ((y - 1) div 100) \<le> - (y - 1)" by simp_all
    then show ?thesis using that by (simp add: days_to_year_def Let_def)
  qed
  ultimately show ?thesis using a c by (cases "leap y") fastforce+
qed

section \<open>Writing a time\<close>

definition pad_int :: "nat \<Rightarrow> int \<Rightarrow> string" where
  "pad_int w i = (if i < 0 then CHR ''-'' # zero_pad w (nat_text (nat (- i))) else zero_pad w (nat_text (nat i)))"

definition formatTime :: "time \<Rightarrow> string" where
  "formatTime moment =
     (let secs = truncate_second moment div second;
          (y, m, d) = date_of_days (secs div 86400);
          r = secs mod 86400
      in pad_int 4 y @ ''-'' @ pad_int 2 m @ ''-'' @ pad_int 2 d @ ''T'' @
         pad_int 2 (r div 3600) @ '':'' @ pad_int 2 (r div 60 mod 60) @ '':'' @ pad_int 2 (r mod 60) @ ''Z'')"

section \<open>Reading a time\<close>

definition is_digit :: "char \<Rightarrow> bool" where
  "is_digit c \<longleftrightarrow> 48 \<le> (of_char c :: nat) \<and> (of_char c :: nat) \<le> 57"

definition digit_of :: "char \<Rightarrow> int" where
  "digit_of c = int (of_char c) - 48"

definition digits_of :: "string \<Rightarrow> int" where
  "digits_of s = foldl (\<lambda>v c. 10 * v + digit_of c) 0 s"

text \<open>\<^verbatim>\<open>strconv.Atoi\<close>: an optional sign, then digits, within 64 bits.\<close>

definition Atoi :: "string \<Rightarrow> int option" where
  "Atoi s =
     (let (neg, ds) = (case s of c # cs \<Rightarrow> if c = CHR ''-'' then (True, cs) else if c = CHR ''+'' then (False, cs) else (False, s)
                       | [] \<Rightarrow> (False, []));
          n = (if neg then - digits_of ds else digits_of ds)
      in if ds \<noteq> [] \<and> list_all is_digit ds \<and> is_int64 n then Some n else None)"

text \<open>\<^verbatim>\<open>getnum\<close>: two digits, or one when the layout does not fix the width.\<close>

definition getnum :: "bool \<Rightarrow> string \<Rightarrow> (int \<times> string) option" where
  "getnum fixed s =
     (case s of
        a # b # rest \<Rightarrow>
          if \<not> is_digit a then None
          else if is_digit b then Some (10 * digit_of a + digit_of b, rest)
          else if fixed then None else Some (digit_of a, b # rest)
      | [a] \<Rightarrow> if is_digit a \<and> \<not> fixed then Some (digit_of a, []) else None
      | [] \<Rightarrow> None)"

definition ranged :: "int \<Rightarrow> int \<Rightarrow> (int \<times> string) option \<Rightarrow> (int \<times> string) option" where
  "ranged lo hi r = Option.bind r (\<lambda>(n, rest). if lo \<le> n \<and> n \<le> hi then Some (n, rest) else None)"

definition long_year :: "string \<Rightarrow> (int \<times> string) option" where
  "long_year s =
     (if length s < 4 \<or> \<not> list_all is_digit (take 4 s) then None else Some (digits_of (take 4 s), drop 4 s))"

definition literal :: "char \<Rightarrow> string \<Rightarrow> string option" where
  "literal c s = (case s of x # rest \<Rightarrow> if x = c then Some rest else None | [] \<Rightarrow> None)"

text \<open>An optional fraction: a point or comma and digits, of which nine count.\<close>

definition fraction :: "string \<Rightarrow> int \<times> string" where
  "fraction s =
     (case s of
        p # d # rest \<Rightarrow>
          if (p = CHR ''.'' \<or> p = CHR '','') \<and> is_digit d then
            (let ds = takeWhile is_digit (d # rest); used = take 9 ds
             in (digits_of used * 10 ^ (9 - length used), drop (length ds) (d # rest)))
          else (0, s)
      | _ \<Rightarrow> (0, s))"

text \<open>The zone: \<^verbatim>\<open>Z\<close> or a signed offset in hours and minutes, as seconds east.\<close>

definition zone :: "string \<Rightarrow> (int \<times> string) option" where
  "zone s =
     (case s of
        c # rest \<Rightarrow>
          if c = CHR ''Z'' then Some (0, rest)
          else if length s < 6 \<or> s ! 3 \<noteq> CHR '':'' then None
          else Option.bind (getnum True (take 2 rest)) (\<lambda>(h, _).
               Option.bind (getnum True (take 2 (drop 4 s))) (\<lambda>(m, _).
               if h > 24 \<or> m > 60 then None
               else if c = CHR ''+'' then Some ((h * 60 + m) * 60, drop 6 s)
               else if c = CHR ''-'' then Some (- ((h * 60 + m) * 60), drop 6 s)
               else None))
      | [] \<Rightarrow> None)"

definition ParseRFC3339Nano :: "string \<Rightarrow> time option" where
  "ParseRFC3339Nano text = do {
     (y, s) \<leftarrow> long_year text;
     s \<leftarrow> literal (CHR ''-'') s;
     (m, s) \<leftarrow> ranged 1 12 (getnum True s);
     s \<leftarrow> literal (CHR ''-'') s;
     (d, s) \<leftarrow> getnum True s;
     s \<leftarrow> literal (CHR ''T'') s;
     (hour, s) \<leftarrow> ranged 0 23 (getnum False s);
     s \<leftarrow> literal (CHR '':'') s;
     (mi, s) \<leftarrow> ranged 0 59 (getnum True s);
     s \<leftarrow> literal (CHR '':'') s;
     (sec, s) \<leftarrow> ranged 0 59 (getnum True s);
     (offset, s') \<leftarrow> zone (snd (fraction s));
     (if s' \<noteq> [] \<or> d < 1 \<or> d > daysIn m y then None
      else Some ((days_of_date y m d * 86400 + hour * 3600 + mi * 60 + sec - offset) * second + fst (fraction s)))
   }"

section \<open>Reading a written time\<close>

lemma digit_char_digit [simp]: "d < 10 \<Longrightarrow> is_digit (digit_char d) \<and> digit_of (digit_char d) = int d"
  by (simp add: digit_char_def is_digit_def digit_of_def)

lemma nat_text_digits: "list_all is_digit (nat_text n) \<and> digits_of (nat_text n) = int n"
proof (induction n rule: nat_text.induct)
  case (1 n)
  show ?case
  proof (cases "n < 10")
    case True
    then show ?thesis by (subst (1 2) nat_text.simps) (simp add: digits_of_def)
  next
    case False
    moreover have "10 * int (n div 10) + int (n mod 10) = int n" by presburger
    ultimately show ?thesis using 1 by (subst (1 2) nat_text.simps) (simp add: digits_of_def)
  qed
qed

lemma nat_text_length: "n < 10 ^ Suc k \<Longrightarrow> length (nat_text n) \<le> Suc k"
proof (induction k arbitrary: n)
  case 0
  then show ?case by (subst nat_text.simps) simp
next
  case (Suc k)
  have "length (nat_text (n div 10)) \<le> Suc k" using Suc.prems by (intro Suc.IH) (simp add: div_less_iff_less_mult mult.commute)
  then show ?case by (subst nat_text.simps) simp
qed

lemma digits_of_append_zeros: "digits_of (replicate k (CHR ''0'') @ s) = digits_of s"
  by (induction k) (simp_all add: digits_of_def digit_of_def)

lemma pad_int_digits:
  assumes "0 \<le> i" "i < 10 ^ Suc k"
  shows "length (pad_int (Suc k) i) = Suc k" "list_all is_digit (pad_int (Suc k) i)" "digits_of (pad_int (Suc k) i) = i"
proof -
  have "nat i < 10 ^ Suc k" using assms by (simp add: nat_less_iff)
  then have "length (nat_text (nat i)) \<le> Suc k" by (rule nat_text_length)
  then show "length (pad_int (Suc k) i) = Suc k" "list_all is_digit (pad_int (Suc k) i)" "digits_of (pad_int (Suc k) i) = i"
    using nat_text_digits [of "nat i"] assms(1)
    by (auto simp: pad_int_def zero_pad_def digits_of_append_zeros list_all_iff is_digit_def)
qed

lemma getnum_pad2:
  assumes "0 \<le> i" "i < 100"
  shows "getnum fixed (pad_int 2 i @ rest) = Some (i, rest)"
proof -
  have "i < 10 ^ Suc (Suc 0)" using assms by simp
  note p = pad_int_digits [OF assms(1) this]
  obtain a b where ab: "pad_int 2 i = [a, b]" using p(1) by (auto simp: numeral_2_eq_2 length_Suc_conv)
  then show ?thesis using p(2,3) by (simp add: getnum_def digits_of_def numeral_2_eq_2)
qed

lemma long_year_pad4:
  assumes "0 \<le> i" "i < 10000"
  shows "long_year (pad_int 4 i @ rest) = Some (i, rest)"
proof -
  have "i < 10 ^ Suc (Suc (Suc (Suc 0)))" using assms by simp
  note p = pad_int_digits [OF assms(1) this]
  then show ?thesis by (simp add: long_year_def eval_nat_numeral)
qed

lemma ParseRFC3339Nano_parts:
  assumes "0 \<le> y" "y < 10000" "1 \<le> m" "m \<le> 12" "1 \<le> d" "d \<le> daysIn m y" "d < 100"
    "0 \<le> h" "h \<le> 23" "0 \<le> mi" "mi \<le> 59" "0 \<le> s" "s \<le> 59"
  shows "ParseRFC3339Nano (pad_int 4 y @ ''-'' @ pad_int 2 m @ ''-'' @ pad_int 2 d @ ''T'' @
           pad_int 2 h @ '':'' @ pad_int 2 mi @ '':'' @ pad_int 2 s @ ''Z'') =
         Some ((days_of_date y m d * 86400 + h * 3600 + mi * 60 + s) * second)"
proof -
  have "getnum True (pad_int 2 m @ rest) = Some (m, rest)" "getnum True (pad_int 2 d @ rest) = Some (d, rest)"
    "getnum False (pad_int 2 h @ rest) = Some (h, rest)" "getnum True (pad_int 2 mi @ rest) = Some (mi, rest)"
    "getnum True (pad_int 2 s @ rest) = Some (s, rest)" for rest
    using assms by (intro getnum_pad2; simp)+
  moreover have "long_year (pad_int 4 y @ rest) = Some (y, rest)" for rest
    using assms by (intro long_year_pad4; simp)
  ultimately show ?thesis
    using assms by (simp add: ParseRFC3339Nano_def literal_def ranged_def zone_def fraction_def)
qed

lemma whole_seconds:
  assumes "0 \<le> t" "t < 3652059 * day"
  shows "truncate_second t = second * (truncate_second t div second)" "0 \<le> truncate_second t div second"
    "0 \<le> truncate_second t div second div 86400" "truncate_second t div second div 86400 < 3652059"
proof -
  define secs where "secs = truncate_second t div second"
  show tr: "truncate_second t = second * (truncate_second t div second)" unfolding truncate_second_def by simp
  then have s: "second * secs = t - t mod second" by (simp add: secs_def truncate_second_def)
  have "0 \<le> secs" "secs < 3652059 * 86400"
    using s assms pos_mod_sign [of second t] pos_mod_bound [of second t] by linarith+
  then show "0 \<le> truncate_second t div second" "0 \<le> truncate_second t div second div 86400"
    "truncate_second t div second div 86400 < 3652059"
    using mult_div_mod_eq [of 86400 secs] pos_mod_sign [of 86400 secs] unfolding secs_def by linarith+
qed

text \<open>A written time reads back to the second, for every year from 1 to 9999.\<close>

lemma time_text_round_trip:
  assumes "0 \<le> t" "t < 3652059 * day"
  shows "ParseRFC3339Nano (formatTime t) = Some (truncate_second t)"
proof -
  define secs where "secs = truncate_second t div second"
  obtain y m d where date: "date_of_days (secs div 86400) = (y, m, d)" by (metis prod_cases3)
  define r where "r = secs mod 86400"
  note ws = whole_seconds [OF assms, folded secs_def]
  note tr = ws(1) and days = ws(3,4)
  note dr = date_round_trip [OF date]
  have y: "1 \<le> y" "y \<le> 9999" using days_to_year_10000 [OF date days] by simp_all
  have r: "0 \<le> r" "r < 86400" by (simp_all add: r_def)
  have h: "0 \<le> r div 3600" "r div 3600 \<le> 23" "0 \<le> r div 60 mod 60" "r div 60 mod 60 \<le> 59" "0 \<le> r mod 60" "r mod 60 \<le> 59"
    using r by auto
  have sum: "secs = 86400 * (secs div 86400) + (r div 3600 * 3600 + r div 60 mod 60 * 60 + r mod 60)"
  proof -
    have "r div 60 div 60 = r div 3600" by (simp flip: zdiv_zmult2_eq)
    then show ?thesis
      using mult_div_mod_eq [of 60 r] mult_div_mod_eq [of 60 "r div 60"] mult_div_mod_eq [of 86400 secs] r_def by linarith
  qed
  have "formatTime t = pad_int 4 y @ ''-'' @ pad_int 2 m @ ''-'' @ pad_int 2 d @ ''T'' @
         pad_int 2 (r div 3600) @ '':'' @ pad_int 2 (r div 60 mod 60) @ '':'' @ pad_int 2 (r mod 60) @ ''Z''"
    unfolding formatTime_def Let_def secs_def [symmetric] date prod.case r_def by simp
  then have "ParseRFC3339Nano (formatTime t) =
      Some ((days_of_date y m d * 86400 + r div 3600 * 3600 + r div 60 mod 60 * 60 + r mod 60) * second)"
    by (simp only:, intro ParseRFC3339Nano_parts; use dr y h in linarith)
  also have "\<dots> = Some (truncate_second t)" unfolding tr dr(1) using sum by simp
  finally show ?thesis .
qed

end
