(* ===== verification/Metering_Types.thy ===== *)
theory Metering_Types
  imports Metering_Prelude
begin

text \<open>
  The data the metering loops share: the rows of the metering database
  (\<^verbatim>\<open>internal/database/store.go\<close>).
\<close>

abbreviation BillingResourceType :: string where "BillingResourceType \<equiv> ''Tenant''"
abbreviation BillingField :: string where "BillingField \<equiv> ''external_billing_id''"

record fact =
  Fact_ResourceType :: string
  Fact_ResourceID :: string
  Fact_Field :: string
  Fact_Since :: time
  Fact_Value :: string

record ledger_key =
  Key_ResourceType :: string
  Key_ResourceID :: string
  Key_Meter :: string
  Key_Component :: string
  Key_Dimensions :: string

record ledger_piece =
  Row_Key :: ledger_key
  Row_StartTime :: time
  Row_EndTime :: time
  Row_QuantityMicro :: int

end
