(* ===== verification/Heartbeat.thy ===== *)
theory Heartbeat
  imports Go_Time Metering_Types
begin

text \<open>
  The heartbeat event of \<^verbatim>\<open>internal/heartbeat/event.go\<close> and the payload of
  \<^verbatim>\<open>schema/heartbeat.go\<close>: fixed-point quantities as text, the event and its identifier, and
  reading one back. The JSON of the event envelope and of the payload record is not spelled out: an
  event holds its payload as a record, or \<open>None\<close> when the bytes do not decode. The hexadecimal
  SHA-256 of a text is the parameter \<open>sha256\<close>.
\<close>

section \<open>Quantities as text\<close>

definition FormatMicro :: "int \<Rightarrow> string" where
  "FormatMicro quantityMicro =
     (let (sign, q) = (if quantityMicro < 0 then (''-'', wrap64 (- quantityMicro)) else ('''', quantityMicro));
          whole = quot q 1000000;
          frac = remainder q 1000000
      in sign @ int_text whole @ ''.'' @ int_text_06 frac)"

definition ParseMicro :: "string \<Rightarrow> metering_error + int" where
  "ParseMicro s =
     (case RatSetString s of
        None \<Rightarrow> Inl (NotADecimalNumber s)
      | Some rational \<Rightarrow>
          (let (num, den) = quotient_of (rational * 1000000) in
           if den \<noteq> 1 then Inl (NeedsMoreThanSixDecimals s)
           else if \<not> is_int64 num then Inl (NumberDoesNotFit s)
           else Inr num))"

section \<open>The payload and its resource types\<close>

record usage_text =
  Usage_Semantics :: string
  Usage_From :: string
  Usage_To :: string
  Usage_Quantity :: string
  Usage_Unit :: string
  Usage_Precision :: string

record heartbeat_data =
  Data_TenantID :: string
  Data_ResourceType :: string
  Data_ResourceID :: string
  Data_Meter :: string
  Data_Component :: string
  Data_BillingDimensions :: "(string \<times> string) list"
  Data_Usage :: usage_text
  Data_HeartbeatTime :: string
  Data_LastAppliedOffset :: int
  Data_RulesRevision :: string
  Data_ExternalBillingAccountID :: "string option"

record heartbeat_event =
  Event_ID :: string
  Event_Type :: string
  Event_Source :: string
  Event_Time :: time
  Event_Extensions :: "(string \<times> string) list"
  Event_Data :: "heartbeat_data option"

definition resourceTypes :: "string list" where
  "resourceTypes =
     [''bare_metal_instance'', ''cluster_order'', ''compute_instance'', ''external_ip'', ''nat_gateway'', ''volume'']"

definition KnownResourceType :: "string \<Rightarrow> bool" where
  "KnownResourceType v \<longleftrightarrow> v \<in> set resourceTypes"

definition ProtoResourceTypeToSchema :: "string \<Rightarrow> string" where
  "ProtoResourceTypeToSchema protoName =
     (if protoName = ''ComputeInstance'' then ''compute_instance''
      else if protoName = ''Cluster'' then ''cluster_order''
      else if protoName = ''BareMetalInstance'' then ''bare_metal_instance''
      else if protoName = ''ExternalIP'' then ''external_ip''
      else if protoName = ''NATGateway'' then ''nat_gateway''
      else if protoName = ''Volume'' then ''volume''
      else protoName)"

definition SchemaResourceTypeToProto :: "string \<Rightarrow> string" where
  "SchemaResourceTypeToProto schemaName =
     (if schemaName = ''compute_instance'' then ''ComputeInstance''
      else if schemaName = ''cluster_order'' then ''Cluster''
      else if schemaName = ''bare_metal_instance'' then ''BareMetalInstance''
      else if schemaName = ''external_ip'' then ''ExternalIP''
      else if schemaName = ''nat_gateway'' then ''NATGateway''
      else if schemaName = ''volume'' then ''Volume''
      else schemaName)"

section \<open>Building and reading an event\<close>

definition HeartbeatType :: string where
  "HeartbeatType = ''osac.resource.heartbeat.'' @ ''v1''"

fun join_nul :: "string list \<Rightarrow> string" where
  "join_nul [] = []"
| "join_nul [x] = x"
| "join_nul (x # y # zs) = x @ CHR 0x00 # join_nul (y # zs)"

definition heartbeat_text :: "string \<Rightarrow> ledger_key \<Rightarrow> time \<Rightarrow> time \<Rightarrow> time \<Rightarrow> string" where
  "heartbeat_text tenant key from to heartbeatTime =
     join_nul [tenant, Key_ResourceType key, Key_ResourceID key, Key_Meter key, Key_Component key,
               Key_Dimensions key, formatTime from, formatTime to, formatTime heartbeatTime]"

definition heartbeat_ID :: "(string \<Rightarrow> string) \<Rightarrow> string \<Rightarrow> ledger_key \<Rightarrow> time \<Rightarrow> time \<Rightarrow> time \<Rightarrow> string" where
  "heartbeat_ID sha256 tenant key from to heartbeatTime =
     sha256 (heartbeat_text tenant key from to heartbeatTime)"

definition decodeDimensions :: "string \<Rightarrow> metering_error + (string \<times> string) list" where
  "decodeDimensions encoded =
     (case json_Unmarshal encoded of None \<Rightarrow> Inl (UndecodableDimensions encoded) | Some d \<Rightarrow> Inr d)"

definition heartbeat_New ::
  "(string \<Rightarrow> string) \<Rightarrow> string \<Rightarrow> ledger_key \<Rightarrow> time \<Rightarrow> time \<Rightarrow> int \<Rightarrow> string \<Rightarrow> time \<Rightarrow> int \<Rightarrow> string \<Rightarrow> string
     \<Rightarrow> metering_error + heartbeat_event" where
  "heartbeat_New sha256 tenant key from to quantityMicro unit heartbeatTime lastAppliedOffset rulesRevision
      externalBillingAccountID =
     ebind (decodeDimensions (Key_Dimensions key)) (\<lambda>dimensions.
       Inr \<lparr>Event_ID = heartbeat_ID sha256 tenant key from to heartbeatTime,
            Event_Type = HeartbeatType, Event_Source = ''osac-metering'', Event_Time = from,
            Event_Extensions =
              [(''osacresourceid'', Key_ResourceID key),
               (''osacresourcetype'', ProtoResourceTypeToSchema (Key_ResourceType key)),
               (''osactenant'', tenant)],
            Event_Data = Some
              \<lparr>Data_TenantID = tenant,
               Data_ResourceType = ProtoResourceTypeToSchema (Key_ResourceType key),
               Data_ResourceID = Key_ResourceID key, Data_Meter = Key_Meter key,
               Data_Component = Key_Component key, Data_BillingDimensions = dimensions,
               Data_Usage =
                 \<lparr>Usage_Semantics = ''interval'', Usage_From = formatTime from, Usage_To = formatTime to,
                  Usage_Quantity = FormatMicro quantityMicro, Usage_Unit = unit, Usage_Precision = ''second''\<rparr>,
               Data_HeartbeatTime = formatTime heartbeatTime, Data_LastAppliedOffset = lastAppliedOffset,
               Data_RulesRevision = rulesRevision,
               Data_ExternalBillingAccountID =
                 (if externalBillingAccountID \<noteq> '''' then Some externalBillingAccountID else None)\<rparr>\<rparr>)"

definition heartbeat_Data :: "heartbeat_event \<Rightarrow> metering_error + heartbeat_data" where
  "heartbeat_Data event =
     (case Event_Data event of
        None \<Rightarrow> Inl (UndecodablePayload (Event_ID event))
      | Some data \<Rightarrow>
          if Data_TenantID data = '''' \<or> Data_ResourceID data = '''' \<or> Data_Meter data = ''''
          then Inl (MissingIdentityFields (Event_ID event))
          else if Usage_From (Data_Usage data) = '''' \<or> Usage_To (Data_Usage data) = '''' \<or>
                  Usage_Quantity (Data_Usage data) = ''''
          then Inl (MissingUsageFields (Event_ID event))
          else Inr data)"

definition parse_time :: "string \<Rightarrow> metering_error + time" where
  "parse_time s = (case ParseRFC3339Nano s of None \<Rightarrow> Inl (UnparsableTime s) | Some t \<Rightarrow> Inr t)"

definition Interval :: "heartbeat_data \<Rightarrow> metering_error + time \<times> time" where
  "Interval data =
     ebind (parse_time (Usage_From (Data_Usage data))) (\<lambda>from.
     ebind (parse_time (Usage_To (Data_Usage data))) (\<lambda>to. Inr (from, to)))"

definition HeartbeatTime :: "heartbeat_data \<Rightarrow> metering_error + time" where
  "HeartbeatTime data = parse_time (Data_HeartbeatTime data)"

section \<open>A quantity reads back as itself\<close>

definition dec_value :: "nat \<Rightarrow> string \<Rightarrow> nat" where
  "dec_value v s = foldl (\<lambda>v c. 10 * v + digit_value c) v s"

lemma scan_digits_run:
  assumes "list_all (\<lambda>c. digit_value c < 10) ds" "ds \<noteq> []"
  shows "scan_digits 10 fracOk st (ds @ rest) =
    scan_digits 10 fracOk (st\<lparr>Scan_Value := dec_value (Scan_Value st) ds, Scan_Count := Scan_Count st + length ds,
        Scan_Prev := CHR ''0''\<rparr>) rest"
  using assms
proof (induction ds arbitrary: st)
  case (Cons d ds)
  have "d \<noteq> CHR ''.''" "d \<noteq> CHR ''_''" using Cons.prems(1) by (auto simp: digit_value_def)
  then show ?case using Cons by (cases "ds = []") (simp_all add: dec_value_def)
qed simp

lemma digit_value_digit_char: "d < 10 \<Longrightarrow> digit_value (digit_char d) = d"
  by (simp add: digit_value_def digit_char_def)

lemma nat_text_dec: "list_all (\<lambda>c. digit_value c < 10) (nat_text n) \<and> dec_value 0 (nat_text n) = n \<and> nat_text n \<noteq> []"
proof (induction n rule: nat_text.induct)
  case (1 n)
  then show ?case
    by (cases "n < 10") (subst (1 2 3) nat_text.simps, simp add: dec_value_def digit_value_digit_char)+
qed

lemma dec_value_shift: "dec_value v s = v * 10 ^ length s + dec_value 0 s"
proof (induction s rule: rev_induct)
  case (snoc c s)
  then show ?case by (simp add: dec_value_def)
qed (simp add: dec_value_def)

lemma nat_text_head: "hd (nat_text n) = CHR ''0'' \<longleftrightarrow> n = 0"
proof (induction n rule: nat_text.induct)
  case (1 n)
  show ?case
  proof (cases "n < 10")
    case True
    then have "hd (nat_text n) = digit_char n" by (subst nat_text.simps) simp
    moreover have "digit_char n = CHR ''0'' \<longleftrightarrow> n = 0"
    proof
      assume "digit_char n = CHR ''0''"
      then show "n = 0" using digit_value_digit_char [OF True] by (simp add: digit_value_def)
    next
      assume "n = 0"
      moreover have "digit_char 0 = CHR ''0''" by code_simp
      ultimately show "digit_char n = CHR ''0''" by simp
    qed
    ultimately show ?thesis by simp
  next
    case False
    then have "hd (nat_text n) = hd (nat_text (n div 10))"
      using nat_text_dec [of "n div 10"] by (subst nat_text.simps) simp
    then show ?thesis using 1 False by auto
  qed
qed

lemma pad6_dec:
  assumes "f < 1000000"
  shows "list_all (\<lambda>c. digit_value c < 10) (zero_pad 6 (nat_text f))" "length (zero_pad 6 (nat_text f)) = 6"
    "dec_value 0 (zero_pad 6 (nat_text f)) = f"
proof -
  have "length (nat_text f) \<le> Suc 5" by (rule nat_text_length) (use assms in simp)
  moreover have "dec_value 0 (replicate k (CHR ''0'') @ s) = dec_value 0 s" for k s
    by (induction k) (simp_all add: dec_value_def digit_value_def)
  ultimately show "list_all (\<lambda>c. digit_value c < 10) (zero_pad 6 (nat_text f))" "length (zero_pad 6 (nat_text f)) = 6"
    "dec_value 0 (zero_pad 6 (nat_text f)) = f"
    using nat_text_dec [of f] by (auto simp: zero_pad_def list_all_iff digit_value_def)
qed

lemma nat_scan_fixed:
  assumes "f < 1000000"
  shows "nat_scan True (nat_text w @ ''.'' @ zero_pad 6 (nat_text f)) = Some (w * 1000000 + f, 10, - 6, [])"
proof -
  note p = pad6_dec [OF assms]
  have ne: "zero_pad 6 (nat_text f) \<noteq> []" using p(2) by auto
  have frac: "scan_digits 10 False st (zero_pad 6 (nat_text f)) =
      (st\<lparr>Scan_Value := Scan_Value st * 1000000 + f, Scan_Count := Scan_Count st + 6, Scan_Prev := CHR ''0''\<rparr>, [])" for st
    using scan_digits_run [OF p(1) ne, of False st "[]"] dec_value_shift [of "Scan_Value st" "zero_pad 6 (nat_text f)"] p(2,3)
    by simp
  note dec = nat_text_dec [of w]
  show ?thesis
  proof (cases "w = 0")
    case True
    have "nat_text w = ''0''" unfolding True by code_simp
    then show ?thesis by (simp add: nat_scan_def frac True)
  next
    case False
    then obtain c cs where cs: "nat_text w = c # cs" "c \<noteq> CHR ''0''"
      using nat_text_head [of w] dec by (cases "nat_text w") auto
    let ?st = "\<lparr>Scan_Value = 0, Scan_Count = 0, Scan_Dp = None, Scan_Prev = CHR ''.'', Scan_Inval = False\<rparr>"
    have "scan_digits 10 True ?st (nat_text w @ ''.'' @ zero_pad 6 (nat_text f)) =
      (\<lparr>Scan_Value = w * 1000000 + f, Scan_Count = length (nat_text w) + 6, Scan_Dp = Some (length (nat_text w)),
        Scan_Prev = CHR ''0'', Scan_Inval = False\<rparr>, [])"
      using scan_digits_run [of "nat_text w" True ?st "''.'' @ zero_pad 6 (nat_text f)"] dec by (simp add: frac)
    then have "scan_digits 10 True ?st (c # cs @ ''.'' @ zero_pad 6 (nat_text f)) =
      (\<lparr>Scan_Value = w * 1000000 + f, Scan_Count = length (nat_text w) + 6, Scan_Dp = Some (length (nat_text w)),
        Scan_Prev = CHR ''0'', Scan_Inval = False\<rparr>, [])" by (simp only: cs append_Cons)
    then show ?thesis unfolding cs nat_scan_def append_Cons Let_def list.case if_not_P [OF cs(2)] prod.case
      by simp
  qed
qed

lemma nat_text_plain: "c \<in> set (nat_text n) \<Longrightarrow> digit_value c < 10"
  using nat_text_dec [of n] by (auto simp: list_all_iff)

lemma RatSetString_fixed:
  assumes "f < 1000000" and that: "sg = (if neg then ''-'' else [])"
  shows "RatSetString (sg @ nat_text w @ ''.'' @ zero_pad 6 (nat_text f)) =
    Some (signed_rat neg (of_nat (w * 1000000 + f) / 1000000))"
proof -
  let ?body = "nat_text w @ ''.'' @ zero_pad 6 (nat_text f)"
  have digits: "digit_value c < 10 \<or> c = CHR ''.''" if "c \<in> set ?body" for c
    using that nat_text_plain pad6_dec(1) [OF assms(1)] by (auto simp: list_all_iff)
  have noslash: "CHR ''/'' \<notin> set (sg @ ?body)"
    using digits [of "CHR ''/''"] that by (auto simp: digit_value_def split: if_splits)
  obtain c cs where cs: "?body = c # cs" "digit_value c < 10"
    using nat_text_dec [of w] by (cases "nat_text w") auto
  then have "c \<noteq> CHR ''-''" "c \<noteq> CHR ''+''" by (auto simp: digit_value_def)
  then have sign: "scan_sign (sg @ ?body) = (neg, ?body)"
    using that cs by (auto simp: scan_sign_def)
  have "pow_rat 5 (- 6) * (pow_rat 2 (- 6) * 1000000) = 1" by (simp add: pow_rat_def)
  then show ?thesis
    using noslash by (simp add: RatSetString_def sign [simplified] nat_scan_fixed [OF assms(1), simplified] scanExponent_def signed_rat_def
      del: of_nat_add of_nat_mult)
qed

lemma FormatMicro_parts:
  assumes "is_int64 q" "q \<noteq> - (2 ^ 63)"
  shows "FormatMicro q = (if q < 0 then ''-'' else []) @ nat_text (nat (\<bar>q\<bar> div 1000000)) @ ''.'' @
           zero_pad 6 (nat_text (nat (\<bar>q\<bar> mod 1000000)))"
proof -
  have "wrap64 (- q) = - q" using assms by (intro wrap64_id) (auto simp: is_int64_def)
  moreover have "quot n 1000000 = n div 1000000" "remainder n 1000000 = n mod 1000000" if "0 \<le> n" for n
    using that by (auto simp: quot_def remainder_def sgn_if minus_mult_div_eq_mod)
  ultimately show ?thesis
    by (auto simp: FormatMicro_def Let_def int_text_def int_text_06_def pos_imp_zdiv_nonneg_iff split: if_splits)
qed

lemma digit_chars:
  "digit_char 0 = CHR ''0''" "digit_char 1 = CHR ''1''" "digit_char 2 = CHR ''2''" "digit_char 3 = CHR ''3''"
  "digit_char 4 = CHR ''4''" "digit_char 5 = CHR ''5''" "digit_char 6 = CHR ''6''" "digit_char 7 = CHR ''7''"
  "digit_char 8 = CHR ''8''" "digit_char 9 = CHR ''9''" "digit_char (Suc 0) = CHR ''1''"
  by code_simp+

lemma ParseMicro_FormatMicro:
  assumes "is_int64 q"
  shows "ParseMicro (FormatMicro q) =
    (if q = - (2 ^ 63) then Inl (NotADecimalNumber ''--9223372036854.-775808'') else Inr q)"
proof (cases "q = - (2 ^ 63)")
  case True
  have "wrap64 (2 ^ 63) = - (2 ^ 63)" by (simp add: wrap64_def)
  then have "FormatMicro (- (2 ^ 63)) = ''--9223372036854.-775808''"
    by (simp add: FormatMicro_def quot_def remainder_def int_text_def int_text_06_def zero_pad_def nat_text.simps digit_chars)
  moreover have "ParseMicro ''--9223372036854.-775808'' = Inl (NotADecimalNumber ''--9223372036854.-775808'')"
    by code_simp
  ultimately show ?thesis using True by simp
next
  case False
  let ?w = "nat (\<bar>q\<bar> div 1000000)" and ?f = "nat (\<bar>q\<bar> mod 1000000)"
  have f: "?f < 1000000" by (simp add: nat_less_iff)
  have n: "int (?w * 1000000 + ?f) = \<bar>q\<bar>" by (simp add: pos_imp_zdiv_nonneg_iff)
  have "(of_nat (?w * 1000000 + ?f) :: rat) = of_int \<bar>q\<bar>" using n by (metis of_int_of_nat_eq)
  then have "RatSetString (FormatMicro q) = Some (signed_rat (q < 0) (of_int \<bar>q\<bar> / 1000000))"
    using FormatMicro_parts [OF assms False] RatSetString_fixed [OF f refl, of "q < 0" ?w] by simp
  moreover have "signed_rat (q < 0) (of_int \<bar>q\<bar> / 1000000) * 1000000 = of_int q"
    by (simp add: signed_rat_def)
  ultimately show ?thesis using assms False by (simp add: ParseMicro_def)
qed

text \<open>
  C31: a quantity in a heartbeat reads back as itself. The text of a 64-bit quantity parses to the same
  quantity, for every one but the least, whose negation overflows and whose text is not a number.
\<close>

theorem quantity_text_round_trip:
  assumes "is_int64 q"
  shows "ParseMicro (FormatMicro q) =
    (if q = - (2 ^ 63) then Inl (NotADecimalNumber ''--9223372036854.-775808'') else Inr q)"
  using ParseMicro_FormatMicro [OF assms] .

theorem quantity_text_round_trip_witness:
  "is_int64 (- 1500000) \<and> FormatMicro (- 1500000) = ''-1.500000'' \<and> ParseMicro (FormatMicro (- 1500000)) = Inr (- 1500000)"
proof -
  have "is_int64 (- 1500000)" by (simp add: is_int64_def)
  moreover from quantity_text_round_trip [OF this] have "ParseMicro (FormatMicro (- 1500000)) = Inr (- 1500000)" by simp
  moreover have "FormatMicro (- 1500000) = ''-1.500000''"
  proof -
    have "nat_text 1 = ''1''" "nat_text 500000 = ''500000''" by (simp_all add: nat_text.simps digit_chars)
    then show ?thesis by (subst FormatMicro_parts) (simp_all add: is_int64_def zero_pad_def)
  qed
  ultimately show ?thesis by simp
qed

text \<open>
  The resource type a heartbeat carries names its resource. Reading it back gives the resource's
  proto name, for every name that is not itself one of the published type names.
\<close>

lemma resource_type_round_trip:
  "SchemaResourceTypeToProto (ProtoResourceTypeToSchema name) = name \<longleftrightarrow> \<not> KnownResourceType name"
  by (simp add: SchemaResourceTypeToProto_def ProtoResourceTypeToSchema_def KnownResourceType_def resourceTypes_def)

section \<open>An event reads back as the usage it reports\<close>

abbreviation written_time :: "time \<Rightarrow> bool" where
  "written_time t \<equiv> 0 \<le> t \<and> t < 3652059 * day"

abbreviation nul_free :: "string \<Rightarrow> bool" where
  "nul_free s \<equiv> CHR 0x00 \<notin> set s"

lemma formatTime_ne: "formatTime t \<noteq> []"
  by (simp add: formatTime_def Let_def split: prod.splits)

lemma FormatMicro_ne: "FormatMicro q \<noteq> []"
  by (simp add: FormatMicro_def Let_def split: if_splits)

lemma parse_time_formatTime: "written_time t \<Longrightarrow> parse_time (formatTime t) = Inr (truncate_second t)"
  by (simp add: parse_time_def time_text_round_trip)


lemma join_nul_inj:
  "join_nul xs = join_nul ys \<Longrightarrow> length xs = length ys \<Longrightarrow> \<forall>x\<in>set xs. CHR 0x00 \<notin> set x \<Longrightarrow>
   \<forall>y\<in>set ys. CHR 0x00 \<notin> set y \<Longrightarrow> xs = ys"
proof (induction xs arbitrary: ys rule: join_nul.induct)
  case 1
  then show ?case by simp
next
  case (2 x)
  then show ?case by (cases ys) auto
next
  case (3 x y zs)
  from 3(3) obtain x' y' zs' where ys: "ys = x' # y' # zs'" by (metis length_Suc_conv)
  have eq: "x @ CHR 0x00 # join_nul (y # zs) = x' @ CHR 0x00 # join_nul (y' # zs')" using 3(2) ys by simp
  have "takeWhile (\<lambda>c. c \<noteq> CHR 0x00) (a @ CHR 0x00 # b) = a" if "CHR 0x00 \<notin> set a" for a b :: string
    using that by (induction a) auto
  with arg_cong [OF eq, of "takeWhile (\<lambda>c. c \<noteq> CHR 0x00)"] 3(4,5) ys have x: "x = x'" by auto
  with eq have "join_nul (y # zs) = join_nul (y' # zs')" by simp
  then have "y # zs = y' # zs'" by (rule 3(1)) (use 3 ys in auto)
  then show ?case using x ys by simp
qed

lemma pad_int_no_nul: "0 \<le> i \<Longrightarrow> CHR 0x00 \<notin> set (pad_int w i)"
proof -
  assume "0 \<le> i"
  have "\<not> is_digit (CHR 0x00)" by code_simp
  then have "CHR 0x00 \<notin> set (nat_text (nat i))" using nat_text_digits [of "nat i"] by (auto simp: list_all_iff)
  then show ?thesis using \<open>0 \<le> i\<close> by (simp add: pad_int_def zero_pad_def)
qed

lemma formatTime_no_nul:
  assumes "written_time t"
  shows "CHR 0x00 \<notin> set (formatTime t)"
proof -
  define secs where "secs = truncate_second t div second"
  obtain y m d where date: "date_of_days (secs div 86400) = (y, m, d)" by (metis prod_cases3)
  from assms have "0 \<le> t" "t < 3652059 * day" by simp_all
  note ws = whole_seconds [OF this, folded secs_def]
  have "0 \<le> y" "0 \<le> m" "0 \<le> d"
    using days_to_year_10000 [OF date ws(3,4)] date_round_trip(2,4) [OF date] by simp_all
  then have "nul_free (pad_int 4 y)" "nul_free (pad_int 2 m)" "nul_free (pad_int 2 d)" by (simp_all add: pad_int_no_nul)
  moreover have "nul_free (pad_int 2 (r div k mod 60))" "nul_free (pad_int 2 (r mod 60))" "nul_free (pad_int 2 (secs mod 86400 div 3600))"
    for r k by (simp_all add: pad_int_no_nul pos_imp_zdiv_nonneg_iff)
  ultimately show ?thesis
    unfolding formatTime_def Let_def secs_def [symmetric] date prod.case by simp
qed

lemma formatTime_inj: "written_time t \<Longrightarrow> written_time t' \<Longrightarrow> formatTime t = formatTime t' \<Longrightarrow> truncate_second t = truncate_second t'"
  using time_text_round_trip [of t] time_text_round_trip [of t'] by simp


definition key_nul_free :: "ledger_key \<Rightarrow> bool" where
  "key_nul_free key \<longleftrightarrow> nul_free (Key_ResourceType key) \<and> nul_free (Key_ResourceID key) \<and> nul_free (Key_Meter key) \<and>
     nul_free (Key_Component key) \<and> nul_free (Key_Dimensions key)"

text \<open>
  C30: a heartbeat's identifier names one piece of usage. While the digest does not collide on their
  texts, two heartbeats share their identifier only when tenant, ledger key, interval and round time agree, so a
  consumer that drops repeated identifiers drops copies only.
\<close>

theorem heartbeat_ID_identifies:
  assumes "inj_on sha256 {heartbeat_text tenant key from to rtime, heartbeat_text tenant' key' from' to' rtime'}"
    and "heartbeat_ID sha256 tenant key from to rtime = heartbeat_ID sha256 tenant' key' from' to' rtime'"
    and "nul_free tenant" "nul_free tenant'" "key_nul_free key" "key_nul_free key'"
    and "written_time from" "written_time to" "written_time rtime" "written_time from'" "written_time to'" "written_time rtime'"
  shows "tenant = tenant' \<and> key = key' \<and> truncate_second from = truncate_second from' \<and>
    truncate_second to = truncate_second to' \<and> truncate_second rtime = truncate_second rtime'"
proof -
  let ?parts = "\<lambda>tenant key from to rtime. [tenant, Key_ResourceType key, Key_ResourceID key, Key_Meter key,
      Key_Component key, Key_Dimensions key, formatTime from, formatTime to, formatTime rtime]"
  have joined: "join_nul (?parts tenant key from to rtime) = join_nul (?parts tenant' key' from' to' rtime')"
    using inj_onD [OF assms(1) assms(2) [unfolded heartbeat_ID_def]] by (simp only: heartbeat_text_def insert_iff simp_thms)
  have free: "\<forall>x\<in>set (?parts t k a b c). nul_free x"
    if "nul_free t" "key_nul_free k" "written_time a" "written_time b" "written_time c" for t k a b c
    using that formatTime_no_nul by (simp add: key_nul_free_def)
  have "?parts tenant key from to rtime = ?parts tenant' key' from' to' rtime'"
    using joined by (rule join_nul_inj) (use free assms(3-) in \<open>simp, blast, blast\<close>)
  then have eq: "tenant = tenant'" "key = key'" "formatTime from = formatTime from'" "formatTime to = formatTime to'"
    "formatTime rtime = formatTime rtime'" by (simp_all add: ledger_key.equality)
  show ?thesis
    using eq(1,2) formatTime_inj [OF assms(7) assms(10) eq(3)] formatTime_inj [OF assms(8) assms(11) eq(4)]
      formatTime_inj [OF assms(9) assms(12) eq(5)] by blast
qed


section \<open>A sample heartbeat\<close>

definition sample_key :: ledger_key where
  "sample_key = \<lparr>Key_ResourceType = ''Volume'', Key_ResourceID = ''v1'', Key_Meter = ''storage'', Key_Component = ''storage'',
     Key_Dimensions = json_Marshal [(''tenant'', ''acme'')]\<rparr>"

lemma sample_dimensions: "decodeDimensions (Key_Dimensions sample_key) = Inr [(''tenant'', ''acme'')]"
  by code_simp


theorem heartbeat_ID_identifies_witness:
  "heartbeat_ID (\<lambda>s. s) ''acme'' sample_key 0 second second = heartbeat_ID (\<lambda>s. s) ''acme'' sample_key 5 second second \<and>
   truncate_second 0 = truncate_second 5"
proof -
  have "formatTime 5 = formatTime 0" by code_simp
  then have same: "heartbeat_ID (\<lambda>s. s) ''acme'' sample_key 0 second second = heartbeat_ID (\<lambda>s. s) ''acme'' sample_key 5 second second"
    by (simp add: heartbeat_ID_def heartbeat_text_def)
  have "key_nul_free sample_key" by code_simp
  then show ?thesis using same heartbeat_ID_identifies [OF _ same] by simp
qed

end
