(* ===== verification/Metering_Rules.thy ===== *)
theory Metering_Rules
  imports Metering_Prelude "HOL-Library.AList" "HOL-Library.Sublist"
begin

text \<open>
  The rule revisions of \<^verbatim>\<open>osac-metering/metering-service/internal/rules\<close> and the tracked-field
  registry they refer to (\<^verbatim>\<open>proto/metering\<close>). A revision is a list of meters that takes
  effect at a time; \<open>validate\<close> refuses a revision whose meters the fold could not feed, and
  \<open>CheckStartup\<close> refuses a set of revisions that would change usage already billed. The
  registry itself is read from compiled protobuf descriptors and is a parameter; so are the
  enum values of a resource's state field.

  A Go map whose iteration order can only decide which of several errors is reported is an
  association list here.
\<close>

section \<open>The tracked-field registry\<close>

datatype kind = KindVaries | KindConstant | KindFixedOnceSet

record registry_field =
  Field_Path :: string
  Field_Kind :: kind
  Field_TransitionTime :: string
  Field_OwnerResource :: string

record registry_resource =
  Resource_Message :: string
  Resource_Fields :: "registry_field list"

record owner_spec =
  Owner_Field :: string
  Owner_Resource :: string

definition ShortName :: "string \<Rightarrow> string" where
  "ShortName full = rev (takeWhile (\<lambda>c. c \<noteq> CHR ''.'') (rev full))"

function shrink_prefix :: "string \<Rightarrow> string \<Rightarrow> string" where
  "shrink_prefix v p = (if prefix p v then p else shrink_prefix v (butlast p))"
  by pat_completeness auto
termination
proof (relation "measure (\<lambda>(v, p). length p)")
  show "wf (measure (\<lambda>(v, p). length p))" by simp
next
  fix v p :: string
  assume "\<not> prefix p v"
  then have "p \<noteq> []" by auto
  then show "((v, butlast p), v, p) \<in> measure (\<lambda>(v, p). length p)" by simp
qed

declare shrink_prefix.simps [simp del]

definition EnumValuePrefix :: "string list \<Rightarrow> string" where
  "EnumValuePrefix names =
     (let p = foldl (\<lambda>p v. shrink_prefix v p) (hd names) (tl names)
      in rev (dropWhile (\<lambda>c. c \<noteq> CHR ''_'') (rev p)))"

definition TrimPrefix :: "string \<Rightarrow> string \<Rightarrow> string" where
  "TrimPrefix s p = (if prefix p s then drop (length p) s else s)"

definition Owners :: "registry_resource list \<Rightarrow> (string \<times> owner_spec) list" where
  "Owners resources =
     foldl (\<lambda>owners resource.
        foldl (\<lambda>owners field.
            if Field_OwnerResource field = '''' then owners
            else AList.update (ShortName (Resource_Message resource))
                   \<lparr>Owner_Field = Field_Path field, Owner_Resource = Field_OwnerResource field\<rparr> owners)
          owners (Resource_Fields resource))
       [] resources"

section \<open>Meters and revisions\<close>

record billable_when =
  States :: "string list"
  TurnsBillableOnce :: "string list"
  TurnsBillableOnceFrom :: string
  Fields :: "(string \<times> string) list"

record meter =
  Meter_Resource :: string
  Meter_Meter :: string
  Meter_Component :: string
  Meter_Unit :: string
  Meter_Billable :: billable_when
  Meter_Multiplier :: string
  Meter_Dimensions :: "string list"

record revision =
  Revision_Name :: string
  Revision_Number :: string
  Revision_EffectiveAt :: time
  Revision_Meters :: "meter list"
  Revision_MetersYAML :: string

definition EffectiveComponent :: "meter \<Rightarrow> string" where
  "EffectiveComponent m = (if Meter_Component m \<noteq> '''' then Meter_Component m else Meter_Meter m)"

definition dimensionFields :: "(string \<times> (string \<times> string) list) list" where
  "dimensionFields =
    [(''ComputeInstance'',
       [(''instance_type'', ''status.instance_type''), (''image'', ''spec.disk_image''),
        (''boot_disk_size_gib'', ''spec.boot_disk.size_gib'')]),
     (''Cluster'', [(''template'', ''spec.template''), (''version'', ''spec.version'')]),
     (''BareMetalInstance'',
       [(''instance_type'', ''spec.instance_type''), (''cluster'', ''status.cluster''),
        (''node_set'', ''status.node_set'')]),
     (''Volume'',
       [(''storage_tier'', ''spec.storage_tier''), (''protocol'', ''status.protocol''),
        (''vendor_volume_id'', ''status.vendor_volume_id''),
        (''provisioned_size_gib'', ''status.provisioned_size_gib'')]),
     (''ExternalIP'',
       [(''pool'', ''spec.pool''), (''ip_family'', ''status.address''),
        (''attached'', ''status.attached'')]),
     (''NATGateway'',
       [(''virtual_network'', ''spec.virtual_network''), (''external_ip'', ''spec.external_ip'')])]"

definition computedDimensions :: "string list" where
  "computedDimensions = [''ip_family'']"

definition DimensionPath :: "string \<Rightarrow> string \<Rightarrow> string \<times> bool" where
  "DimensionPath resource name =
     (case map_of dimensionFields resource of
        None \<Rightarrow> ('''', False)
      | Some paths \<Rightarrow> (case map_of paths name of None \<Rightarrow> ('''', False) | Some path \<Rightarrow> (path, True)))"

text \<open>The identity dimensions, as pairs of name and tracked field; the description is prose.\<close>

definition IdentityDimensions :: "(string \<times> string) list" where
  "IdentityDimensions =
     [(''deployment'', ''''), (''tenant'', ''''), (''meter_type'', ''''),
      (''project'', ''metadata.project''), (''catalog'', ''spec.catalog_item''),
      (''template'', ''spec.template'')]"

section \<open>Validation of one revision\<close>

definition check :: "bool \<Rightarrow> metering_error \<Rightarrow> metering_error + unit" where
  "check ok e = (if ok then Inr () else Inl e)"

lemma check_Inr_iff [simp]: "check ok e = Inr u \<longleftrightarrow> ok"
  by (simp add: check_def)

definition stateNames ::
  "(registry_resource \<Rightarrow> metering_error + string list) \<Rightarrow> registry_resource
     \<Rightarrow> metering_error + string list" where
  "stateNames state_enum resource =
     ebind (state_enum resource)
       (\<lambda>names. Inr (map (\<lambda>n. TrimPrefix n (EnumValuePrefix names)) names))"

definition tracked_path :: "registry_resource \<Rightarrow> string \<Rightarrow> string \<Rightarrow> bool" where
  "tracked_path resource resource_name name =
     (let (path, known) = DimensionPath resource_name name
      in known \<and> path \<in> Field_Path ` set (Resource_Fields resource))"

definition meter_key :: "meter \<Rightarrow> string" where
  "meter_key m = Meter_Resource m @ ''/'' @ Meter_Meter m"

definition validate_meter ::
  "registry_resource list \<Rightarrow> (registry_resource \<Rightarrow> metering_error + string list)
     \<Rightarrow> string \<Rightarrow> string list \<Rightarrow> meter \<Rightarrow> metering_error + string list" where
  "validate_meter resources state_enum number seen m =
     (let by_name = map_of (rev (map (\<lambda>r. (ShortName (Resource_Message r), r)) resources));
          bill = Meter_Billable m; key = meter_key m;
          bad = (\<lambda>why. InvalidRevision number why)
      in case by_name (Meter_Resource m) of
           None \<Rightarrow> Inl (bad ''unknown resource'')
         | Some resource \<Rightarrow>
             ebind (check (Meter_Meter m \<noteq> '''') (bad ''no meter name'')) (\<lambda>_.
             ebind (check (Meter_Unit m \<noteq> '''') (bad ''no unit'')) (\<lambda>_.
             ebind (check (key \<notin> set seen) (bad ''repeats meter'')) (\<lambda>_.
             ebind (check (States bill \<noteq> []) (bad ''bills in no state'')) (\<lambda>_.
             ebind (stateNames state_enum resource) (\<lambda>known.
             ebind (check (set (States bill) \<union> set (TurnsBillableOnce bill) \<subseteq> set known)
                      (bad ''unknown state'')) (\<lambda>_.
             ebind (check (set (TurnsBillableOnce bill) \<subseteq> set (States bill))
                      (bad ''confirms a state it does not bill in'')) (\<lambda>_.
             ebind (check (TurnsBillableOnceFrom bill \<in> {'''', ''root'', ''self''})
                      (bad ''turns billable once from'')) (\<lambda>_.
             ebind (check (list_all (\<lambda>(c, _). c \<notin> set computedDimensions) (Fields bill)
                           \<and> list_all (\<lambda>(c, _). tracked_path resource (Meter_Resource m) c) (Fields bill))
                      (bad ''condition on an untracked field'')) (\<lambda>_.
             ebind (check (Meter_Multiplier m = '''' \<or>
                           tracked_path resource (Meter_Resource m) (Meter_Multiplier m))
                      (bad ''multiplies by an untracked field'')) (\<lambda>_.
             ebind (check (list_all (tracked_path resource (Meter_Resource m)) (Meter_Dimensions m))
                      (bad ''dimension on an untracked field'')) (\<lambda>_.
             Inr (seen @ [key])))))))))))))"

definition gate_unambiguous :: "meter list \<Rightarrow> string \<Rightarrow> bool" where
  "gate_unambiguous meters root_type =
     (case filter (\<lambda>m. Meter_Resource m = root_type) meters of
        [] \<Rightarrow> True
      | first # rest \<Rightarrow>
          list_all (\<lambda>m. TurnsBillableOnce (Meter_Billable first) = TurnsBillableOnce (Meter_Billable m)) rest)"

definition billsInherited :: "string \<Rightarrow> meter list \<Rightarrow> bool" where
  "billsInherited resource_type meters =
     list_ex (\<lambda>m. Meter_Resource m = resource_type \<and>
                  TurnsBillableOnceFrom (Meter_Billable m) \<noteq> ''self'') meters"

definition validate ::
  "registry_resource list \<Rightarrow> (registry_resource \<Rightarrow> metering_error + string list)
     \<Rightarrow> revision \<Rightarrow> metering_error + unit" where
  "validate resources state_enum r =
     (let meters = Revision_Meters r; owners = Owners resources; bad = InvalidRevision (Revision_Number r)
      in ebind (check (meters \<noteq> []) (bad ''defines no meters'')) (\<lambda>_.
         ebind (efold (validate_meter resources state_enum (Revision_Number r)) [] meters) (\<lambda>_.
         ebind (check (list_all (\<lambda>(_, spec). gate_unambiguous meters (Owner_Resource spec)) owners)
                  (bad ''ambiguous gate'')) (\<lambda>_.
         check (list_all (\<lambda>(resource_type, spec). billsInherited resource_type meters \<longrightarrow>
                   list_ex (\<lambda>m. Meter_Resource m = Owner_Resource spec) meters) owners)
           (bad ''no meters provide the inherited gate'')))))"

section \<open>Checking the revisions at startup\<close>

record rule_revision_row =
  Row_Revision :: string
  Row_EffectiveAt :: time
  Row_MetersYAML :: string

definition meter_shape :: "meter \<Rightarrow> (string \<times> string) \<times> (string \<times> string)" where
  "meter_shape m = ((Meter_Resource m, Meter_Meter m), (Meter_Unit m, EffectiveComponent m))"

fun check_shapes ::
  "((string \<times> string) \<times> (string \<times> string)) list \<Rightarrow> (string \<times> meter) list \<Rightarrow> metering_error + unit" where
  "check_shapes shapes [] = Inr ()"
| "check_shapes shapes ((number, m) # rest) =
     (let (identity, shape) = meter_shape m
      in case map_of shapes identity of
           Some previous \<Rightarrow>
             if previous \<noteq> shape then Inl (MeterShapeChanged number (Meter_Meter m) (Meter_Resource m))
             else check_shapes shapes rest
         | None \<Rightarrow> check_shapes ((identity, shape) # shapes) rest)"

fun check_repeats :: "string list \<Rightarrow> revision list \<Rightarrow> metering_error + unit" where
  "check_repeats seen [] = Inr ()"
| "check_repeats seen (r # rs) =
     (if Revision_Number r \<in> set seen then Inl (RevisionRepeated (Revision_Number r))
      else check_repeats (Revision_Number r # seen) rs)"

definition check_order :: "revision list \<Rightarrow> metering_error + unit list" where
  "check_order present =
     traverse (\<lambda>(p, r). check (Revision_EffectiveAt r > Revision_EffectiveAt p)
                 (RevisionNotAfterPrevious (Revision_Number r) (Revision_Number p))) (adj_pairs present)"

definition check_used ::
  "(string \<times> rule_revision_row) list \<Rightarrow> revision list \<Rightarrow> metering_error + unit list" where
  "check_used used_set present =
     traverse (\<lambda>(number, row).
        case map_of (map (\<lambda>r. (Revision_Number r, r)) present) number of
          None \<Rightarrow> Inl (UsedRevisionMissing number)
        | Some r \<Rightarrow>
            check (Revision_EffectiveAt r = Row_EffectiveAt row \<and> Revision_MetersYAML r = Row_MetersYAML row)
              (UsedRevisionChanged number)) used_set"

definition check_unused ::
  "(string \<times> rule_revision_row) list \<Rightarrow> time \<Rightarrow> revision list \<Rightarrow> metering_error + unit list" where
  "check_unused used_set lastRound present =
     traverse (\<lambda>r.
        if map_of used_set (Revision_Number r) \<noteq> None then Inr ()
        else check (Revision_EffectiveAt r > lastRound) (RevisionBehindLastRound (Revision_Number r))) present"

definition CheckStartup ::
  "rule_revision_row list \<Rightarrow> revision list \<Rightarrow> time \<Rightarrow> metering_error + revision list" where
  "CheckStartup used present lastRound =
     ebind (check (present \<noteq> []) NoRevisionsFound) (\<lambda>_.
     ebind (check_repeats [] present) (\<lambda>_.
     ebind (check_order present) (\<lambda>_.
     let used_set = foldl (\<lambda>s row. AList.update (Row_Revision row) row s) [] used in
     ebind (check_used used_set present) (\<lambda>_.
     ebind (check_unused used_set lastRound present) (\<lambda>_.
     ebind (check_shapes [] (concat (map (\<lambda>r. map (Pair (Revision_Number r)) (Revision_Meters r)) present)))
       (\<lambda>_. Inr present))))))"

section \<open>What validation and the startup check establish\<close>

lemma shrink_prefix_prefix: "prefix (shrink_prefix v p) v \<and> prefix (shrink_prefix v p) p"
proof (induction v p rule: shrink_prefix.induct)
  case (1 v p)
  then show ?case
    by (subst (1 2) shrink_prefix.simps) (auto intro: prefix_order.trans [OF _ prefixeq_butlast])
qed

lemma shrink_prefix_longest:
  "prefix q v \<Longrightarrow> prefix q p \<Longrightarrow> prefix q (shrink_prefix v p)"
proof (induction v p rule: shrink_prefix.induct)
  case (1 v p)
  show ?case
  proof (cases "prefix p v")
    case True
    then show ?thesis using "1.prems" by (simp add: shrink_prefix.simps)
  next
    case False
    then have "q \<noteq> p" using "1.prems" by auto
    then have "prefix q (butlast p)"
      using "1.prems"(2) by (metis append_butlast_last_id prefix_Nil prefix_snoc)
    then have "prefix q (shrink_prefix v (butlast p))" using "1.IH" False "1.prems" by blast
    then show ?thesis using False by (simp add: shrink_prefix.simps [of v p])
  qed
qed

lemma foldl_shrink_prefix:
  "prefix (foldl (\<lambda>p v. shrink_prefix v p) p vs) p \<and>
   (\<forall>v\<in>set vs. prefix (foldl (\<lambda>p v. shrink_prefix v p) p vs) v)"
proof (induction vs arbitrary: p)
  case Nil
  then show ?case by simp
next
  case (Cons v vs)
  show ?case
    using Cons.IH [of "shrink_prefix v p"] shrink_prefix_prefix [of v p]
    by (auto intro: prefix_order.trans)
qed

lemma foldl_shrink_prefix_longest:
  "prefix q p \<Longrightarrow> (\<And>v. v \<in> set vs \<Longrightarrow> prefix q v) \<Longrightarrow>
   prefix q (foldl (\<lambda>p v. shrink_prefix v p) p vs)"
  by (induction vs arbitrary: p) (auto intro: shrink_prefix_longest)

text \<open>Cutting a text after its last underscore.\<close>

lemma cut_prefix: "prefix (rev (dropWhile P (rev p))) p"
  by (metis rev_append rev_rev_ident takeWhile_dropWhile_id prefixI)

lemma cut_longest:
  assumes "prefix q p" "q \<noteq> []" "last q = CHR ''_''"
  shows "prefix q (rev (dropWhile (\<lambda>c. c \<noteq> CHR ''_'') (rev p)))"
proof -
  obtain r where p: "p = q @ r" using assms(1) by (auto simp: prefix_def)
  have "rev q \<noteq> []" "hd (rev q) = CHR ''_''" using assms by (simp_all add: hd_rev)
  then obtain q' where q': "rev q = CHR ''_'' # q'" by (cases "rev q") auto
  have "\<exists>xs. dropWhile (\<lambda>c. c \<noteq> CHR ''_'') (rev r @ CHR ''_'' # q') = xs @ CHR ''_'' # q'"
    by (induction "rev r" arbitrary: r) (auto simp: dropWhile_append)
  then obtain xs where "dropWhile (\<lambda>c. c \<noteq> CHR ''_'') (rev p) = xs @ rev q"
    using p q' by auto
  then show ?thesis by (simp add: prefix_def)
qed

text \<open>
  Rules and history name states without the prefix their enum values share. The prefix
  \<open>EnumValuePrefix\<close> computes starts every value, ends in an underscore when it is not empty, and is
  the longest text with both properties.
\<close>

lemma EnumValuePrefix_longest:
  assumes "names \<noteq> []"
  shows "(\<forall>n\<in>set names. prefix (EnumValuePrefix names) n) \<and>
         (EnumValuePrefix names = [] \<or> last (EnumValuePrefix names) = CHR ''_'') \<and>
         (\<forall>q. q \<noteq> [] \<and> last q = CHR ''_'' \<and> (\<forall>n\<in>set names. prefix q n)
              \<longrightarrow> prefix q (EnumValuePrefix names))"
proof -
  define p where "p = foldl (\<lambda>p v. shrink_prefix v p) (hd names) (tl names)"
  have E: "EnumValuePrefix names = rev (dropWhile (\<lambda>c. c \<noteq> CHR ''_'') (rev p))"
    by (simp add: EnumValuePrefix_def p_def Let_def)
  have names: "set names = insert (hd names) (set (tl names))"
    using assms by (cases names) auto
  have p_all: "prefix p n" if "n \<in> set names" for n
    using foldl_shrink_prefix [of "hd names" "tl names"] that names by (auto simp: p_def)
  have 1: "prefix (EnumValuePrefix names) n" if "n \<in> set names" for n
    unfolding E using cut_prefix p_all [OF that] by (rule prefix_order.trans)
  have 2: "EnumValuePrefix names = [] \<or> last (EnumValuePrefix names) = CHR ''_''"
    unfolding E using hd_dropWhile [of "\<lambda>c. c \<noteq> CHR ''_''" "rev p"]
    by (cases "dropWhile (\<lambda>c. c \<noteq> CHR ''_'') (rev p) = []") (simp_all add: last_rev)
  have 3: "prefix q (EnumValuePrefix names)"
    if "q \<noteq> []" "last q = CHR ''_''" "\<forall>n\<in>set names. prefix q n" for q
    unfolding E
  proof (rule cut_longest)
    show "prefix q p"
      using foldl_shrink_prefix_longest [of q "hd names" "tl names"] that names by (auto simp: p_def)
  qed (use that in auto)
  show ?thesis using 1 2 3 by blast
qed

definition meter_ok :: "registry_resource list \<Rightarrow> meter \<Rightarrow> bool" where
  "meter_ok resources m \<longleftrightarrow>
     Meter_Meter m \<noteq> '''' \<and> Meter_Unit m \<noteq> '''' \<and> States (Meter_Billable m) \<noteq> [] \<and>
     set (TurnsBillableOnce (Meter_Billable m)) \<subseteq> set (States (Meter_Billable m)) \<and>
     (\<exists>resource\<in>set resources. ShortName (Resource_Message resource) = Meter_Resource m \<and>
        (Meter_Multiplier m = '''' \<or> tracked_path resource (Meter_Resource m) (Meter_Multiplier m)) \<and>
        (\<forall>d\<in>set (Meter_Dimensions m). tracked_path resource (Meter_Resource m) d) \<and>
        (\<forall>(c, _)\<in>set (Fields (Meter_Billable m)).
            tracked_path resource (Meter_Resource m) c \<and> c \<notin> set computedDimensions))"

lemma validate_meter_Inr:
  assumes "validate_meter resources state_enum number seen m = Inr out"
  shows "meter_ok resources m \<and> out = seen @ [meter_key m] \<and>
         meter_key m \<notin> set seen"
proof -
  from assms obtain resource where
    "map_of (rev (map (\<lambda>r. (ShortName (Resource_Message r), r)) resources)) (Meter_Resource m) = Some resource"
    by (auto simp: validate_meter_def Let_def split: option.splits)
  moreover from map_of_SomeD [OF this]
  have "resource \<in> set resources" "ShortName (Resource_Message resource) = Meter_Resource m" by auto
  ultimately show ?thesis
    using assms by (auto simp: validate_meter_def Let_def ebind_Inr_iff meter_ok_def list_all_iff)
qed

lemma efold_validate_meter:
  assumes "efold (validate_meter resources state_enum number) seen ms = Inr out" "distinct seen"
  shows "(\<forall>m\<in>set ms. meter_ok resources m) \<and> distinct out \<and>
         out = seen @ map meter_key ms"
  using assms
proof (induction ms arbitrary: seen)
  case Nil
  then show ?case by simp
next
  case (Cons m ms)
  from Cons.prems(1) obtain seen' where
    step: "validate_meter resources state_enum number seen m = Inr seen'"
    and rest: "efold (validate_meter resources state_enum number) seen' ms = Inr out"
    by (auto simp: ebind_Inr_iff)
  from validate_meter_Inr [OF step] Cons.prems(2) have "distinct seen'" by auto
  note IH = Cons.IH [OF rest this] and here = validate_meter_Inr [OF step]
  from IH have "distinct out" by blast
  moreover from IH here have "out = seen @ map meter_key (m # ms)" by simp
  moreover from IH here have "\<forall>m'\<in>set (m # ms). meter_ok resources m'" by simp
  ultimately show ?case by blast
qed

lemma gate_unambiguous_iff:
  "gate_unambiguous meters t \<longleftrightarrow>
   (\<forall>m\<in>set meters. \<forall>m'\<in>set meters. Meter_Resource m = t \<and> Meter_Resource m' = t \<longrightarrow>
      TurnsBillableOnce (Meter_Billable m) = TurnsBillableOnce (Meter_Billable m'))"
proof -
  have mem: "m \<in> set meters \<and> Meter_Resource m = t \<longleftrightarrow>
             m \<in> set (filter (\<lambda>m. Meter_Resource m = t) meters)" for m by auto
  show ?thesis
  proof (cases "filter (\<lambda>m. Meter_Resource m = t) meters")
    case Nil
    then show ?thesis using mem by (auto simp: gate_unambiguous_def)
  next
    case (Cons a as)
    then have "m \<in> set meters \<and> Meter_Resource m = t \<longleftrightarrow> m = a \<or> m \<in> set as" for m
      using mem [of m] by simp
    then show ?thesis using Cons by (auto simp: gate_unambiguous_def list_all_iff) metis+
  qed
qed

text \<open>
  C28: a revision that validation accepts has meters, names each meter of a resource once, gives
  every meter a name, a unit and a billable state, uses only tracked fields, confirms only on
  states it bills in, and gives every ownership root one gate: all meters of the root confirm on the
  same states, and an owned resource that inherits the gate finds a meter of its root.
\<close>

theorem validate_sound:
  assumes "validate resources state_enum r = Inr u"
  shows "Revision_Meters r \<noteq> [] \<and>
         distinct (map (\<lambda>m. (Meter_Resource m, Meter_Meter m)) (Revision_Meters r)) \<and>
         (\<forall>m\<in>set (Revision_Meters r). meter_ok resources m) \<and>
         (\<forall>(owned, spec)\<in>set (Owners resources).
            (\<forall>m\<in>set (Revision_Meters r). \<forall>m'\<in>set (Revision_Meters r).
               Meter_Resource m = Owner_Resource spec \<and> Meter_Resource m' = Owner_Resource spec \<longrightarrow>
               TurnsBillableOnce (Meter_Billable m) = TurnsBillableOnce (Meter_Billable m')) \<and>
            (billsInherited owned (Revision_Meters r) \<longrightarrow>
               (\<exists>m\<in>set (Revision_Meters r). Meter_Resource m = Owner_Resource spec)))"
proof -
  let ?ms = "Revision_Meters r"
  from assms obtain out where
    fold: "efold (validate_meter resources state_enum (Revision_Number r)) [] ?ms = Inr out"
    and ne: "?ms \<noteq> []"
    and gates: "\<forall>(t, spec)\<in>set (Owners resources). gate_unambiguous ?ms (Owner_Resource spec)"
    and inh: "\<forall>(t, spec)\<in>set (Owners resources). billsInherited t ?ms \<longrightarrow>
                (\<exists>m\<in>set ?ms. Meter_Resource m = Owner_Resource spec)"
    by (auto simp: validate_def Let_def ebind_Inr_iff list_all_iff list_ex_iff)
  from efold_validate_meter [OF fold]
  have ok: "\<forall>m\<in>set ?ms. meter_ok resources m"
    and "distinct (map (\<lambda>(a, b). a @ ''/'' @ b) (map (\<lambda>m. (Meter_Resource m, Meter_Meter m)) ?ms))"
    by (auto simp: comp_def meter_key_def [abs_def])
  then have "distinct (map (\<lambda>m. (Meter_Resource m, Meter_Meter m)) ?ms)"
    by (simp only: distinct_map)
  then show ?thesis using ne ok gates inh unfolding gate_unambiguous_iff by blast
qed

lemma check_repeats_Inr:
  "check_repeats seen rs = Inr u \<longleftrightarrow>
   distinct (map Revision_Number rs) \<and> set (map Revision_Number rs) \<inter> set seen = {}"
  by (induction rs arbitrary: seen) auto

lemma traverse_unit_Inr:
  fixes f :: "'a \<Rightarrow> metering_error + unit"
  shows "(\<exists>us. traverse f xs = Inr us) \<longleftrightarrow> (\<forall>x\<in>set xs. f x = Inr ())"
  by (induction xs) (auto simp: ebind_Inr_iff)

lemma check_order_Inr:
  "(\<exists>us. check_order present = Inr us) \<longleftrightarrow>
   sorted_wrt (\<lambda>p r. Revision_EffectiveAt p < Revision_EffectiveAt r) present"
proof -
  have "(\<forall>x\<in>set (adj_pairs xs). case x of (p, r) \<Rightarrow> Revision_EffectiveAt p < Revision_EffectiveAt r) \<longleftrightarrow>
        sorted_wrt (\<lambda>p r. Revision_EffectiveAt p < Revision_EffectiveAt r) xs" for xs :: "revision list"
    by (induction xs rule: induct_list012) (auto intro: less_trans)
  moreover have "(\<exists>us. check_order present = Inr us) \<longleftrightarrow>
        (\<forall>x\<in>set (adj_pairs present). case x of (p, r) \<Rightarrow> Revision_EffectiveAt p < Revision_EffectiveAt r)"
    unfolding check_order_def traverse_unit_Inr by (auto split: prod.splits)
  ultimately show ?thesis by simp
qed

lemma used_set_distinct:
  assumes "distinct (map fst acc @ map Row_Revision used)"
  shows "foldl (\<lambda>s row. AList.update (Row_Revision row) row s) acc used =
         acc @ map (\<lambda>row. (Row_Revision row, row)) used"
proof -
  have upd: "k \<notin> fst ` set al \<Longrightarrow> AList.update k v al = al @ [(k, v)]" for k v and al :: "(string \<times> 'b) list"
    by (induction al) auto
  show ?thesis using assms by (induction used arbitrary: acc) (auto simp: upd)
qed

lemma check_used_Inr:
  assumes "distinct (map Revision_Number present)"
  shows "(\<exists>us. check_used (map (\<lambda>row. (Row_Revision row, row)) used) present = Inr us) \<longleftrightarrow>
    (\<forall>row\<in>set used. \<exists>r\<in>set present. Revision_Number r = Row_Revision row \<and>
       Revision_EffectiveAt r = Row_EffectiveAt row \<and> Revision_MetersYAML r = Row_MetersYAML row)"
proof -
  let ?by = "map_of (map (\<lambda>r. (Revision_Number r, r)) present)"
  have "distinct (map fst (map (\<lambda>r. (Revision_Number r, r)) present))" using assms by (simp add: comp_def)
  note some = map_of_eq_Some_iff [OF this]
  have row: "(case ?by (Row_Revision row) of None \<Rightarrow> Inl (UsedRevisionMissing (Row_Revision row))
       | Some r \<Rightarrow> check (Revision_EffectiveAt r = Row_EffectiveAt row \<and> Revision_MetersYAML r = Row_MetersYAML row)
              (UsedRevisionChanged (Row_Revision row))) = Inr () \<longleftrightarrow>
      (\<exists>r\<in>set present. Revision_Number r = Row_Revision row \<and>
       Revision_EffectiveAt r = Row_EffectiveAt row \<and> Revision_MetersYAML r = Row_MetersYAML row)" for row
  proof (cases "?by (Row_Revision row)")
    case None
    then have "Row_Revision row \<notin> Revision_Number ` set present"
      by (simp add: map_of_eq_None_iff image_image)
    then show ?thesis using None by simp (metis imageI)
  next
    case (Some r)
    then have r: "r \<in> set present" "Revision_Number r = Row_Revision row" using some by auto
    have "r' = r" if "r' \<in> set present" "Revision_Number r' = Row_Revision row" for r'
      using assms r that by (auto simp: distinct_map inj_on_def)
    then have "(\<exists>r'\<in>set present. Revision_Number r' = Row_Revision row \<and>
          Revision_EffectiveAt r' = Row_EffectiveAt row \<and> Revision_MetersYAML r' = Row_MetersYAML row) \<longleftrightarrow>
        Revision_EffectiveAt r = Row_EffectiveAt row \<and> Revision_MetersYAML r = Row_MetersYAML row"
      using r by blast
    then show ?thesis using Some by simp
  qed
  show ?thesis unfolding check_used_def traverse_unit_Inr by (simp add: row)
qed

lemma check_unused_Inr:
  "(\<exists>us. check_unused (map (\<lambda>row. (Row_Revision row, row)) used) lastRound present = Inr us) \<longleftrightarrow>
   (\<forall>r\<in>set present. Revision_Number r \<notin> Row_Revision ` set used \<longrightarrow> lastRound < Revision_EffectiveAt r)"
proof -
  have "map_of (map (\<lambda>row. (Row_Revision row, row)) used) n = None \<longleftrightarrow> n \<notin> Row_Revision ` set used" for n
    by (force simp: map_of_eq_None_iff)
  then show ?thesis unfolding check_unused_def traverse_unit_Inr by simp
qed

definition consistent_shapes :: "((string \<times> string) \<times> (string \<times> string)) set \<Rightarrow> bool" where
  "consistent_shapes S \<longleftrightarrow> (\<forall>a\<in>S. \<forall>b\<in>S. fst a = fst b \<longrightarrow> snd a = snd b)"

lemma check_shapes_Inr:
  assumes "consistent_shapes (set shapes)"
  shows "check_shapes shapes ms = Inr u \<longleftrightarrow>
         consistent_shapes (set shapes \<union> (\<lambda>(n, m). meter_shape m) ` set ms)"
  using assms
proof (induction ms arbitrary: shapes)
  case Nil
  then show ?case by simp
next
  case (Cons nm rest)
  obtain n m where nm: "nm = (n, m)" by (cases nm)
  obtain i sh where ms: "meter_shape m = (i, sh)" by (cases "meter_shape m")
  let ?M = "(\<lambda>(n, m). meter_shape m) ` set rest"
  have all: "(\<lambda>(n, m). meter_shape m) ` set (nm # rest) = insert (i, sh) ?M" using nm ms by simp
  show ?case
  proof (cases "map_of shapes i")
    case None
    then have "i \<notin> fst ` set shapes" by (simp add: map_of_eq_None_iff)
    then have "fst b \<noteq> i" if "b \<in> set shapes" for b using that by blast
    with Cons.prems have "consistent_shapes (set ((i, sh) # shapes))"
      unfolding consistent_shapes_def by (metis fst_conv set_ConsD)
    from Cons.IH [OF this] None nm ms all show ?thesis by simp
  next
    case (Some s)
    then have mem: "(i, s) \<in> set shapes" by (rule map_of_SomeD)
    show ?thesis
    proof (cases "s = sh")
      case True
      then have "set shapes \<union> insert (i, sh) ?M = set shapes \<union> ?M" using mem by auto
      then show ?thesis using Some True nm ms Cons.IH [OF Cons.prems] all by simp
    next
      case False
      then have "\<not> consistent_shapes (set shapes \<union> insert (i, sh) ?M)"
        unfolding consistent_shapes_def using mem by (metis UnI1 UnI2 fst_conv insertI1 snd_conv)
      then show ?thesis using Some False nm ms all by simp
    qed
  qed
qed

lemma CheckStartup_Inr_iff:
  assumes "distinct (map Row_Revision used)"
  shows "CheckStartup used present lastRound = Inr out \<longleftrightarrow>
    out = present \<and> present \<noteq> [] \<and> distinct (map Revision_Number present) \<and>
    sorted_wrt (\<lambda>p r. Revision_EffectiveAt p < Revision_EffectiveAt r) present \<and>
    (\<forall>row\<in>set used. \<exists>r\<in>set present. Revision_Number r = Row_Revision row \<and>
       Revision_EffectiveAt r = Row_EffectiveAt row \<and> Revision_MetersYAML r = Row_MetersYAML row) \<and>
    (\<forall>r\<in>set present. Revision_Number r \<notin> Row_Revision ` set used \<longrightarrow> lastRound < Revision_EffectiveAt r) \<and>
    (\<forall>r\<in>set present. \<forall>r'\<in>set present. \<forall>m\<in>set (Revision_Meters r). \<forall>m'\<in>set (Revision_Meters r').
       Meter_Resource m = Meter_Resource m' \<and> Meter_Meter m = Meter_Meter m' \<longrightarrow>
       Meter_Unit m = Meter_Unit m' \<and> EffectiveComponent m = EffectiveComponent m')"
proof -
  let ?meters = "concat (map (\<lambda>r. map (Pair (Revision_Number r)) (Revision_Meters r)) present)"
  have used: "foldl (\<lambda>s row. AList.update (Row_Revision row) row s) [] used =
              map (\<lambda>row. (Row_Revision row, row)) used"
    using used_set_distinct [of "[]" used] assms by simp
  have "consistent_shapes {}" by (simp add: consistent_shapes_def)
  then have shapes: "check_shapes [] ?meters = Inr () \<longleftrightarrow>
      consistent_shapes (\<Union>r\<in>set present. meter_shape ` set (Revision_Meters r))"
    using check_shapes_Inr [of "[]" ?meters "()"] by (simp add: image_UN image_image)
  have "CheckStartup used present lastRound = Inr out \<longleftrightarrow>
    out = present \<and> present \<noteq> [] \<and> distinct (map Revision_Number present) \<and>
    (\<exists>us. check_order present = Inr us) \<and>
    (\<exists>us. check_used (map (\<lambda>row. (Row_Revision row, row)) used) present = Inr us) \<and>
    (\<exists>us. check_unused (map (\<lambda>row. (Row_Revision row, row)) used) lastRound present = Inr us) \<and>
    consistent_shapes (\<Union>r\<in>set present. meter_shape ` set (Revision_Meters r))"
    unfolding CheckStartup_def used Let_def using shapes by (auto simp: ebind_Inr_iff check_repeats_Inr)
  also have "consistent_shapes (\<Union>r\<in>set present. meter_shape ` set (Revision_Meters r)) \<longleftrightarrow>
    (\<forall>r\<in>set present. \<forall>r'\<in>set present. \<forall>m\<in>set (Revision_Meters r). \<forall>m'\<in>set (Revision_Meters r').
       Meter_Resource m = Meter_Resource m' \<and> Meter_Meter m = Meter_Meter m' \<longrightarrow>
       Meter_Unit m = Meter_Unit m' \<and> EffectiveComponent m = EffectiveComponent m')"
    by (simp add: consistent_shapes_def meter_shape_def) blast
  finally show ?thesis using check_used_Inr [of present used] by (auto simp: check_order_Inr check_unused_Inr)
qed


section \<open>A sample revision: volumes billed by their size\<close>

definition volume_resource :: registry_resource where
  "volume_resource = \<lparr>Resource_Message = ''osac.public.v1.Volume'', Resource_Fields =
     [\<lparr>Field_Path = ''status.state'', Field_Kind = KindVaries, Field_TransitionTime = '''', Field_OwnerResource = ''''\<rparr>,
      \<lparr>Field_Path = ''status.provisioned_size_gib'', Field_Kind = KindVaries, Field_TransitionTime = '''', Field_OwnerResource = ''''\<rparr>]\<rparr>"

definition volume_meter :: meter where
  "volume_meter = \<lparr>Meter_Resource = ''Volume'', Meter_Meter = ''storage'', Meter_Component = '''', Meter_Unit = ''gib_seconds'',
     Meter_Billable = \<lparr>States = [''READY''], TurnsBillableOnce = [''READY''], TurnsBillableOnceFrom = '''', Fields = []\<rparr>,
     Meter_Multiplier = ''provisioned_size_gib'', Meter_Dimensions = []\<rparr>"

definition volume_revision :: revision where
  "volume_revision = \<lparr>Revision_Name = ''0001-meters'', Revision_Number = ''0001'', Revision_EffectiveAt = 86400000000000,
     Revision_Meters = [volume_meter], Revision_MetersYAML = ''meters''\<rparr>"

definition volume_states :: "registry_resource \<Rightarrow> metering_error + string list" where
  "volume_states r = Inr [''VOLUME_STATE_UNSPECIFIED'', ''VOLUME_STATE_READY'']"

theorem validate_sound_witness:
  "validate [volume_resource] volume_states volume_revision = Inr () \<and>
   distinct (map (\<lambda>m. (Meter_Resource m, Meter_Meter m)) (Revision_Meters volume_revision)) \<and>
   meter_ok [volume_resource] volume_meter"
proof -
  have ok: "validate [volume_resource] volume_states volume_revision = Inr ()" by code_simp
  moreover have "volume_meter \<in> set (Revision_Meters volume_revision)" by (simp add: volume_revision_def)
  ultimately show ?thesis using validate_sound [OF ok] by blast
qed


end
