(* ===== verification/Metering_Store.thy ===== *)
theory Metering_Store
  imports Heartbeat Metering_Rules
begin

text \<open>
  The metering database of \<^verbatim>\<open>internal/database/store.go\<close>. The tables of
  \<^verbatim>\<open>schema.go\<close> are lists of rows with a primary key; each store operation is a function on the
  record of the tables, with the effect of its SQL. A statement that fails rolls its transaction back, so
  a failed operation leaves the tables as they were; connection errors are not modelled. \<^verbatim>\<open>SELECT\<close>
  without \<^verbatim>\<open>ORDER BY\<close> returns rows in table order here.
\<close>

section \<open>Tables\<close>

record history_row =
  History_Tenant :: string
  History_Fact :: fact
  History_EventOffset :: int

record ledger_row =
  Ledger_Tenant :: string
  Ledger_Piece :: ledger_piece

record outbox_row =
  Outbox_Seq :: int
  Outbox_Tenant :: string
  Outbox_ID :: string
  Outbox_Payload :: heartbeat_event
  Outbox_RoundTime :: time

record progress =
  EventOffset :: int
  HeartbeatOffset :: int
  LastRoundTime :: "time option"
  LastRoundEventOffset :: int

record store =
  history :: "history_row list"
  ledger :: "ledger_row list"
  outbox :: "outbox_row list"
  outbox_seq :: int
  progress_rows :: "(string \<times> progress) list"
  rule_revisions :: "rule_revision_row list"
  replayed_heartbeats :: "(string \<times> string) list"

type_synonym resource_ref = "string \<times> string"

fun upsert :: "('r \<Rightarrow> 'k) \<Rightarrow> 'r \<Rightarrow> 'r list \<Rightarrow> 'r list" where
  "upsert key r [] = [r]"
| "upsert key r (x # xs) = (if key x = key r then r # xs else x # upsert key r xs)"

definition history_key :: "history_row \<Rightarrow> string \<times> string \<times> string \<times> string \<times> time" where
  "history_key h = (History_Tenant h, Fact_ResourceType (History_Fact h), Fact_ResourceID (History_Fact h),
                    Fact_Field (History_Fact h), Fact_Since (History_Fact h))"

definition ledger_row_key :: "ledger_row \<Rightarrow> string \<times> ledger_key \<times> time" where
  "ledger_row_key l = (Ledger_Tenant l, Row_Key (Ledger_Piece l), Row_StartTime (Ledger_Piece l))"

section \<open>Progress\<close>

definition new_progress :: progress where
  "new_progress = \<lparr>EventOffset = 0, HeartbeatOffset = 0, LastRoundTime = None, LastRoundEventOffset = 0\<rparr>"

definition EnsureProgress :: "string \<Rightarrow> store \<Rightarrow> store" where
  "EnsureProgress tenant s =
     (if map_of (progress_rows s) tenant = None
      then s\<lparr>progress_rows := progress_rows s @ [(tenant, new_progress)]\<rparr> else s)"

definition GetProgress :: "store \<Rightarrow> string \<Rightarrow> progress option" where
  "GetProgress s tenant = map_of (progress_rows s) tenant"

definition update_progress :: "string \<Rightarrow> (progress \<Rightarrow> progress) \<Rightarrow> store \<Rightarrow> store" where
  "update_progress tenant f s =
     s\<lparr>progress_rows := map (\<lambda>(t, p). if t = tenant then (t, f p) else (t, p)) (progress_rows s)\<rparr>"

definition AdvanceEventOffset :: "string \<Rightarrow> int \<Rightarrow> store \<Rightarrow> store" where
  "AdvanceEventOffset tenant offset =
     update_progress tenant (\<lambda>p. p\<lparr>EventOffset := max (EventOffset p) offset\<rparr>)"

definition AdvanceHeartbeatOffset :: "string \<Rightarrow> int \<Rightarrow> store \<Rightarrow> store" where
  "AdvanceHeartbeatOffset tenant offset =
     update_progress tenant (\<lambda>p. p\<lparr>HeartbeatOffset := max (HeartbeatOffset p) offset\<rparr>)"

definition SetLastRound :: "string \<Rightarrow> time \<Rightarrow> int \<Rightarrow> store \<Rightarrow> store" where
  "SetLastRound tenant roundTime eventOffset =
     update_progress tenant (\<lambda>p. p\<lparr>LastRoundTime := Some roundTime,
       LastRoundEventOffset := max (LastRoundEventOffset p) eventOffset\<rparr>)"

definition LastRoundTime_max :: "store \<Rightarrow> time" where
  "LastRoundTime_max s =
     (case concat (map (\<lambda>(_, p). case LastRoundTime p of None \<Rightarrow> [] | Some t \<Rightarrow> [t]) (progress_rows s)) of
        [] \<Rightarrow> zero_time | t # ts \<Rightarrow> foldl max t ts)"

section \<open>History\<close>

definition put_history :: "history_row \<Rightarrow> history_row list \<Rightarrow> history_row list" where
  "put_history = upsert history_key"

definition InsertFacts :: "string \<Rightarrow> fact list \<Rightarrow> int \<Rightarrow> store \<Rightarrow> store" where
  "InsertFacts tenant facts nextOffset s =
     AdvanceEventOffset tenant nextOffset
       (s\<lparr>history := fold put_history
           (map (\<lambda>f. \<lparr>History_Tenant = tenant, History_Fact = f, History_EventOffset = nextOffset\<rparr>) facts)
           (history s)\<rparr>)"

definition about :: "string \<Rightarrow> string \<Rightarrow> string \<Rightarrow> history_row \<Rightarrow> bool" where
  "about tenant resourceType resourceID h \<longleftrightarrow>
     History_Tenant h = tenant \<and> Fact_ResourceType (History_Fact h) = resourceType \<and>
     Fact_ResourceID (History_Fact h) = resourceID"

text \<open>The row that sorts first by event offset, then time, both descending.\<close>

definition later_row :: "history_row \<Rightarrow> history_row \<Rightarrow> history_row" where
  "later_row h h' =
     (if History_EventOffset h < History_EventOffset h' \<or>
         (History_EventOffset h = History_EventOffset h' \<and> Fact_Since (History_Fact h) < Fact_Since (History_Fact h'))
      then h' else h)"

definition LatestFactValue :: "store \<Rightarrow> string \<Rightarrow> string \<Rightarrow> string \<Rightarrow> string \<Rightarrow> string option" where
  "LatestFactValue s tenant resourceType resourceID field =
     (case filter (\<lambda>h. about tenant resourceType resourceID h \<and> Fact_Field (History_Fact h) = field) (history s) of
        [] \<Rightarrow> None
      | h # hs \<Rightarrow> Some (Fact_Value (History_Fact (foldl later_row h hs))))"

text \<open>\<^verbatim>\<open>ORDER BY field, since\<close>, as a stable sort by time and then one by field.\<close>

definition ResourceFacts :: "store \<Rightarrow> string \<Rightarrow> string \<Rightarrow> string \<Rightarrow> fact list" where
  "ResourceFacts s tenant resourceType resourceID =
     sort_key Fact_Field (sort_key Fact_Since
       (map History_Fact (filter (about tenant resourceType resourceID) (history s))))"

definition resource_of :: "history_row \<Rightarrow> resource_ref" where
  "resource_of h = (Fact_ResourceType (History_Fact h), Fact_ResourceID (History_Fact h))"

definition TenantResources :: "store \<Rightarrow> string \<Rightarrow> resource_ref list" where
  "TenantResources s tenant =
     remdups (map resource_of (filter (\<lambda>h. History_Tenant h = tenant) (history s)))"

definition AllTenantResources :: "store \<Rightarrow> string \<Rightarrow> resource_ref list" where
  "AllTenantResources s tenant =
     remdups (map resource_of (filter (\<lambda>h. History_Tenant h = tenant) (history s)) @
              map (\<lambda>l. (Key_ResourceType (Row_Key (Ledger_Piece l)), Key_ResourceID (Row_Key (Ledger_Piece l))))
                (filter (\<lambda>l. Ledger_Tenant l = tenant) (ledger s)))"

definition ResourcesWithNewFacts :: "store \<Rightarrow> string \<Rightarrow> int \<Rightarrow> time \<Rightarrow> resource_ref list" where
  "ResourcesWithNewFacts s tenant afterOffset afterTime =
     remdups (map resource_of (filter (\<lambda>h. History_Tenant h = tenant \<and>
        (History_EventOffset h \<ge> afterOffset \<or> Fact_Since (History_Fact h) \<ge> afterTime)) (history s)))"

definition ResourcesOwnedBy :: "store \<Rightarrow> string \<Rightarrow> string \<Rightarrow> string \<Rightarrow> resource_ref list" where
  "ResourcesOwnedBy s tenant field rootID =
     remdups (map resource_of (filter (\<lambda>h. History_Tenant h = tenant \<and>
        Fact_Field (History_Fact h) = field \<and> Fact_Value (History_Fact h) = rootID) (history s)))"

section \<open>Ledger\<close>

definition put_ledger :: "ledger_row \<Rightarrow> ledger_row list \<Rightarrow> ledger_row list" where
  "put_ledger = upsert ledger_row_key"

definition LedgerPiecesWhere :: "store \<Rightarrow> string \<Rightarrow> (ledger_piece \<Rightarrow> bool) \<Rightarrow> ledger_piece list" where
  "LedgerPiecesWhere s tenant condition =
     filter condition (map Ledger_Piece (filter (\<lambda>l. Ledger_Tenant l = tenant) (ledger s)))"

definition SyncLedger :: "string \<Rightarrow> ledger_key \<Rightarrow> ledger_piece list \<Rightarrow> time \<Rightarrow> store \<Rightarrow> store" where
  "SyncLedger tenant key pieces tailFrom s =
     s\<lparr>ledger := filter (\<lambda>l. \<not> (Ledger_Tenant l = tenant \<and> Row_Key (Ledger_Piece l) = key \<and>
            Row_EndTime (Ledger_Piece l) > tailFrom \<and>
            Row_StartTime (Ledger_Piece l) \<notin> set (map Row_StartTime pieces)))
          (fold put_ledger
             (map (\<lambda>p. \<lparr>Ledger_Tenant = tenant, Ledger_Piece = p\<lparr>Row_Key := key\<rparr>\<rparr>) pieces) (ledger s))\<rparr>"

section \<open>Outbox\<close>

text \<open>The sequence of \<^verbatim>\<open>BIGSERIAL\<close> advances for a row that conflicts, too.\<close>

definition enqueue_one :: "string \<Rightarrow> string \<times> heartbeat_event \<times> time \<Rightarrow> store \<Rightarrow> store" where
  "enqueue_one tenant row s =
     (let (id, payload, roundTime) = row; s' = s\<lparr>outbox_seq := outbox_seq s + 1\<rparr>
      in if id \<in> set (map Outbox_ID (outbox s)) then s'
         else s'\<lparr>outbox := outbox s @ [\<lparr>Outbox_Seq = outbox_seq s, Outbox_Tenant = tenant, Outbox_ID = id,
                                       Outbox_Payload = payload, Outbox_RoundTime = roundTime\<rparr>]\<rparr>)"

definition EnqueueHeartbeats :: "string \<Rightarrow> (string \<times> heartbeat_event \<times> time) list \<Rightarrow> store \<Rightarrow> store" where
  "EnqueueHeartbeats tenant rows s = fold (enqueue_one tenant) rows s"

definition NextOutbox :: "store \<Rightarrow> string \<Rightarrow> nat \<Rightarrow> outbox_row list" where
  "NextOutbox s tenant limit = take limit (sort_key Outbox_Seq (filter (\<lambda>r. Outbox_Tenant r = tenant) (outbox s)))"

definition DeleteOutbox :: "string \<Rightarrow> int list \<Rightarrow> store \<Rightarrow> store" where
  "DeleteOutbox tenant seqs s =
     s\<lparr>outbox := filter (\<lambda>r. \<not> (Outbox_Tenant r = tenant \<and> Outbox_Seq r \<in> set seqs)) (outbox s)\<rparr>"

definition OutboxDepth :: "store \<Rightarrow> string \<Rightarrow> nat" where
  "OutboxDepth s tenant = length (filter (\<lambda>r. Outbox_Tenant r = tenant) (outbox s))"

section \<open>Replayed heartbeats, rule revisions, and leaving\<close>

definition ReplayedHeartbeatIDs :: "store \<Rightarrow> string \<Rightarrow> string set" where
  "ReplayedHeartbeatIDs s tenant = snd ` set (filter (\<lambda>(t, _). t = tenant) (replayed_heartbeats s))"

definition RecordReplayedHeartbeats :: "string \<Rightarrow> string list \<Rightarrow> store \<Rightarrow> store" where
  "RecordReplayedHeartbeats tenant ids s =
     s\<lparr>replayed_heartbeats := fold (\<lambda>id rows. List.insert (tenant, id) rows) ids (replayed_heartbeats s)\<rparr>"

definition PruneReplayedHeartbeats :: "string \<Rightarrow> store \<Rightarrow> store" where
  "PruneReplayedHeartbeats tenant s =
     s\<lparr>replayed_heartbeats := filter (\<lambda>(t, _). t \<noteq> tenant) (replayed_heartbeats s)\<rparr>"

definition RecordRuleRevision :: "rule_revision_row \<Rightarrow> store \<Rightarrow> store" where
  "RecordRuleRevision row s =
     (if list_ex (\<lambda>r. Row_Revision r = Row_Revision row) (rule_revisions s) then s
      else s\<lparr>rule_revisions := rule_revisions s @ [row]\<rparr>)"

definition ListRuleRevisions :: "store \<Rightarrow> rule_revision_row list" where
  "ListRuleRevisions s = sort_key Row_Revision (rule_revisions s)"

definition DeleteTenantRows :: "string \<Rightarrow> store \<Rightarrow> store" where
  "DeleteTenantRows tenant s =
     s\<lparr>history := filter (\<lambda>h. History_Tenant h \<noteq> tenant) (history s),
       ledger := filter (\<lambda>l. Ledger_Tenant l \<noteq> tenant) (ledger s),
       outbox := filter (\<lambda>r. Outbox_Tenant r \<noteq> tenant) (outbox s),
       progress_rows := filter (\<lambda>(t, _). t \<noteq> tenant) (progress_rows s),
       replayed_heartbeats := filter (\<lambda>(t, _). t \<noteq> tenant) (replayed_heartbeats s)\<rparr>"

section \<open>A table as a keyed store\<close>

text \<open>
  What the loops rely on of a table with a primary key: a row written is the row read under its key, and
  writing touches no other key. From that, the last writer of a key wins, a batch that ends in rows
  already written changes nothing, and rows of different keys commute.
\<close>

locale keyed_table =
  fixes key :: "'r \<Rightarrow> 'k" and put :: "'r \<Rightarrow> 's \<Rightarrow> 's" and get :: "'s \<Rightarrow> 'k \<Rightarrow> 'r option"
  assumes get_put: "get (put r s) k = (if k = key r then Some r else get s k)"
begin

lemma get_fold:
  "get (fold put rs s) k = (case find (\<lambda>r. key r = k) (rev rs) of None \<Rightarrow> get s k | Some r \<Rightarrow> Some r)"
proof (induction rs rule: rev_induct)
  case (snoc r rs)
  then show ?case by (simp add: get_put)
qed simp

lemma last_writer_wins:
  assumes "k = key r" "\<forall>r'\<in>set rs'. key r' \<noteq> k"
  shows "get (fold put (rs @ r # rs') s) k = Some r"
proof -
  have "find (\<lambda>r. key r = k) (rev rs') = None" using assms(2) by (simp add: find_none_all)
  then show ?thesis unfolding get_fold using assms(1) by (simp add: find_app)
qed

lemma get_untouched: "\<forall>r\<in>set rs. key r \<noteq> k \<Longrightarrow> get (fold put rs s) k = get s k"
  unfolding get_fold using find_none_all [of "\<lambda>r. key r = k" "rev rs"] by simp

lemma replay_suffix: "get (fold put ys (fold put (xs @ ys) s)) k = get (fold put (xs @ ys) s) k"
proof (cases "\<exists>y\<in>set ys. key y = k")
  case True
  then have "find (\<lambda>r. key r = k) (rev ys) \<noteq> None" by (auto simp: find_none_all)
  then show ?thesis by (auto simp: get_fold find_app)
next
  case False
  then have "\<forall>y\<in>set ys. key y \<noteq> k" by auto
  then show ?thesis by (rule get_untouched)
qed

lemma get_fold_cong: "get s k = get s' k \<Longrightarrow> get (fold put rs s) k = get (fold put rs s') k"
  by (simp add: get_fold split: option.splits)

lemma put_commute: "key r \<noteq> key r' \<Longrightarrow> get (put r (put r' s)) k = get (put r' (put r s)) k"
  by (auto simp: get_put)

end

definition get_row :: "('r \<Rightarrow> 'k) \<Rightarrow> 'r list \<Rightarrow> 'k \<Rightarrow> 'r option" where
  "get_row key rows k = find (\<lambda>r. key r = k) rows"

lemma get_upsert: "get_row key (upsert key r rows) k = (if k = key r then Some r else get_row key rows k)"
  by (induction rows) (auto simp: get_row_def)

lemma upsert_keys: "set (map key (upsert key r rows)) = insert (key r) (set (map key rows))"
  by (induction rows) auto

lemma upsert_distinct: "distinct (map key rows) \<Longrightarrow> distinct (map key (upsert key r rows))"
proof (induction rows)
  case (Cons x rows)
  then show ?case using upsert_keys [of key r rows] by auto
qed simp

lemma get_row_mem:
  "distinct (map key rows) \<Longrightarrow> get_row key rows k = Some r \<longleftrightarrow> r \<in> set rows \<and> key r = k"
  by (induction rows) (auto simp: get_row_def image_iff)

lemma rows_eq_if_get_eq:
  assumes "distinct (map key rows)" "distinct (map key rows')" "\<And>k. get_row key rows k = get_row key rows' k"
  shows "set rows = set rows'"
  using assms get_row_mem [of key rows] get_row_mem [of key rows'] by (metis subsetI subset_antisym)

interpretation hist: keyed_table history_key put_history "get_row history_key"
  by unfold_locales (simp add: put_history_def get_upsert)

interpretation led: keyed_table ledger_row_key put_ledger "get_row ledger_row_key"
  by unfold_locales (simp add: put_ledger_def get_upsert)

section \<open>The invariant of the tables\<close>

definition tables_ok :: "store \<Rightarrow> bool" where
  "tables_ok s \<longleftrightarrow> distinct (map history_key (history s)) \<and> distinct (map ledger_row_key (ledger s)) \<and>
     distinct (map Outbox_Seq (outbox s)) \<and> distinct (map Outbox_ID (outbox s)) \<and>
     (\<forall>r\<in>set (outbox s). Outbox_Seq r < outbox_seq s) \<and>
     distinct (map fst (progress_rows s)) \<and> distinct (replayed_heartbeats s) \<and>
     distinct (map Row_Revision (rule_revisions s))"

lemma fold_put_distinct: "distinct (map key rows) \<Longrightarrow> distinct (map key (fold (upsert key) rs rows))"
  by (induction rs arbitrary: rows) (auto simp: upsert_distinct)

lemma map_fst_update: "map fst (map (\<lambda>(t, p). if t = tenant then (t, f p) else (t, p)) rows) = map fst rows"
  by (induction rows) auto

lemma update_progress_fields [simp]:
  "history (update_progress t f s) = history s" "ledger (update_progress t f s) = ledger s"
  "outbox (update_progress t f s) = outbox s" "outbox_seq (update_progress t f s) = outbox_seq s"
  "rule_revisions (update_progress t f s) = rule_revisions s"
  "replayed_heartbeats (update_progress t f s) = replayed_heartbeats s"
  "map fst (progress_rows (update_progress t f s)) = map fst (progress_rows s)"
  by (simp_all add: update_progress_def map_fst_update del: map_map)

lemma tables_ok_update_progress [simp]: "tables_ok (update_progress t f s) = tables_ok s"
  by (simp only: tables_ok_def update_progress_fields)

lemma GetProgress_update:
  "GetProgress (update_progress t f s) t' = (if t' = t then map_option f (GetProgress s t') else GetProgress s t')"
proof -
  have "map_of (map (\<lambda>(x, p). if x = t then (x, f p) else (x, p)) rows) t' =
      (if t' = t then map_option f (map_of rows t') else map_of rows t')" for rows
    by (induction rows) auto
  then show ?thesis by (simp add: GetProgress_def update_progress_def)
qed

lemma tables_ok_enqueue_one: "tables_ok s \<Longrightarrow> tables_ok (enqueue_one tenant row s)"
  by (fastforce simp: tables_ok_def enqueue_one_def Let_def split: prod.splits)

lemma tables_ok_operations [simp]:
  assumes "tables_ok s"
  shows "tables_ok (EnsureProgress tenant s)"
    "tables_ok (InsertFacts tenant facts offset s)"
    "tables_ok (AdvanceEventOffset tenant offset s)"
    "tables_ok (AdvanceHeartbeatOffset tenant offset s)"
    "tables_ok (SetLastRound tenant t offset s)"
    "tables_ok (SyncLedger tenant key pieces tailFrom s)"
    "tables_ok (EnqueueHeartbeats tenant rows s)"
    "tables_ok (DeleteOutbox tenant seqs s)"
    "tables_ok (RecordReplayedHeartbeats tenant ids s)"
    "tables_ok (PruneReplayedHeartbeats tenant s)"
    "tables_ok (RecordRuleRevision revision s)"
    "tables_ok (DeleteTenantRows tenant s)"
proof -
  show "tables_ok (EnsureProgress tenant s)"
    using assms by (auto simp: tables_ok_def EnsureProgress_def map_of_eq_None_iff)
  show "tables_ok (InsertFacts tenant facts offset s)"
    using assms unfolding InsertFacts_def AdvanceEventOffset_def tables_ok_update_progress
    by (simp add: tables_ok_def put_history_def fold_put_distinct)
  show "tables_ok (AdvanceEventOffset tenant offset s)" "tables_ok (AdvanceHeartbeatOffset tenant offset s)"
    "tables_ok (SetLastRound tenant t offset s)"
    using assms by (simp_all add: AdvanceEventOffset_def AdvanceHeartbeatOffset_def SetLastRound_def)
  show "tables_ok (SyncLedger tenant key pieces tailFrom s)"
    using assms by (auto simp: tables_ok_def SyncLedger_def put_ledger_def distinct_map_filter fold_put_distinct)
  show "tables_ok (EnqueueHeartbeats tenant rows s)"
    unfolding EnqueueHeartbeats_def using assms by (induction rows arbitrary: s) (auto simp: tables_ok_enqueue_one)
  show "tables_ok (DeleteOutbox tenant seqs s)" "tables_ok (PruneReplayedHeartbeats tenant s)"
    "tables_ok (DeleteTenantRows tenant s)"
    using assms by (auto simp: tables_ok_def DeleteOutbox_def PruneReplayedHeartbeats_def DeleteTenantRows_def distinct_map_filter)
  show "tables_ok (RecordReplayedHeartbeats tenant ids s)"
  proof -
    have "distinct rows \<Longrightarrow> distinct (fold (\<lambda>id rows. List.insert (tenant, id) rows) ids rows)" for rows
      by (induction ids arbitrary: rows) auto
    then show ?thesis using assms by (simp add: tables_ok_def RecordReplayedHeartbeats_def)
  qed
  show "tables_ok (RecordRuleRevision revision s)"
    using assms by (auto simp: tables_ok_def RecordRuleRevision_def list_ex_iff image_iff)
qed

text \<open>The states of the database: empty, or one store operation after another.\<close>

definition empty_store :: store where
  "empty_store = \<lparr>history = [], ledger = [], outbox = [], outbox_seq = 1, progress_rows = [], rule_revisions = [],
     replayed_heartbeats = []\<rparr>"

inductive db_reachable :: "store \<Rightarrow> bool" where
  start: "db_reachable empty_store"
| "db_reachable s \<Longrightarrow> db_reachable (EnsureProgress tenant s)"
| "db_reachable s \<Longrightarrow> db_reachable (InsertFacts tenant facts offset s)"
| "db_reachable s \<Longrightarrow> db_reachable (AdvanceEventOffset tenant offset s)"
| "db_reachable s \<Longrightarrow> db_reachable (AdvanceHeartbeatOffset tenant offset s)"
| "db_reachable s \<Longrightarrow> db_reachable (SetLastRound tenant t offset s)"
| "db_reachable s \<Longrightarrow> db_reachable (SyncLedger tenant key pieces tailFrom s)"
| "db_reachable s \<Longrightarrow> db_reachable (EnqueueHeartbeats tenant rows s)"
| "db_reachable s \<Longrightarrow> db_reachable (DeleteOutbox tenant seqs s)"
| "db_reachable s \<Longrightarrow> db_reachable (RecordReplayedHeartbeats tenant ids s)"
| "db_reachable s \<Longrightarrow> db_reachable (PruneReplayedHeartbeats tenant s)"
| "db_reachable s \<Longrightarrow> db_reachable (RecordRuleRevision revision s)"
| "db_reachable s \<Longrightarrow> db_reachable (DeleteTenantRows tenant s)"


lemma two_operations_reachable:
  "db_reachable (EnqueueHeartbeats tenant rows (EnsureProgress tenant empty_store))"
  by (intro db_reachable.intros)


section \<open>Reading back what was written\<close>

lemma put_ledger_rows_mem:
  assumes "distinct (map ledger_row_key (ledger s))" "distinct (map Row_StartTime pieces)"
  shows "l \<in> set (fold put_ledger (map (\<lambda>p. \<lparr>Ledger_Tenant = tenant, Ledger_Piece = p\<lparr>Row_Key := key\<rparr>\<rparr>) pieces) (ledger s)) \<longleftrightarrow>
    (if Ledger_Tenant l = tenant \<and> Row_Key (Ledger_Piece l) = key \<and>
        Row_StartTime (Ledger_Piece l) \<in> set (map Row_StartTime pieces)
     then \<exists>p\<in>set pieces. l = \<lparr>Ledger_Tenant = tenant, Ledger_Piece = p\<lparr>Row_Key := key\<rparr>\<rparr>
     else l \<in> set (ledger s))"
proof -
  let ?row = "\<lambda>p. \<lparr>Ledger_Tenant = tenant, Ledger_Piece = p\<lparr>Row_Key := key\<rparr>\<rparr>"
  let ?rows = "map ?row pieces"
  have mem: "l \<in> set (fold put_ledger ?rows (ledger s)) \<longleftrightarrow>
      get_row ledger_row_key (fold put_ledger ?rows (ledger s)) (ledger_row_key l) = Some l"
    using get_row_mem [OF fold_put_distinct [OF assms(1)]] by (auto simp: put_ledger_def)
  show ?thesis
  proof (cases "\<exists>p\<in>set pieces. ledger_row_key (?row p) = ledger_row_key l")
    case True
    then obtain p where p: "p \<in> set pieces" "ledger_row_key (?row p) = ledger_row_key l" by blast
    then obtain as bs where ab: "pieces = as @ p # bs" by (meson split_list)
    have "\<forall>r\<in>set (map ?row bs). ledger_row_key r \<noteq> ledger_row_key l"
      using assms(2) p(2) ab by (auto simp: ledger_row_key_def) (metis image_eqI)
    with led.last_writer_wins [of "ledger_row_key l" "?row p" "map ?row bs" "map ?row as" "ledger s"] p(2)
    have "get_row ledger_row_key (fold put_ledger ?rows (ledger s)) (ledger_row_key l) = Some (?row p)"
      by (simp add: ab)
    then have "l \<in> set (fold put_ledger ?rows (ledger s)) \<longleftrightarrow> l = ?row p" using mem by auto
    moreover have "(\<exists>p'\<in>set pieces. l = ?row p') \<longleftrightarrow> l = ?row p"
    proof
      assume "\<exists>p'\<in>set pieces. l = ?row p'"
      then obtain p' where p': "p' \<in> set pieces" "l = ?row p'" by blast
      then have "Row_StartTime p' = Row_StartTime p" using p(2) by (simp add: ledger_row_key_def)
      then have "p' = p" using assms(2) p(1) p'(1) by (auto simp: distinct_map inj_on_def)
      then show "l = ?row p" using p'(2) by simp
    qed (use p in blast)
    moreover have "Ledger_Tenant l = tenant \<and> Row_Key (Ledger_Piece l) = key \<and>
        Row_StartTime (Ledger_Piece l) \<in> set (map Row_StartTime pieces)"
      using p(2) imageI [OF p(1), of Row_StartTime] by (simp add: ledger_row_key_def)
    ultimately show ?thesis by simp
  next
    case False
    then have "\<forall>r\<in>set ?rows. ledger_row_key r \<noteq> ledger_row_key l" by auto
    then have "get_row ledger_row_key (fold put_ledger ?rows (ledger s)) (ledger_row_key l) =
        get_row ledger_row_key (ledger s) (ledger_row_key l)" by (rule led.get_untouched)
    then have "l \<in> set (fold put_ledger ?rows (ledger s)) \<longleftrightarrow> l \<in> set (ledger s)"
      unfolding mem using get_row_mem [OF assms(1), of "ledger_row_key l" l] by simp
    then show ?thesis using False by (auto simp: ledger_row_key_def)
  qed
qed

text \<open>
  Syncing a meter's ledger makes it the given pieces: afterwards the meter's rows are exactly the pieces,
  and of its older rows only those that end at or before the tail bound under a start no piece has; the
  rows of every other tenant and meter are untouched.
\<close>

lemma SyncLedger_replaces:
  assumes "tables_ok s" "distinct (map Row_StartTime pieces)" "\<forall>p\<in>set pieces. Row_Key p = key"
  shows "set (LedgerPiecesWhere (SyncLedger tenant key pieces tailFrom s) tenant' (\<lambda>p. Row_Key p = key')) =
    (if tenant' = tenant \<and> key' = key
     then set pieces \<union> {p \<in> set (LedgerPiecesWhere s tenant (\<lambda>p. Row_Key p = key)).
            Row_EndTime p \<le> tailFrom \<and> Row_StartTime p \<notin> set (map Row_StartTime pieces)}
     else set (LedgerPiecesWhere s tenant' (\<lambda>p. Row_Key p = key')))"
proof -
  have d: "distinct (map ledger_row_key (ledger s))" using assms(1) by (simp add: tables_ok_def)
  note mem = put_ledger_rows_mem [OF d assms(2), where tenant = tenant and key = key]
  have upd: "p\<lparr>Row_Key := key\<rparr> = p" if "p \<in> set pieces" for p using assms(3) that by simp
  have ex: "(\<exists>q\<in>set pieces. l = \<lparr>Ledger_Tenant = tenant, Ledger_Piece = q\<lparr>Row_Key := key\<rparr>\<rparr>) \<longleftrightarrow>
      Ledger_Tenant l = tenant \<and> Ledger_Piece l \<in> set pieces" for l
    using upd by (cases l) auto
  have start: "Row_StartTime p \<in> set (map Row_StartTime pieces)" if "p \<in> set pieces" for p using that by simp
  let ?new = "fold put_ledger (map (\<lambda>p. \<lparr>Ledger_Tenant = tenant, Ledger_Piece = p\<lparr>Row_Key := key\<rparr>\<rparr>) pieces) (ledger s)"
  let ?row = "\<lambda>p. \<lparr>Ledger_Tenant = tenant', Ledger_Piece = p\<rparr>"
  have sel: "p \<in> set (map Ledger_Piece (filter (\<lambda>l. Ledger_Tenant l = tenant') rows)) \<longleftrightarrow> ?row p \<in> set rows" for p rows
  proof
    assume "p \<in> set (map Ledger_Piece (filter (\<lambda>l. Ledger_Tenant l = tenant') rows))"
    then obtain l where l: "l \<in> set rows" "Ledger_Tenant l = tenant'" "p = Ledger_Piece l" by auto
    have "?row p = l" using l(2,3) by (cases l) simp
    then show "?row p \<in> set rows" using l(1) by simp
  next
    assume "?row p \<in> set rows"
    then show "p \<in> set (map Ledger_Piece (filter (\<lambda>l. Ledger_Tenant l = tenant') rows))"
      by (auto intro!: image_eqI [of _ _ "?row p"])
  qed
  have old: "p \<in> set (LedgerPiecesWhere s tenant' (\<lambda>p. Row_Key p = key')) \<longleftrightarrow> Row_Key p = key' \<and> ?row p \<in> set (ledger s)" for p
    unfolding LedgerPiecesWhere_def set_filter sel [symmetric] by auto
  have "p \<in> set (LedgerPiecesWhere (SyncLedger tenant key pieces tailFrom s) tenant' (\<lambda>p. Row_Key p = key')) \<longleftrightarrow>
      Row_Key p = key' \<and> ?row p \<in> set ?new \<and>
      \<not> (tenant' = tenant \<and> key' = key \<and> Row_EndTime p > tailFrom \<and> Row_StartTime p \<notin> set (map Row_StartTime pieces))" for p
    unfolding LedgerPiecesWhere_def set_filter mem_Collect_eq sel by (auto simp: SyncLedger_def)
  then have new: "p \<in> set (LedgerPiecesWhere (SyncLedger tenant key pieces tailFrom s) tenant' (\<lambda>p. Row_Key p = key')) \<longleftrightarrow>
      Row_Key p = key' \<and> (if tenant' = tenant \<and> Row_Key p = key \<and> Row_StartTime p \<in> set (map Row_StartTime pieces)
          then p \<in> set pieces else ?row p \<in> set (ledger s)) \<and>
      \<not> (tenant' = tenant \<and> key' = key \<and> Row_EndTime p > tailFrom \<and> Row_StartTime p \<notin> set (map Row_StartTime pieces))" for p
    unfolding mem ex by simp
  show ?thesis
  proof (cases "tenant' = tenant \<and> key' = key")
    case True
    have "x \<in> set (LedgerPiecesWhere (SyncLedger tenant key pieces tailFrom s) tenant' (\<lambda>p. Row_Key p = key')) \<longleftrightarrow>
        x \<in> set pieces \<or> (x \<in> set (LedgerPiecesWhere s tenant' (\<lambda>p. Row_Key p = key')) \<and>
          Row_EndTime x \<le> tailFrom \<and> Row_StartTime x \<notin> set (map Row_StartTime pieces))" for x
      unfolding new old using True assms(3) start [of x] by (auto simp: not_less simp del: set_map)
    then show ?thesis unfolding if_P [OF True] using True by (auto simp only: set_eq_iff Un_iff mem_Collect_eq)
  next
    case False
    have "x \<in> set (LedgerPiecesWhere (SyncLedger tenant key pieces tailFrom s) tenant' (\<lambda>p. Row_Key p = key')) \<longleftrightarrow>
        x \<in> set (LedgerPiecesWhere s tenant' (\<lambda>p. Row_Key p = key'))" for x
      unfolding new old using False by (simp del: set_map) blast
    then show ?thesis using False by auto
  qed
qed

end
