(* ===== verification/Fold.thy ===== *)
theory Fold
  imports Metering_Store
begin

text \<open>
  The fold of \<^verbatim>\<open>internal/fold\<close>: what facts an event carries (\<^verbatim>\<open>facts.go\<close>) and how a batch of
  events becomes history (\<^verbatim>\<open>fold.go\<close>).

  A proto message is the tree the code reads through reflection. A field's value carries its kind; an
  unset message field is \<open>PMessage False\<close>, whose fields the code never reads. \<open>POther\<close> stands for the
  kinds the registry refuses (floats, bytes) and for repeated and map fields, which no tracked path
  crosses. The tenant and id paths are string fields and the timestamp paths timestamp messages in every
  payload; of another kind they read as unset here.
\<close>

section \<open>Events\<close>

datatype proto_value =
    PString string
  | PBool bool
  | PInt int
  | PUint int
  | PEnum int "(int \<times> string) list"
  | PMessage bool "(string \<times> proto_value) list"
  | POther

datatype event_type =
    EVENT_TYPE_UNSPECIFIED | EVENT_TYPE_OBJECT_CREATED | EVENT_TYPE_OBJECT_UPDATED
  | EVENT_TYPE_OBJECT_DELETED | EVENT_TYPE_OBJECT_SIGNALED

record change_event =
  Change_Id :: string
  Change_Type :: event_type
  Change_Timestamp :: "(int \<times> int) option"
  Change_Payload :: "(string \<times> proto_value) option"
  Change_ExternalBillingId :: string

section \<open>Reading a payload\<close>

fun split_dots :: "string \<Rightarrow> string list" where
  "split_dots [] = [[]]"
| "split_dots (c # cs) =
     (if c = CHR ''.'' then [] # split_dots cs
      else (case split_dots cs of s # ss \<Rightarrow> (c # s) # ss | [] \<Rightarrow> [[c]]))"

fun walk_path :: "proto_value \<Rightarrow> string list \<Rightarrow> proto_value option" where
  "walk_path (PMessage _ members) [seg] = map_of members seg"
| "walk_path (PMessage _ members) (seg # seg' # rest) =
     (case map_of members seg of
        Some (PMessage True members') \<Rightarrow> walk_path (PMessage True members') (seg' # rest)
      | _ \<Rightarrow> None)"
| "walk_path _ _ = None"

definition fieldAndValueAt :: "proto_value \<Rightarrow> string \<Rightarrow> proto_value option" where
  "fieldAndValueAt message path = walk_path message (split_dots path)"

definition stringOf :: "proto_value \<Rightarrow> string \<Rightarrow> string" where
  "stringOf message path = (case fieldAndValueAt message path of Some (PString v) \<Rightarrow> v | _ \<Rightarrow> '''')"

text \<open>\<^verbatim>\<open>time.Unix\<close>, with the zero time of Go as origin; an all-zero timestamp is an absent one.\<close>

definition Unix :: "int \<Rightarrow> int \<Rightarrow> time" where
  "Unix seconds nanos = (62135596800 + seconds) * second + nanos"

definition timestamp_time :: "int \<Rightarrow> int \<Rightarrow> time" where
  "timestamp_time seconds nanos = (if seconds = 0 \<and> nanos = 0 then zero_time else Unix seconds nanos)"

definition timestampAt :: "proto_value \<Rightarrow> string \<Rightarrow> time" where
  "timestampAt message path =
     (case fieldAndValueAt message path of
        Some (PMessage True members) \<Rightarrow>
          (case map_of members ''seconds'' of
             Some (PInt seconds) \<Rightarrow>
               timestamp_time seconds (case map_of members ''nanos'' of Some (PInt n) \<Rightarrow> n | _ \<Rightarrow> 0)
           | _ \<Rightarrow> zero_time)
      | _ \<Rightarrow> zero_time)"

definition formatReference :: "(string \<times> proto_value) list \<Rightarrow> string" where
  "formatReference members =
     (case map_of members ''name'' of
        Some (PString n) \<Rightarrow>
          if n \<noteq> '''' then n else (case map_of members ''id'' of Some (PString i) \<Rightarrow> i | _ \<Rightarrow> '''')
      | _ \<Rightarrow> (case map_of members ''id'' of Some (PString i) \<Rightarrow> i | _ \<Rightarrow> ''''))"

definition referenceOf :: "proto_value \<Rightarrow> string \<Rightarrow> string" where
  "referenceOf message path =
     (case fieldAndValueAt message path of Some (PMessage True members) \<Rightarrow> formatReference members | _ \<Rightarrow> '''')"

definition formatOwnerReference :: "proto_value \<Rightarrow> string" where
  "formatOwnerReference v =
     (case v of
        PMessage True members \<Rightarrow> (case map_of members ''id'' of Some (PString i) \<Rightarrow> i | _ \<Rightarrow> '''')
      | _ \<Rightarrow> '''')"

fun nonZero :: "proto_value \<Rightarrow> bool" where
  "nonZero (PString s) = (s \<noteq> '''')"
| "nonZero (PBool _) = True"
| "nonZero (PInt i) = (i \<noteq> 0)"
| "nonZero (PUint i) = (i \<noteq> 0)"
| "nonZero (PEnum i _) = (i \<noteq> 0)"
| "nonZero (PMessage valid _) = valid"
| "nonZero POther = False"

definition enumShortName :: "int \<Rightarrow> (int \<times> string) list \<Rightarrow> string" where
  "enumShortName number values =
     (case map_of values number of
        None \<Rightarrow> int_text number
      | Some name \<Rightarrow> TrimPrefix name (EnumValuePrefix (map snd values)))"

fun formatValue :: "proto_value \<Rightarrow> string" where
  "formatValue (PString s) = s"
| "formatValue (PBool b) = (if b then ''true'' else ''false'')"
| "formatValue (PInt i) = int_text i"
| "formatValue (PUint i) = int_text i"
| "formatValue (PEnum i values) = enumShortName i values"
| "formatValue (PMessage valid members) = (if valid then formatReference members else '''')"
| "formatValue POther = ''''"

section \<open>The facts of an event\<close>

definition mk_fact :: "string \<Rightarrow> string \<Rightarrow> string \<Rightarrow> time \<Rightarrow> string \<Rightarrow> fact" where
  "mk_fact typeName resourceID field since value =
     \<lparr>Fact_ResourceType = typeName, Fact_ResourceID = resourceID, Fact_Field = field,
      Fact_Since = truncate_second since, Fact_Value = value\<rparr>"

text \<open>One tracked field: no fact, or the time and text of one.\<close>

definition tracked_fact :: "proto_value \<Rightarrow> time \<Rightarrow> registry_field \<Rightarrow> (time \<times> string) option" where
  "tracked_fact payload creation field =
     (case fieldAndValueAt payload (Field_Path field) of
        None \<Rightarrow> None
      | Some value \<Rightarrow>
          (let rendered = (if Field_OwnerResource field \<noteq> '''' then formatOwnerReference value else formatValue value)
           in case Field_Kind field of
                KindVaries \<Rightarrow>
                  (let since = timestampAt payload (Field_TransitionTime field) in
                   if since = zero_time \<and> (creation = zero_time \<or> \<not> nonZero value) then None
                   else if rendered = '''' then None
                   else Some (if since = zero_time then creation else since, rendered))
              | _ \<Rightarrow> if \<not> nonZero value then None else Some (creation, rendered)))"

text \<open>The creation, the identity dimensions and the tracked fields of a payload.\<close>

definition payload_facts :: "string \<Rightarrow> string \<Rightarrow> proto_value \<Rightarrow> time \<Rightarrow> registry_resource \<Rightarrow> fact list" where
  "payload_facts typeName resourceID payload creation resource =
     (let add = mk_fact typeName resourceID;
          project = stringOf payload ''metadata.project'';
          catalog = referenceOf payload ''spec.catalog_item'';
          template = referenceOf payload ''spec.template''
      in [add ''created'' creation ''true''] @
         (if project \<noteq> '''' then [add ''metadata.project'' creation project] else []) @
         (if catalog \<noteq> '''' then [add ''spec.catalog_item'' creation catalog] else []) @
         (if template \<noteq> '''' then [add ''spec.template'' creation template] else []) @
         concat (map (\<lambda>field. case tracked_fact payload creation field of
             None \<Rightarrow> [] | Some (since, value) \<Rightarrow> [add (Field_Path field) since value])
           (Resource_Fields resource)))"

definition Facts :: "registry_resource list \<Rightarrow> string \<Rightarrow> change_event \<Rightarrow> metering_error + fact list" where
  "Facts resources tenant event =
     (if tenant = '''' then Inl NoTenant
      else case Change_Payload event of
        None \<Rightarrow> Inl UnknownPayload
      | Some (resourceType, payload) \<Rightarrow>
          if \<not> nonZero payload then Inl UnknownPayload
          else
            (let eventTenant = stringOf payload ''metadata.tenant'' in
             if eventTenant \<noteq> '''' \<and> eventTenant \<noteq> tenant then Inl (ForeignTenant eventTenant tenant)
             else case map_of (rev (map (\<lambda>r. (Resource_Message r, r)) resources)) resourceType of
               None \<Rightarrow> Inr []
             | Some resource \<Rightarrow>
                 (let resourceID = stringOf payload ''id''; typeName = ShortName resourceType;
                      creation = timestampAt payload ''metadata.creation_timestamp'';
                      facts = payload_facts typeName resourceID payload creation resource
                  in if resourceID = '''' then Inl MissingResourceID
                     else if creation = zero_time then Inl MissingCreationTime
                     else if Change_Type event = EVENT_TYPE_OBJECT_DELETED then
                       (case Change_Timestamp event of
                          None \<Rightarrow> Inl MissingDeletionTime
                        | Some (seconds, nanos) \<Rightarrow>
                            if timestamp_time seconds nanos = zero_time then Inl MissingDeletionTime
                            else Inr (facts @ [mk_fact typeName resourceID ''deleted'' (timestamp_time seconds nanos) ''true'']))
                     else Inr facts)))"

section \<open>Applying a batch\<close>

text \<open>\<^verbatim>\<open>timestamppb\<close>: \<^verbatim>\<open>IsValid\<close> accepts the years 1 to 9999.\<close>

definition timestamp_valid :: "int \<Rightarrow> int \<Rightarrow> bool" where
  "timestamp_valid seconds nanos \<longleftrightarrow>
     - 62135596800 \<le> seconds \<and> seconds \<le> 253402300799 \<and> 0 \<le> nanos \<and> nanos < 1000000000"

definition changedBillingFact :: "change_event \<Rightarrow> string \<Rightarrow> string option \<Rightarrow> metering_error + fact option" where
  "changedBillingFact event tenant latest =
     (let value = Change_ExternalBillingId event in
      if latest = Some value then Inr None
      else
        (let undated = (if latest = None \<and> value = '''' then Inr None else Inl BillingChangeWithoutTime)
         in case Change_Timestamp event of
              None \<Rightarrow> undated
            | Some (seconds, nanos) \<Rightarrow>
                if \<not> timestamp_valid seconds nanos \<or> Unix seconds nanos = zero_time then undated
                else Inr (Some \<lparr>Fact_ResourceType = BillingResourceType, Fact_ResourceID = tenant,
                                Fact_Field = BillingField, Fact_Since = truncate_second (Unix seconds nanos),
                                Fact_Value = value\<rparr>)))"

fun skipReason :: "metering_error \<Rightarrow> string option" where
  "skipReason (ForeignTenant _ _) = Some ''foreign_tenant''"
| "skipReason UnknownPayload = Some ''unknown_payload''"
| "skipReason MissingResourceID = Some ''missing_resource_id''"
| "skipReason MissingCreationTime = Some ''missing_creation_time''"
| "skipReason MissingDeletionTime = Some ''missing_deletion_time''"
| "skipReason _ = None"

record event_message =
  Message_Offset :: int
  Message_Event :: "change_event option"

definition skipEvent :: "string \<Rightarrow> event_message \<Rightarrow> store \<Rightarrow> store" where
  "skipEvent tenant message = AdvanceEventOffset tenant (Message_Offset message + 1)"

fun is_foreign :: "metering_error \<Rightarrow> bool" where
  "is_foreign (ForeignTenant _ _) = True"
| "is_foreign _ = False"

text \<open>One turn of the loop: the store inside the transaction and the running billing id.\<close>

definition apply_one ::
  "registry_resource list \<Rightarrow> string \<Rightarrow> store \<times> string option \<Rightarrow> event_message
     \<Rightarrow> metering_error + store \<times> string option" where
  "apply_one resources tenant st message =
     (let (s, latest) = st; next_offset = Message_Offset message + 1
      in case Message_Event message of
           None \<Rightarrow> Inr (skipEvent tenant message s, latest)
         | Some event \<Rightarrow>
             (case changedBillingFact event tenant latest of
                Inl _ \<Rightarrow> Inr (skipEvent tenant message s, latest)
              | Inr billing \<Rightarrow>
                  (case Facts resources tenant event of
                     Inl err \<Rightarrow>
                       (case skipReason err of
                          None \<Rightarrow> Inl err
                        | Some _ \<Rightarrow>
                            (case billing of
                               Some b \<Rightarrow>
                                 if is_foreign err then Inr (skipEvent tenant message s, latest)
                                 else Inr (skipEvent tenant message (InsertFacts tenant [b] next_offset s),
                                           Some (Fact_Value b))
                             | None \<Rightarrow> Inr (skipEvent tenant message s, latest)))
                   | Inr facts \<Rightarrow>
                       (let facts' = facts @ (case billing of None \<Rightarrow> [] | Some b \<Rightarrow> [b]);
                            latest' = (case billing of None \<Rightarrow> latest | Some b \<Rightarrow> Some (Fact_Value b))
                        in if facts' = [] then Inr (AdvanceEventOffset tenant next_offset s, latest')
                           else Inr (InsertFacts tenant facts' next_offset s, latest')))))"

text \<open>The whole transaction; an error rolls it back.\<close>

definition fold_apply ::
  "registry_resource list \<Rightarrow> string \<Rightarrow> event_message list \<Rightarrow> store \<Rightarrow> metering_error + store" where
  "fold_apply resources tenant messages s =
     ebind (efold (apply_one resources tenant)
              (s, LatestFactValue s tenant BillingResourceType tenant BillingField) messages)
       (\<lambda>(s', _). Inr s')"

definition startOffset :: "int \<Rightarrow> int option" where
  "startOffset stored = (if stored \<le> 0 then None else Some stored)"

definition logSkipped :: "int \<Rightarrow> int \<Rightarrow> int option" where
  "logSkipped skippedFrom oldest = (if oldest \<le> skippedFrom then None else Some (oldest - skippedFrom))"

section \<open>What a batch writes\<close>

definition row_of :: "string \<Rightarrow> event_message \<Rightarrow> fact \<Rightarrow> history_row" where
  "row_of tenant message f =
     \<lparr>History_Tenant = tenant, History_Fact = f, History_EventOffset = Message_Offset message + 1\<rparr>"

definition resource_rows :: "registry_resource list \<Rightarrow> string \<Rightarrow> event_message \<Rightarrow> history_row list" where
  "resource_rows resources tenant message =
     (case Message_Event message of
        None \<Rightarrow> []
      | Some event \<Rightarrow>
          (case Facts resources tenant event of Inl _ \<Rightarrow> [] | Inr facts \<Rightarrow> map (row_of tenant message) facts))"

definition dated :: "event_message \<Rightarrow> bool" where
  "dated message \<longleftrightarrow>
     (case Message_Event message of
        None \<Rightarrow> True
      | Some event \<Rightarrow>
          (case Change_Timestamp event of
             None \<Rightarrow> False
           | Some (seconds, nanos) \<Rightarrow> timestamp_valid seconds nanos \<and> Unix seconds nanos \<noteq> zero_time))"

lemma AdvanceEventOffset_history [simp]: "history (AdvanceEventOffset tenant n s) = history s"
  by (simp add: AdvanceEventOffset_def)

lemma skipEvent_history [simp]: "history (skipEvent tenant m s) = history s"
  by (simp add: skipEvent_def)

lemma InsertFacts_history:
  "history (InsertFacts tenant facts (Message_Offset m + 1) s) = fold put_history (map (row_of tenant m) facts) (history s)"
proof -
  have "(\<lambda>f. \<lparr>History_Tenant = tenant, History_Fact = f, History_EventOffset = Message_Offset m + 1\<rparr>) = row_of tenant m"
    by (rule ext) (simp add: row_of_def)
  then show ?thesis by (simp add: InsertFacts_def)
qed

lemma Facts_skippable:
  "tenant \<noteq> '''' \<Longrightarrow> Facts resources tenant event = Inl err \<Longrightarrow> skipReason err \<noteq> None"
  by (auto simp: Facts_def Let_def split: if_splits option.splits prod.splits)

lemma changedBillingFact_row:
  "changedBillingFact event tenant latest = Inr (Some b) \<Longrightarrow>
   Fact_ResourceType b = BillingResourceType \<and> whole_second (Fact_Since b)"
  by (auto simp: changedBillingFact_def Let_def split: if_splits option.splits prod.splits)

lemma dated_billing:
  "dated m \<Longrightarrow> Message_Event m = Some event \<Longrightarrow> \<exists>b. changedBillingFact event tenant latest = Inr b"
  by (auto simp: changedBillingFact_def dated_def Let_def split: option.splits prod.splits)

abbreviation billing_row :: "history_row \<Rightarrow> bool" where
  "billing_row r \<equiv> Fact_ResourceType (History_Fact r) = BillingResourceType \<and> whole_second (Fact_Since (History_Fact r))"

text \<open>A turn writes either nothing, or rows that end in the billing row and otherwise are the facts.\<close>

lemma apply_one_cases:
  assumes "tenant \<noteq> ''''"
  obtains s' latest' rows where "apply_one resources tenant (s, latest) m = Inr (s', latest')"
    "history s' = fold put_history rows (history s)"
    "\<exists>brows. (rows = resource_rows resources tenant m @ brows \<or> rows = brows) \<and> (\<forall>r\<in>set brows. billing_row r)"
    "dated m \<Longrightarrow> \<exists>brows. rows = resource_rows resources tenant m @ brows \<and> (\<forall>r\<in>set brows. billing_row r)"
proof (cases "Message_Event m")
  case None
  then show ?thesis using that [of "skipEvent tenant m s" latest "[]"] by (simp add: apply_one_def resource_rows_def)
next
  case (Some event)
  note ev = Some
  show ?thesis
  proof (cases "changedBillingFact event tenant latest")
    case (Inl e)
    then have "\<not> dated m" using dated_billing [OF _ ev, of tenant latest] by auto
    moreover have "apply_one resources tenant (s, latest) m = Inr (skipEvent tenant m s, latest)"
      using ev Inl by (simp add: apply_one_def)
    moreover have "\<exists>brows. ([] = resource_rows resources tenant m @ brows \<or> [] = brows) \<and> (\<forall>r\<in>set brows. billing_row r)"
      by (rule exI [of _ "[]"]) simp
    ultimately show ?thesis using that [of "skipEvent tenant m s" latest "[]"] by simp
  next
    case (Inr billing)
    have brow: "\<forall>r\<in>set (map (row_of tenant m) (case billing of None \<Rightarrow> [] | Some b \<Rightarrow> [b])). billing_row r"
      using changedBillingFact_row Inr by (auto simp: row_of_def split: option.splits)
    show ?thesis
    proof (cases "Facts resources tenant event")
      case err: (Inl err)
      then obtain reason where "skipReason err = Some reason" using Facts_skippable [OF assms err] by auto
      then show ?thesis
        using ev Inr err brow
          that [of "skipEvent tenant m s" latest "[]"]
          that [of "skipEvent tenant m (InsertFacts tenant [the billing] (Message_Offset m + 1) s)"
                "Some (Fact_Value (the billing))" "map (row_of tenant m) [the billing]"]
        by (cases billing; cases "is_foreign err")
          (auto simp: apply_one_def resource_rows_def InsertFacts_history)
    next
      case facts: (Inr facts)
      let ?all = "facts @ (case billing of None \<Rightarrow> [] | Some b \<Rightarrow> [b])"
      let ?latest = "case billing of None \<Rightarrow> latest | Some b \<Rightarrow> Some (Fact_Value b)"
      have "\<exists>s'. apply_one resources tenant (s, latest) m = Inr (s', ?latest) \<and>
          history s' = fold put_history (map (row_of tenant m) ?all) (history s)"
        using ev Inr facts by (auto simp: apply_one_def Let_def InsertFacts_history split: option.splits)
      then obtain s' where s': "apply_one resources tenant (s, latest) m = Inr (s', ?latest)"
        "history s' = fold put_history (map (row_of tenant m) ?all) (history s)" by blast
      have "map (row_of tenant m) ?all = resource_rows resources tenant m @
          map (row_of tenant m) (case billing of None \<Rightarrow> [] | Some b \<Rightarrow> [b])"
        using ev facts by (simp add: resource_rows_def)
      then show ?thesis using that [OF s'] brow by blast
    qed
  qed
qed

abbreviation billing_key :: "string \<times> string \<times> string \<times> string \<times> time \<Rightarrow> bool" where
  "billing_key k \<equiv> fst (snd k) = BillingResourceType"

lemma fold_batch_rows:
  assumes "tenant \<noteq> ''''" "\<forall>m\<in>set ms. dated m"
  shows "\<exists>s' latest'. efold (apply_one resources tenant) (s, latest) ms = Inr (s', latest') \<and>
    (\<forall>k. \<not> billing_key k \<longrightarrow> get_row history_key (history s') k =
       get_row history_key (fold put_history (concat (map (resource_rows resources tenant) ms)) (history s)) k)"
  using assms(2)
proof (induction ms arbitrary: s latest)
  case (Cons m ms)
  have dm: "dated m" and dms: "\<forall>m\<in>set ms. dated m" using Cons.prems by auto
  from assms(1) obtain s1 latest1 rows where step: "apply_one resources tenant (s, latest) m = Inr (s1, latest1)"
    "history s1 = fold put_history rows (history s)"
    "dated m \<Longrightarrow> \<exists>brows. rows = resource_rows resources tenant m @ brows \<and> (\<forall>r\<in>set brows. billing_row r)"
    by (rule apply_one_cases) blast
  from step(3) [OF dm] obtain brows where b: "rows = resource_rows resources tenant m @ brows" "\<forall>r\<in>set brows. billing_row r"
    by blast
  from Cons.IH [OF dms, of s1 latest1] obtain s' latest' where
    rest: "efold (apply_one resources tenant) (s1, latest1) ms = Inr (s', latest')"
    "\<And>k. \<not> billing_key k \<Longrightarrow> get_row history_key (history s') k =
       get_row history_key (fold put_history (concat (map (resource_rows resources tenant) ms)) (history s1)) k"
    by blast
  have "get_row history_key (history s') k =
      get_row history_key (fold put_history (concat (map (resource_rows resources tenant) (m # ms))) (history s)) k"
    if k: "\<not> billing_key k" for k
  proof -
    have "\<forall>r\<in>set brows. history_key r \<noteq> k" using b(2) k by (auto simp: history_key_def)
    then have "get_row history_key (history s1) k =
        get_row history_key (fold put_history (resource_rows resources tenant m) (history s)) k"
      unfolding step(2) b(1) fold_append comp_apply by (rule hist.get_untouched)
    from hist.get_fold_cong [OF this] show ?thesis unfolding rest(2) [OF k] by simp
  qed
  then show ?case using step(1) rest(1) by auto
qed auto

lemma fold_apply_rows:
  assumes "tenant \<noteq> ''''" "\<forall>m\<in>set ms. dated m" "fold_apply resources tenant ms s = Inr s'" "\<not> billing_key k"
  shows "get_row history_key (history s') k =
    get_row history_key (fold put_history (concat (map (resource_rows resources tenant) ms)) (history s)) k"
proof -
  obtain s0 latest where run: "efold (apply_one resources tenant)
      (s, LatestFactValue s tenant BillingResourceType tenant BillingField) ms = Inr (s0, latest)"
    and rows: "\<And>k. \<not> billing_key k \<Longrightarrow> get_row history_key (history s0) k =
       get_row history_key (fold put_history (concat (map (resource_rows resources tenant) ms)) (history s)) k"
    using fold_batch_rows [OF assms(1,2)] by blast
  have "s0 = s'" using assms(3) run by (simp add: fold_apply_def)
  then show ?thesis using rows [OF assms(4)] by simp
qed


section \<open>The fold never stalls\<close>

lemma apply_one_progress:
  assumes "tenant \<noteq> ''''" "apply_one resources tenant (s, latest) m = Inr (s', latest')" "GetProgress s tenant = Some p"
  shows "GetProgress s' tenant = Some (p\<lparr>EventOffset := max (EventOffset p) (Message_Offset m + 1)\<rparr>)"
  using assms
  by (auto simp: apply_one_def Let_def skipEvent_def InsertFacts_def AdvanceEventOffset_def GetProgress_update
      GetProgress_def [of "_\<lparr>history := _\<rparr>"] GetProgress_def [of s]
      split: option.splits sum.splits if_splits)

lemma fold_apply_commits:
  assumes "tenant \<noteq> ''''" "GetProgress s tenant = Some p"
  shows "\<exists>s'. fold_apply resources tenant ms s = Inr s' \<and>
    GetProgress s' tenant = Some (p\<lparr>EventOffset := foldl max (EventOffset p) (map (\<lambda>m. Message_Offset m + 1) ms)\<rparr>)"
proof -
  have "\<exists>s' latest'. efold (apply_one resources tenant) (s, latest) ms = Inr (s', latest') \<and>
    GetProgress s' tenant = Some (p\<lparr>EventOffset := foldl max (EventOffset p) (map (\<lambda>m. Message_Offset m + 1) ms)\<rparr>)" for latest
    using assms(2)
  proof (induction ms arbitrary: s p latest)
    case (Cons m ms)
    from assms(1) obtain s1 latest1 where step: "apply_one resources tenant (s, latest) m = Inr (s1, latest1)"
      by (rule apply_one_cases) blast
    from Cons.IH [OF apply_one_progress [OF assms(1) step Cons.prems], of latest1] show ?case using step by simp
  qed simp
  then show ?thesis unfolding fold_apply_def by (auto simp: ebind_Inr_iff)
qed


text \<open>
  A tenant is never billed for another tenant's resource. A record whose payload names another
  tenant writes nothing: history and the running billing account stay as they are and only the offset
  moves.
\<close>

lemma foreign_event_writes_nothing:
  assumes "tenant \<noteq> ''''" "Message_Event m = Some event" "Change_Payload event = Some (resourceType, payload)"
    "nonZero payload" "stringOf payload ''metadata.tenant'' \<notin> {'''', tenant}"
  shows "apply_one resources tenant (s, latest) m = Inr (AdvanceEventOffset tenant (Message_Offset m + 1) s, latest)"
proof -
  have "Facts resources tenant event = Inl (ForeignTenant (stringOf payload ''metadata.tenant'') tenant)"
    using assms by (simp add: Facts_def Let_def)
  then show ?thesis using assms(2) by (auto simp: apply_one_def skipEvent_def Let_def split: sum.splits option.splits)
qed

section \<open>Invariants of history\<close>

definition history_sound :: "store \<Rightarrow> bool" where
  "history_sound s \<longleftrightarrow>
     (\<forall>(t, rt, rid, field, since)\<in>set (map history_key (history s)).
        whole_second since \<and>
        (rt \<noteq> BillingResourceType \<longrightarrow> (\<exists>since'. (t, rt, rid, ''created'', since') \<in> set (map history_key (history s)))))"

definition keys_sound :: "(string \<times> string \<times> string \<times> string \<times> time) set \<Rightarrow> bool" where
  "keys_sound K \<longleftrightarrow>
     (\<forall>(t, rt, rid, field, since)\<in>K. whole_second since \<and>
        (rt \<noteq> BillingResourceType \<longrightarrow> (\<exists>since'. (t, rt, rid, ''created'', since') \<in> K)))"

lemma history_sound_keys: "history_sound s \<longleftrightarrow> keys_sound (set (map history_key (history s)))"
  by (simp add: history_sound_def keys_sound_def)

lemma fold_put_keys: "set (map history_key (fold put_history rs rows)) = history_key ` set rs \<union> set (map history_key rows)"
proof (induction rs arbitrary: rows)
  case (Cons r rs)
  then show ?case using upsert_keys [of history_key r rows] by (auto simp: put_history_def)
qed simp

lemma keys_sound_Un: "keys_sound K \<Longrightarrow> keys_sound L \<Longrightarrow> keys_sound (K \<union> L)"
  unfolding keys_sound_def by fast

definition one_resource :: "string \<Rightarrow> string \<Rightarrow> fact list \<Rightarrow> bool" where
  "one_resource rt rid facts \<longleftrightarrow> (\<exists>since v. mk_fact rt rid ''created'' since v \<in> set facts) \<and>
     (\<forall>f\<in>set facts. Fact_ResourceType f = rt \<and> Fact_ResourceID f = rid \<and> whole_second (Fact_Since f))"

lemma mk_fact_fields [simp]:
  "Fact_ResourceType (mk_fact rt rid f t v) = rt" "Fact_ResourceID (mk_fact rt rid f t v) = rid"
  "Fact_Field (mk_fact rt rid f t v) = f" "Fact_Since (mk_fact rt rid f t v) = truncate_second t"
  by (simp_all add: mk_fact_def)

lemma payload_facts_one_resource: "one_resource rt rid (payload_facts rt rid payload creation resource)"
  by (auto simp: one_resource_def payload_facts_def Let_def split: option.splits if_splits)

lemma one_resource_snoc: "one_resource rt rid facts \<Longrightarrow> one_resource rt rid (facts @ [mk_fact rt rid f t v])"
  by (auto simp: one_resource_def)

lemma Facts_shape:
  assumes "Facts resources tenant event = Inr facts"
  shows "facts = [] \<or> (\<exists>rt rid. one_resource rt rid facts)"
  using assms
  by (auto simp: Facts_def Let_def split: if_splits option.splits prod.splits
      intro: payload_facts_one_resource one_resource_snoc)

lemma resource_rows_sound: "keys_sound (history_key ` set (resource_rows resources tenant m))"
proof (cases "\<exists>event facts. Message_Event m = Some event \<and> Facts resources tenant event = Inr facts \<and> facts \<noteq> []")
  case True
  then obtain event facts where ev: "Message_Event m = Some event" "Facts resources tenant event = Inr facts" "facts \<noteq> []"
    by blast
  from Facts_shape [OF ev(2)] ev(3) obtain rt rid where one: "one_resource rt rid facts" by blast
  then obtain since v where created: "mk_fact rt rid ''created'' since v \<in> set facts" by (auto simp: one_resource_def)
  have keys: "history_key ` set (resource_rows resources tenant m) =
      (\<lambda>f. (tenant, Fact_ResourceType f, Fact_ResourceID f, Fact_Field f, Fact_Since f)) ` set facts"
    using ev by (simp add: resource_rows_def image_image history_key_def row_of_def)
  have "(tenant, rt, rid, ''created'', truncate_second since) \<in> history_key ` set (resource_rows resources tenant m)"
    unfolding keys using imageI [OF created, of "\<lambda>f. (tenant, Fact_ResourceType f, Fact_ResourceID f, Fact_Field f, Fact_Since f)"]
    by simp
  then show ?thesis using one unfolding keys keys_sound_def one_resource_def by auto
next
  case False
  then have "resource_rows resources tenant m = []"
    by (auto simp: resource_rows_def split: option.splits sum.splits)
  then show ?thesis by (simp add: keys_sound_def)
qed

lemma fold_apply_invariant:
  assumes "fold_apply resources tenant ms s = Inr s'" "P s"
    and step: "\<And>s latest m s' latest'. P s \<Longrightarrow> apply_one resources tenant (s, latest) m = Inr (s', latest') \<Longrightarrow> P s'"
  shows "P s'"
proof -
  let ?start = "(s, LatestFactValue s tenant BillingResourceType tenant BillingField)"
  from assms(1) obtain latest where run: "efold (apply_one resources tenant) ?start ms = Inr (s', latest)"
    by (auto simp: fold_apply_def ebind_Inr_iff)
  have "P (fst (s', latest))"
  proof (rule efold_invariant [OF run, of "\<lambda>st. P (fst st)"])
    fix st m st' assume "P (fst st)" "apply_one resources tenant st m = Inr st'"
    then show "P (fst st')" using step [of "fst st" "snd st" m "fst st'" "snd st'"] by simp
  qed (use assms(2) in simp)
  then show ?thesis by simp
qed

text \<open>
  C25: history stays sound. A batch that commits keeps every boundary on a whole second and a creation
  fact for every resource that has any fact, whatever the events hold and whatever they arrive.
\<close>

theorem fold_keeps_history_sound:
  assumes "history_sound s" "fold_apply resources tenant ms s = Inr s'"
  shows "history_sound s'"
proof -
  have brows: "keys_sound (history_key ` R)" if "\<forall>r\<in>R. billing_row r" for R
    using that by (auto simp: keys_sound_def history_key_def)
  have step: "history_sound s'" if "history_sound s" "apply_one resources tenant (s, latest) m = Inr (s', latest')"
    for s s' latest latest' m
  proof (cases "tenant = ''''")
    case True
    have "history s' = history s"
      using True that(2) by (auto simp: apply_one_def Facts_def Let_def split: option.splits sum.splits)
    then show ?thesis using that(1) by (simp add: history_sound_def)
  next
    case False
    then obtain s1 latest1 rows where one: "apply_one resources tenant (s, latest) m = Inr (s1, latest1)"
      "history s1 = fold put_history rows (history s)"
      "\<exists>brows. (rows = resource_rows resources tenant m @ brows \<or> rows = brows) \<and> (\<forall>r\<in>set brows. billing_row r)"
      by (rule apply_one_cases) blast
    from one(3) have "keys_sound (history_key ` set rows)"
      using brows resource_rows_sound [of resources tenant m] keys_sound_Un by (auto simp: image_Un)
    then have "history_sound s1"
      using that(1) keys_sound_Un unfolding history_sound_keys one(2) fold_put_keys by blast
    then show ?thesis using one(1) that(2) by simp
  qed
  show ?thesis by (rule fold_apply_invariant [where P = history_sound, OF assms(2,1) step])
qed

section \<open>On a volume's creation event\<close>

definition volume_payload :: "string \<Rightarrow> proto_value" where
  "volume_payload tenant = PMessage True
     [(''id'', PString ''v1''),
      (''metadata'', PMessage True [(''tenant'', PString tenant), (''creation_timestamp'', PMessage True [(''seconds'', PInt 100)])]),
      (''status'', PMessage True [(''provisioned_size_gib'', PInt 5)])]"

definition volume_created :: "string \<Rightarrow> event_message" where
  "volume_created tenant = \<lparr>Message_Offset = 0, Message_Event = Some
     \<lparr>Change_Id = ''e1'', Change_Type = EVENT_TYPE_OBJECT_CREATED, Change_Timestamp = Some (100, 0),
      Change_Payload = Some (''Volume'', volume_payload tenant), Change_ExternalBillingId = ''''\<rparr>\<rparr>"

definition ready_store :: store where
  "ready_store = EnsureProgress ''acme'' empty_store"

lemma volume_dated: "dated (volume_created tenant)"
  by (simp add: dated_def volume_created_def timestamp_valid_def Unix_def)

lemma volume_folds: "\<exists>s1. fold_apply [volume_resource] ''acme'' [volume_created ''acme''] s = Inr s1"
proof -
  obtain s1 l where "efold (apply_one [volume_resource] ''acme'') (s, LatestFactValue s ''acme'' BillingResourceType ''acme'' BillingField)
      [volume_created ''acme''] = Inr (s1, l)"
    using fold_batch_rows [of "''acme''" "[volume_created ''acme'']"] volume_dated by (metis empty_iff list.discI list.set(1) set_ConsD)
  then show ?thesis by (simp add: fold_apply_def del: efold.simps)
qed



theorem fold_keeps_history_sound_witness:
  "history_sound ready_store \<and>
   (\<exists>s1. fold_apply [volume_resource] ''acme'' [volume_created ''acme''] ready_store = Inr s1 \<and> history_sound s1 \<and> history s1 \<noteq> [])"
proof -
  have start: "history_sound ready_store" by (simp add: history_sound_def ready_store_def empty_store_def EnsureProgress_def)
  obtain s1 where s1: "fold_apply [volume_resource] ''acme'' [volume_created ''acme''] ready_store = Inr s1" using volume_folds by blast
  have "case fold_apply [volume_resource] ''acme'' [volume_created ''acme''] ready_store of Inl _ \<Rightarrow> False | Inr s \<Rightarrow> history s \<noteq> []" by code_simp
  then show ?thesis using start s1 fold_keeps_history_sound [OF start s1] by simp
qed

end
