(* ===== verification/Fold_Loop.thy ===== *)
theory Fold_Loop
  imports Fold
begin

text \<open>
  The loop around the fold, \<^verbatim>\<open>RunTenant\<close> and \<^verbatim>\<open>drain\<close> of \<^verbatim>\<open>internal/fold/fold.go\<close>: opening a
  consumer at the stored offset, collecting a batch, applying it, and opening again when another pod is ahead. The
  pods that fold one tenant share the store; each has a consumer of its own. What Kafka answers when a consumer is
  opened, whether the database works, and what the consumers deliver are choices of the step relation \<open>fold_runs\<close>.
\<close>

section \<open>One pod's consumer\<close>

definition fold_BatchSize :: nat where "fold_BatchSize = 200"

text \<open>An open partition consumer and the variables of \<^verbatim>\<open>drain\<close>; \<open>Pod_Applied\<close> marks the moment after \<^verbatim>\<open>apply\<close>.\<close>

record fold_pod =
  Pod_Next :: int
  Pod_Messages :: "event_message list"
  Pod_SkippedFrom :: int
  Pod_Applied :: bool

datatype open_answer = Opened | OutOfRange bool | NotOpened

definition open_partition :: "open_answer \<Rightarrow> int \<Rightarrow> string \<Rightarrow> store \<Rightarrow> metering_error + fold_pod" where
  "open_partition answer oldest tenant s =
     (case GetProgress s tenant of
        None \<Rightarrow> Inl (NoProgress tenant)
      | Some p \<Rightarrow>
          (let opened = (\<lambda>n. Inr \<lparr>Pod_Next = n, Pod_Messages = [], Pod_SkippedFrom = EventOffset p, Pod_Applied = False\<rparr>)
           in case answer of
                Opened \<Rightarrow> opened (case startOffset (EventOffset p) of None \<Rightarrow> oldest | Some n \<Rightarrow> n)
              | OutOfRange reopened \<Rightarrow> if reopened then opened oldest else Inl ConsumeFailed
              | NotOpened \<Rightarrow> Inl ConsumeFailed))"

definition collect :: "event_message \<Rightarrow> fold_pod \<Rightarrow> fold_pod" where
  "collect message pod = pod\<lparr>Pod_Messages := Pod_Messages pod @ [message], Pod_Next := Message_Offset message + 1\<rparr>"

text \<open>\<^verbatim>\<open>apply\<close>, when the database may fail; the transaction then leaves the tables as they were.\<close>

definition apply_batch :: "registry_resource list \<Rightarrow> bool \<Rightarrow> string \<Rightarrow> event_message list \<Rightarrow> store \<Rightarrow> bool \<times> store" where
  "apply_batch resources committed tenant messages s =
     (if \<not> committed then (False, s)
      else case fold_apply resources tenant messages s of Inl e \<Rightarrow> (False, s) | Inr s' \<Rightarrow> (True, s'))"

text \<open>
  The parts of \<^verbatim>\<open>drain\<close> after a batch is collected: the report of a gap with the transaction, then the look at
  the stored offset. A result \<open>None\<close> is a return to \<^verbatim>\<open>RunTenant\<close>, with or without an error.
\<close>

definition drain_apply :: "registry_resource list \<Rightarrow> bool \<Rightarrow> string \<Rightarrow> fold_pod \<Rightarrow> store \<Rightarrow> int option \<times> fold_pod option \<times> store" where
  "drain_apply resources committed tenant pod s =
     (let messages = Pod_Messages pod;
          report = (if Pod_SkippedFrom pod \<ge> 0 then logSkipped (Pod_SkippedFrom pod) (Message_Offset (hd messages)) else None)
      in case apply_batch resources committed tenant messages s of
           (False, s') \<Rightarrow> (report, None, s')
         | (True, s') \<Rightarrow> (report, Some (pod\<lparr>Pod_SkippedFrom := - 1, Pod_Applied := True\<rparr>), s'))"

definition drain_look :: "bool \<Rightarrow> string \<Rightarrow> fold_pod \<Rightarrow> store \<Rightarrow> fold_pod option" where
  "drain_look readable tenant pod s =
     (if \<not> readable then None
      else case GetProgress s tenant of
        None \<Rightarrow> None
      | Some p \<Rightarrow> if EventOffset p > Message_Offset (last (Pod_Messages pod)) + 1 then None
                  else Some (pod\<lparr>Pod_Messages := [], Pod_Applied := False\<rparr>))"

text \<open>The returns of \<^verbatim>\<open>drain\<close> while it collects, when the stream closes or the context ends.\<close>

definition drain_end :: "registry_resource list \<Rightarrow> bool \<Rightarrow> string \<Rightarrow> fold_pod \<Rightarrow> store \<Rightarrow> bool \<times> store" where
  "drain_end resources committed tenant pod s =
     (if Pod_Messages pod \<noteq> [] then apply_batch resources committed tenant (Pod_Messages pod) s else (True, s))"

section \<open>The pods of a tenant\<close>

record fold_system =
  Fold_Store :: store
  Fold_Pods :: "nat \<Rightarrow> fold_pod option"
  Fold_Oldest :: int
  Fold_Reports :: "int list"

text \<open>
  A consumer delivers the records of the topic in order and leaves out only what retention deleted. Opening one may
  get any answer. Other loops of the tenant work on the store in between, without
  touching history or the event offset.
\<close>

definition delivers :: "event_message list \<Rightarrow> int \<Rightarrow> fold_pod \<Rightarrow> event_message \<Rightarrow> bool" where
  "delivers topic oldest pod message \<longleftrightarrow> message \<in> set topic \<and> Pod_Next pod \<le> Message_Offset message \<and>
     list_all (\<lambda>m. Pod_Next pod \<le> Message_Offset m \<and> Message_Offset m < Message_Offset message \<longrightarrow> Message_Offset m < oldest) topic"

definition event_offset :: "string \<Rightarrow> store \<Rightarrow> int option" where
  "event_offset tenant s = map_option EventOffset (GetProgress s tenant)"

inductive fold_runs :: "registry_resource list \<Rightarrow> string \<Rightarrow> event_message list \<Rightarrow> store \<Rightarrow> fold_system \<Rightarrow> bool"
  for resources :: "registry_resource list" and tenant :: string and topic :: "event_message list" and s0 :: store where
  fold_start: "fold_runs resources tenant topic s0
    \<lparr>Fold_Store = EnsureProgress tenant s0, Fold_Pods = \<lambda>_. None, Fold_Oldest = oldest, Fold_Reports = []\<rparr>"
| fold_open: "fold_runs resources tenant topic s0 sys \<Longrightarrow> Fold_Pods sys i = None \<Longrightarrow>
    open_partition answer (Fold_Oldest sys) tenant (Fold_Store sys) = Inr pod \<Longrightarrow>
    fold_runs resources tenant topic s0 (sys\<lparr>Fold_Pods := (Fold_Pods sys)(i \<mapsto> pod)\<rparr>)"
| fold_collect: "fold_runs resources tenant topic s0 sys \<Longrightarrow> Fold_Pods sys i = Some pod \<Longrightarrow> \<not> Pod_Applied pod \<Longrightarrow>
    length (Pod_Messages pod) < fold_BatchSize \<Longrightarrow> delivers topic (Fold_Oldest sys) pod message \<Longrightarrow>
    fold_runs resources tenant topic s0 (sys\<lparr>Fold_Pods := (Fold_Pods sys)(i \<mapsto> collect message pod)\<rparr>)"
| fold_batch: "fold_runs resources tenant topic s0 sys \<Longrightarrow> Fold_Pods sys i = Some pod \<Longrightarrow> \<not> Pod_Applied pod \<Longrightarrow> Pod_Messages pod \<noteq> [] \<Longrightarrow>
    drain_apply resources committed tenant pod (Fold_Store sys) = (report, next, s') \<Longrightarrow>
    fold_runs resources tenant topic s0 (sys\<lparr>Fold_Store := s', Fold_Pods := (Fold_Pods sys)(i := next),
      Fold_Reports := Fold_Reports sys @ (case report of None \<Rightarrow> [] | Some n \<Rightarrow> [n])\<rparr>)"
| fold_look: "fold_runs resources tenant topic s0 sys \<Longrightarrow> Fold_Pods sys i = Some pod \<Longrightarrow> Pod_Applied pod \<Longrightarrow>
    fold_runs resources tenant topic s0 (sys\<lparr>Fold_Pods := (Fold_Pods sys)(i := drain_look readable tenant pod (Fold_Store sys))\<rparr>)"
| fold_end: "fold_runs resources tenant topic s0 sys \<Longrightarrow> Fold_Pods sys i = Some pod \<Longrightarrow> \<not> Pod_Applied pod \<Longrightarrow>
    drain_end resources committed tenant pod (Fold_Store sys) = (ok, s') \<Longrightarrow>
    fold_runs resources tenant topic s0 (sys\<lparr>Fold_Store := s', Fold_Pods := (Fold_Pods sys)(i := None)\<rparr>)"
| fold_crash: "fold_runs resources tenant topic s0 sys \<Longrightarrow> fold_runs resources tenant topic s0 (sys\<lparr>Fold_Pods := (Fold_Pods sys)(i := None)\<rparr>)"
| fold_retention: "fold_runs resources tenant topic s0 sys \<Longrightarrow> Fold_Oldest sys \<le> oldest \<Longrightarrow>
    fold_runs resources tenant topic s0 (sys\<lparr>Fold_Oldest := oldest\<rparr>)"
| fold_other: "fold_runs resources tenant topic s0 sys \<Longrightarrow> history s' = history (Fold_Store sys) \<Longrightarrow>
    event_offset tenant s' = event_offset tenant (Fold_Store sys) \<Longrightarrow>
    fold_runs resources tenant topic s0 (sys\<lparr>Fold_Store := s'\<rparr>)"

section \<open>What a batch writes\<close>

definition written :: "registry_resource list \<Rightarrow> string \<Rightarrow> store \<Rightarrow> event_message \<Rightarrow> bool" where
  "written resources tenant s m \<longleftrightarrow> history_key ` set (resource_rows resources tenant m) \<subseteq> set (map history_key (history s))"

lemma written_mono: "written resources tenant s m \<Longrightarrow> set (map history_key (history s)) \<subseteq> set (map history_key (history s')) \<Longrightarrow> written resources tenant s' m"
  unfolding written_def by (rule subset_trans)

lemma apply_one_keys:
  assumes "tenant \<noteq> ''''" "apply_one resources tenant (s, latest) m = Inr (s', latest')"
  shows "set (map history_key (history s)) \<subseteq> set (map history_key (history s'))" "dated m \<Longrightarrow> written resources tenant s' m"
proof -
  from assms(1) obtain s1 latest1 rows where one: "apply_one resources tenant (s, latest) m = Inr (s1, latest1)"
    "history s1 = fold put_history rows (history s)"
    "dated m \<Longrightarrow> \<exists>brows. rows = resource_rows resources tenant m @ brows \<and> (\<forall>r\<in>set brows. billing_row r)"
    by (rule apply_one_cases) blast
  have "s1 = s'" using one(1) assms(2) by simp
  then have keys: "set (map history_key (history s')) = history_key ` set rows \<union> set (map history_key (history s))"
    using fold_put_keys one(2) by simp
  show "set (map history_key (history s)) \<subseteq> set (map history_key (history s'))" unfolding keys by blast
  show "written resources tenant s' m" if d: "dated m" unfolding written_def keys using one(3) [OF d] by auto
qed

lemma fold_apply_keys:
  assumes "tenant \<noteq> ''''" "fold_apply resources tenant ms s = Inr s'"
  shows "set (map history_key (history s)) \<subseteq> set (map history_key (history s'))" "\<forall>m\<in>set ms. dated m \<longrightarrow> written resources tenant s' m"
proof -
  have "set (map history_key (history s)) \<subseteq> set (map history_key (history s')) \<and> (\<forall>m\<in>set ms. dated m \<longrightarrow> written resources tenant s' m)"
    if "efold (apply_one resources tenant) (s, latest) ms = Inr (s', latest')" for s latest latest'
    using that
  proof (induction ms arbitrary: s latest)
    case (Cons m ms)
    from assms(1) obtain s1 latest1 where one: "apply_one resources tenant (s, latest) m = Inr (s1, latest1)"
      by (rule apply_one_cases) blast
    note rest = Cons.IH [of s1 latest1]
    have run: "efold (apply_one resources tenant) (s1, latest1) ms = Inr (s', latest')" using Cons.prems one by simp
    note k = apply_one_keys [OF assms(1) one]
    show ?case
    proof (intro conjI ballI impI)
      show "set (map history_key (history s)) \<subseteq> set (map history_key (history s'))" using k(1) rest [OF run] by (blast intro: subset_trans)
      show "written resources tenant s' x" if "x \<in> set (m # ms)" "dated x" for x
        using that rest [OF run] written_mono [OF k(2)] by (cases "x = m") simp_all
    qed
  qed simp
  moreover obtain latest' where "efold (apply_one resources tenant) (s, LatestFactValue s tenant BillingResourceType tenant BillingField) ms = Inr (s', latest')"
    using assms(2) by (auto simp: fold_apply_def ebind_Inr_iff)
  ultimately show "set (map history_key (history s)) \<subseteq> set (map history_key (history s'))" "\<forall>m\<in>set ms. dated m \<longrightarrow> written resources tenant s' m"
    by blast+
qed

lemma apply_batch_result:
  assumes "tenant \<noteq> ''''" "event_offset tenant s = Some e" "apply_batch resources committed tenant ms s = (ok, s')"
  shows "set (map history_key (history s)) \<subseteq> set (map history_key (history s'))"
    "event_offset tenant s' = Some (if ok then foldl max e (map (\<lambda>m. Message_Offset m + 1) ms) else e)"
    "ok \<Longrightarrow> \<forall>m\<in>set ms. dated m \<longrightarrow> written resources tenant s' m" "ok = committed"
proof -
  obtain p where p: "GetProgress s tenant = Some p" "e = EventOffset p" using assms(2) by (auto simp: event_offset_def)
  obtain s1 where s1: "fold_apply resources tenant ms s = Inr s1"
    "GetProgress s1 tenant = Some (p\<lparr>EventOffset := foldl max (EventOffset p) (map (\<lambda>m. Message_Offset m + 1) ms)\<rparr>)"
    using fold_apply_commits [OF assms(1) p(1)] by blast
  note keys = fold_apply_keys [OF assms(1) s1(1)]
  have r: "ok = committed" "s' = (if committed then s1 else s)" using assms(3) s1(1) by (auto simp: apply_batch_def split: if_splits)
  show "ok = committed" by (rule r(1))
  show "set (map history_key (history s)) \<subseteq> set (map history_key (history s'))" using keys(1) r(2) by (cases committed) simp_all
  show "event_offset tenant s' = Some (if ok then foldl max e (map (\<lambda>m. Message_Offset m + 1) ms) else e)"
    using r s1(2) p assms(2) by (simp add: event_offset_def)
  show "\<forall>m\<in>set ms. dated m \<longrightarrow> written resources tenant s' m" if ok using that r keys(2) by simp
qed

lemma foldl_max_le: "foldl max e ns \<le> b \<longleftrightarrow> e \<le> b \<and> (\<forall>n\<in>set ns. n \<le> b)" for e b :: int
  by (induction ns arbitrary: e) auto

section \<open>No retained record is passed over\<close>

text \<open>Below a bound, every dated record from the first on is in the history, deleted, or among the given ones.\<close>

definition covered :: "registry_resource list \<Rightarrow> string \<Rightarrow> event_message list \<Rightarrow> int \<Rightarrow> store \<Rightarrow> int \<Rightarrow> event_message list \<Rightarrow> int \<Rightarrow> bool" where
  "covered resources tenant topic first s oldest ms bound \<longleftrightarrow>
     (\<forall>m\<in>set topic. dated m \<and> first \<le> Message_Offset m \<and> Message_Offset m < bound \<longrightarrow>
        written resources tenant s m \<or> Message_Offset m < oldest \<or> m \<in> set ms)"

definition pod_inv :: "registry_resource list \<Rightarrow> string \<Rightarrow> event_message list \<Rightarrow> int \<Rightarrow> store \<Rightarrow> int \<Rightarrow> fold_pod \<Rightarrow> bool" where
  "pod_inv resources tenant topic first s oldest pod \<longleftrightarrow>
     covered resources tenant topic first s oldest (Pod_Messages pod) (Pod_Next pod) \<and>
     (\<forall>m\<in>set (Pod_Messages pod). Message_Offset m < Pod_Next pod) \<and>
     (Pod_Applied pod \<longrightarrow> (\<forall>m\<in>set (Pod_Messages pod). dated m \<longrightarrow> written resources tenant s m))"

definition fold_inv :: "registry_resource list \<Rightarrow> string \<Rightarrow> event_message list \<Rightarrow> int \<Rightarrow> fold_system \<Rightarrow> bool" where
  "fold_inv resources tenant topic first sys \<longleftrightarrow>
     (\<exists>e. event_offset tenant (Fold_Store sys) = Some e \<and> covered resources tenant topic first (Fold_Store sys) (Fold_Oldest sys) [] e) \<and>
     (\<forall>i pod. Fold_Pods sys i = Some pod \<longrightarrow> pod_inv resources tenant topic first (Fold_Store sys) (Fold_Oldest sys) pod)"

lemma covered_mono:
  assumes "covered resources tenant topic first s oldest ms bound" "set (map history_key (history s)) \<subseteq> set (map history_key (history s'))"
    "oldest \<le> oldest'" "set ms \<subseteq> set ms'" "bound' \<le> bound"
  shows "covered resources tenant topic first s' oldest' ms' bound'"
  unfolding covered_def
proof (intro ballI impI)
  fix m assume m: "m \<in> set topic" "dated m \<and> first \<le> Message_Offset m \<and> Message_Offset m < bound'"
  then have "written resources tenant s m \<or> Message_Offset m < oldest \<or> m \<in> set ms" using assms(1,5) unfolding covered_def by force
  then show "written resources tenant s' m \<or> Message_Offset m < oldest' \<or> m \<in> set ms'"
    using written_mono [OF _ assms(2)] assms(3,4) by auto
qed

lemma covered_written:
  "covered resources tenant topic first s oldest ms bound \<Longrightarrow> \<forall>m\<in>set ms. dated m \<longrightarrow> written resources tenant s m \<Longrightarrow>
   covered resources tenant topic first s oldest ms' bound"
  unfolding covered_def by blast

lemma pod_inv_mono:
  assumes "pod_inv resources tenant topic first s oldest pod" "set (map history_key (history s)) \<subseteq> set (map history_key (history s'))" "oldest \<le> oldest'"
  shows "pod_inv resources tenant topic first s' oldest' pod"
  using assms(1) covered_mono [OF _ assms(2,3) subset_refl order_refl] written_mono [OF _ assms(2)] unfolding pod_inv_def by blast

lemma fold_inv_pod:
  "fold_inv resources tenant topic first sys \<Longrightarrow>
   (\<And>pod. p = Some pod \<Longrightarrow> pod_inv resources tenant topic first (Fold_Store sys) (Fold_Oldest sys) pod) \<Longrightarrow>
   fold_inv resources tenant topic first (sys\<lparr>Fold_Pods := (Fold_Pods sys)(i := p)\<rparr>)"
  by (auto simp: fold_inv_def)

text \<open>A committed batch covers all its consumer has read.\<close>

lemma fold_inv_batch:
  assumes "tenant \<noteq> ''''" "fold_inv resources tenant topic first sys" "Fold_Pods sys i = Some pod"
    "apply_batch resources committed tenant (Pod_Messages pod) (Fold_Store sys) = (ok, s')"
  shows "fold_inv resources tenant topic first (sys\<lparr>Fold_Store := s', Fold_Pods := (Fold_Pods sys)(i := None)\<rparr>)"
    "ok \<Longrightarrow> covered resources tenant topic first s' (Fold_Oldest sys) ms (Pod_Next pod)"
    "ok \<Longrightarrow> \<forall>m\<in>set (Pod_Messages pod). dated m \<longrightarrow> written resources tenant s' m"
proof -
  obtain e where e: "event_offset tenant (Fold_Store sys) = Some e" "covered resources tenant topic first (Fold_Store sys) (Fold_Oldest sys) [] e"
    using assms(2) by (auto simp: fold_inv_def)
  have pod: "pod_inv resources tenant topic first (Fold_Store sys) (Fold_Oldest sys) pod" using assms(2,3) by (auto simp: fold_inv_def)
  note b = apply_batch_result [OF assms(1) e(1) assms(4)]
  let ?e = "if ok then foldl max e (map (\<lambda>m. Message_Offset m + 1) (Pod_Messages pod)) else e"
  have read: "covered resources tenant topic first s' (Fold_Oldest sys) ms (Pod_Next pod)" if ok for ms
    using covered_written [OF covered_mono [OF _ b(1) order_refl subset_refl order_refl]] pod b(3) [OF that] unfolding pod_inv_def by blast
  then show "ok \<Longrightarrow> covered resources tenant topic first s' (Fold_Oldest sys) ms (Pod_Next pod)" .
  show "ok \<Longrightarrow> \<forall>m\<in>set (Pod_Messages pod). dated m \<longrightarrow> written resources tenant s' m" by (rule b(3))
  have old: "covered resources tenant topic first s' (Fold_Oldest sys) [] e" by (rule covered_mono [OF e(2) b(1)]) simp_all
  have "covered resources tenant topic first s' (Fold_Oldest sys) [] ?e"
  proof (cases ok)
    case True
    have "?e \<le> max e (Pod_Next pod)" using True pod by (auto simp: foldl_max_le pod_inv_def)
    then show ?thesis using old read [OF True, of "[]"] unfolding covered_def by fastforce
  qed (use old in simp)
  moreover have "pod_inv resources tenant topic first s' (Fold_Oldest sys) pod'" if "Fold_Pods sys j = Some pod'" for j pod'
    using that assms(2) pod_inv_mono [OF _ b(1) order_refl] by (auto simp: fold_inv_def)
  ultimately show "fold_inv resources tenant topic first (sys\<lparr>Fold_Store := s', Fold_Pods := (Fold_Pods sys)(i := None)\<rparr>)"
    using b(2) unfolding fold_inv_def by auto
qed

lemma open_partition_next:
  assumes "open_partition answer oldest tenant s = Inr pod" "event_offset tenant s = Some e"
  shows "Pod_Next pod \<le> max oldest e" "Pod_Messages pod = []" "\<not> Pod_Applied pod"
  using assms by (auto simp: open_partition_def event_offset_def startOffset_def Let_def split: open_answer.splits if_splits option.splits)

lemma covered_deleted:
  "covered resources tenant topic first s oldest [] e \<Longrightarrow> bound \<le> max oldest e \<Longrightarrow> covered resources tenant topic first s oldest ms bound"
  unfolding covered_def by fastforce

lemma pod_inv_collect:
  assumes "pod_inv resources tenant topic first s oldest pod" "\<not> Pod_Applied pod" "delivers topic oldest pod message"
    "sorted_wrt (\<lambda>m m'. Message_Offset m < Message_Offset m') topic"
  shows "pod_inv resources tenant topic first s oldest (collect message pod)"
proof -
  have inj: "m = message" if "m \<in> set topic" "Message_Offset m = Message_Offset message" for m
  proof -
    have "sorted_wrt (<) (map Message_Offset topic)" using assms(4) by (simp add: sorted_wrt_map)
    then have "distinct (map Message_Offset topic)" by (simp add: strict_sorted_iff)
    then show ?thesis using that assms(3) by (auto simp: distinct_map inj_on_def delivers_def)
  qed
  have "written resources tenant s m \<or> Message_Offset m < oldest \<or> m \<in> set (Pod_Messages pod @ [message])"
    if m: "m \<in> set topic" "dated m \<and> first \<le> Message_Offset m \<and> Message_Offset m < Message_Offset message + 1" for m
  proof (cases "Message_Offset m < Pod_Next pod")
    case True
    then show ?thesis using assms(1) m unfolding pod_inv_def covered_def by auto
  next
    case False
    then show ?thesis using assms(3) m inj [OF m(1)] by (force simp: delivers_def list_all_iff)
  qed
  moreover have "\<forall>m\<in>set (Pod_Messages pod @ [message]). Message_Offset m < Message_Offset message + 1"
    using assms(1,3) by (force simp: pod_inv_def delivers_def)
  ultimately show ?thesis using assms(2) by (simp add: pod_inv_def covered_def collect_def)
qed

lemma drain_look_inv:
  assumes "pod_inv resources tenant topic first s oldest pod" "Pod_Applied pod" "drain_look readable tenant pod s' = Some pod'"
  shows "pod_inv resources tenant topic first s oldest pod'"
proof -
  have p: "pod' = pod\<lparr>Pod_Messages := [], Pod_Applied := False\<rparr>" using assms(3) by (auto simp: drain_look_def split: if_splits option.splits)
  have "covered resources tenant topic first s oldest [] (Pod_Next pod)"
    by (rule covered_written) (use assms(1,2) in \<open>auto simp: pod_inv_def\<close>)
  then show ?thesis by (simp add: p pod_inv_def)
qed

lemma fold_runs_inv:
  assumes "tenant \<noteq> ''''" "sorted_wrt (\<lambda>m m'. Message_Offset m < Message_Offset m') topic" "event_offset tenant (EnsureProgress tenant s0) = Some first"
  shows "fold_runs resources tenant topic s0 sys \<Longrightarrow> fold_inv resources tenant topic first sys"
proof (induction rule: fold_runs.induct)
  case (fold_start oldest)
  then show ?case using assms(3) by (simp add: fold_inv_def covered_def)
next
  case (fold_open sys i answer pod)
  obtain e where e: "event_offset tenant (Fold_Store sys) = Some e" "covered resources tenant topic first (Fold_Store sys) (Fold_Oldest sys) [] e"
    using fold_open.IH by (auto simp: fold_inv_def)
  note o = open_partition_next [OF fold_open.hyps(3) e(1)]
  have "pod_inv resources tenant topic first (Fold_Store sys) (Fold_Oldest sys) pod"
    using covered_deleted [OF e(2) o(1)] o(2,3) by (simp add: pod_inv_def)
  then show ?case by (intro fold_inv_pod [OF fold_open.IH]) simp
next
  case (fold_collect sys i pod message)
  have "pod_inv resources tenant topic first (Fold_Store sys) (Fold_Oldest sys) pod" using fold_collect.IH fold_collect.hyps(2) by (auto simp: fold_inv_def)
  from pod_inv_collect [OF this fold_collect.hyps(3,5) assms(2)] show ?case by (intro fold_inv_pod [OF fold_collect.IH]) simp
next
  case (fold_batch sys i pod committed report "next" s')
  obtain ok where b: "apply_batch resources committed tenant (Pod_Messages pod) (Fold_Store sys) = (ok, s')"
    "next = (if ok then Some (pod\<lparr>Pod_SkippedFrom := - 1, Pod_Applied := True\<rparr>) else None)"
    using fold_batch.hyps(5) by (auto simp: drain_apply_def Let_def split: prod.splits bool.splits)
  note inv = fold_inv_batch [OF assms(1) fold_batch.IH fold_batch.hyps(2) b(1)]
  have pod: "\<forall>m\<in>set (Pod_Messages pod). Message_Offset m < Pod_Next pod"
    using fold_batch.IH fold_batch.hyps(2) by (auto simp: fold_inv_def pod_inv_def)
  have "fold_inv resources tenant topic first (sys\<lparr>Fold_Store := s', Fold_Pods := (Fold_Pods sys)(i := None)\<rparr>
      \<lparr>Fold_Pods := ((Fold_Pods sys)(i := None))(i := next)\<rparr>)"
    using fold_inv_pod [OF inv(1), of "next" i] inv(2,3) pod b(2) by (auto simp: pod_inv_def split: if_splits)
  then show ?case by (simp add: fold_inv_def)
next
  case (fold_look sys i pod readable)
  have "pod_inv resources tenant topic first (Fold_Store sys) (Fold_Oldest sys) pod" using fold_look.IH fold_look.hyps(2) by (auto simp: fold_inv_def)
  from drain_look_inv [OF this fold_look.hyps(3)] show ?case by (intro fold_inv_pod [OF fold_look.IH]) simp
next
  case (fold_end sys i pod committed ok s')
  show ?case
  proof (cases "Pod_Messages pod = []")
    case True
    then have "s' = Fold_Store sys" using fold_end.hyps(4) by (simp add: drain_end_def)
    then show ?thesis using fold_inv_pod [OF fold_end.IH, of None i] by (simp add: fold_inv_def)
  next
    case False
    then show ?thesis using fold_inv_batch(1) [OF assms(1) fold_end.IH fold_end.hyps(2)] fold_end.hyps(4) by (simp add: drain_end_def)
  qed
next
  case (fold_crash sys i)
  show ?case by (rule fold_inv_pod [OF fold_crash.IH]) simp
next
  case (fold_retention sys oldest)
  then show ?case using covered_mono [OF _ subset_refl fold_retention.hyps(2) subset_refl order_refl]
      pod_inv_mono [OF _ subset_refl fold_retention.hyps(2)] by (auto simp: fold_inv_def)
next
  case (fold_other sys s')
  have "written resources tenant s' = written resources tenant (Fold_Store sys)" using fold_other.hyps(2) by (simp add: written_def fun_eq_iff)
  then show ?case using fold_other.IH fold_other.hyps(3) by (simp add: fold_inv_def pod_inv_def covered_def)
qed


section \<open>Gaps\<close>

text \<open>The report of a batch that is applied in the loop names every event between the stored offset and the first one read.\<close>

lemma batch_reports_gap:
  assumes "Pod_Messages pod = m # ms" "0 \<le> Pod_SkippedFrom pod" "Pod_SkippedFrom pod < Message_Offset m"
  shows "fst (drain_apply resources committed tenant pod s) = Some (Message_Offset m - Pod_SkippedFrom pod)"
  using assms by (simp add: drain_apply_def logSkipped_def Let_def split: prod.splits bool.splits)

text \<open>
  After a topic was created anew below the stored offset, a consumer starts at the oldest record and is left after
  its first batch, as if another pod were ahead: the fold reads the same batch again until the topic has grown past the
  stored offset.
\<close>

lemma recreated_topic_repeats_its_first_batch:
  assumes "GetProgress s tenant = Some p" "open_partition (OutOfRange True) oldest tenant s = Inr pod"
  shows "Pod_Next pod = oldest \<and>
    (Pod_Messages pod' \<noteq> [] \<and> Message_Offset (last (Pod_Messages pod')) + 1 < EventOffset p \<longrightarrow> drain_look readable tenant pod' s = None)"
  using assms by (auto simp: open_partition_def drain_look_def Let_def)

definition first_pod :: "int \<Rightarrow> fold_pod" where
  "first_pod oldest = \<lparr>Pod_Next = oldest, Pod_Messages = [], Pod_SkippedFrom = 0, Pod_Applied = False\<rparr>"

lemma one_event_collected:
  fixes m :: event_message and oldest :: int
  defines "pod \<equiv> collect m (first_pod oldest)"
  assumes "delivers [m] oldest (first_pod oldest) m"
  shows "fold_runs resources ''acme'' [m] empty_store
    \<lparr>Fold_Store = ready_store, Fold_Pods = (\<lambda>_. None)(0 \<mapsto> pod), Fold_Oldest = oldest, Fold_Reports = []\<rparr>"
proof -
  let ?sys = "\<lambda>pods. \<lparr>Fold_Store = ready_store, Fold_Pods = pods, Fold_Oldest = oldest, Fold_Reports = []\<rparr>"
  have start: "fold_runs resources ''acme'' [m] empty_store (?sys (\<lambda>_. None))"
    using fold_start [of resources "''acme''" "[m]" empty_store oldest] by (simp add: ready_store_def)
  have p: "GetProgress ready_store ''acme'' = Some new_progress" by code_simp
  have "open_partition Opened oldest ''acme'' ready_store = Inr (first_pod oldest)"
    by (simp add: open_partition_def p startOffset_def new_progress_def first_pod_def)
  then have "fold_runs resources ''acme'' [m] empty_store (?sys ((\<lambda>_. None)(0 \<mapsto> first_pod oldest)))"
    using fold_open [OF start, of 0 Opened] by simp
  from fold_collect [OF this, of 0 "first_pod oldest" m] assms(2) show ?thesis
    by (simp add: first_pod_def fold_BatchSize_def pod_def)
qed

text \<open>
  A gap is reported with the first batch only when the loop applies it. When the stream closes while the first batch
  is still being collected, the batch is applied and the stored offset moves over the gap, but nothing is reported.
\<close>

lemma closing_stream_hides_gap:
  "\<exists>sys. fold_runs [volume_resource] ''acme'' [(volume_created ''acme'')\<lparr>Message_Offset := 7\<rparr>] empty_store sys \<and>
     Fold_Oldest sys = 7 \<and> event_offset ''acme'' (Fold_Store sys) = Some 8 \<and> Fold_Reports sys = []"
proof -
  let ?m = "(volume_created ''acme'')\<lparr>Message_Offset := 7\<rparr>"
  have run: "fold_runs [volume_resource] ''acme'' [?m] empty_store
      \<lparr>Fold_Store = ready_store, Fold_Pods = (\<lambda>_. None)(0 \<mapsto> collect ?m (first_pod 7)), Fold_Oldest = 7, Fold_Reports = []\<rparr>"
    by (rule one_event_collected) (simp add: delivers_def first_pod_def)
  obtain ok s' where e: "drain_end [volume_resource] True ''acme'' (collect ?m (first_pod 7)) ready_store = (ok, s')" by (metis surj_pair)
  have "apply_batch [volume_resource] True ''acme'' [?m] ready_store = (ok, s')" using e by (simp add: drain_end_def collect_def first_pod_def)
  moreover have "event_offset ''acme'' ready_store = Some 0" by code_simp
  ultimately have "event_offset ''acme'' s' = Some 8" using apply_batch_result(2,4) [of "''acme''" ready_store 0] by fastforce
  then show ?thesis using fold_end [OF run, of 0 "collect ?m (first_pod 7)" True ok s'] e
    by (intro exI [of _ "\<lparr>Fold_Store = s', Fold_Pods = (\<lambda>_. None)(0 := None), Fold_Oldest = 7, Fold_Reports = []\<rparr>"])
      (simp add: collect_def first_pod_def)
qed


end
