(* ===== verification/Usage_Engine.thy ===== *)
theory Usage_Engine
  imports Metering_Rules Metering_Types Go_Stdlib
begin

text \<open>
  The usage calculator of \<^verbatim>\<open>internal/usage/engine.go\<close>: expected usage as a function of a resource's
  history, the rule revisions and the round time. The first sections are the code, in the order it has
  it; the theorems follow in \<open>Usage_Correctness\<close>.
\<close>

section \<open>Pieces and rounding\<close>

definition MinBillableRun :: duration where
  "MinBillableRun = second"

record piece =
  Piece_Key :: ledger_key
  Piece_StartTime :: time
  Piece_EndTime :: time
  Piece_RateMicro :: int
  Piece_Pending :: bool
  Piece_Unit :: string
  Piece_Revision :: string

definition RationalToMicro :: "rat \<Rightarrow> metering_error + int" where
  "RationalToMicro quantity =
     (let (sign, value) = (if quantity < 0 then (- 1, - quantity) else (1, quantity));
          (num, den) = quotient_of value;
          doubledNum = 2 * num + den;
          doubledDen = 2 * den;
          quotient = doubledNum div doubledDen
      in if \<not> is_int64 quotient then Inl (QuantityDoesNotFit value)
         else Inr (wrap64 (sign * quotient)))"

definition QuantityMicro :: "piece \<Rightarrow> metering_error + int" where
  "QuantityMicro p =
     (if Piece_Pending p then Inr 0
      else
        (let durationMicro = Microseconds (time_sub (Piece_EndTime p) (Piece_StartTime p));
             quantity = (of_int (Piece_RateMicro p) / 1000000) * of_int durationMicro
         in RationalToMicro quantity))"

section \<open>The calculator\<close>

definition ownersOf :: "registry_resource list \<Rightarrow> metering_error + (string \<times> owner_spec) list" where
  "ownersOf resources =
     ebind (efold (\<lambda>(owners, rootFields) resource.
         let name = ShortName (Resource_Message resource);
             ownerFields = filter (\<lambda>f. Field_OwnerResource f \<noteq> '''') (Resource_Fields resource)
         in case ownerFields of
              [] \<Rightarrow> Inr (owners, rootFields)
            | [field] \<Rightarrow>
                (case map_of rootFields (Field_OwnerResource field) of
                   Some previous \<Rightarrow>
                     if previous \<noteq> Field_Path field
                     then Inl (OwnedThroughTwoFields (Field_OwnerResource field) previous (Field_Path field))
                     else Inr (AList.update name
                            \<lparr>Owner_Field = Field_Path field, Owner_Resource = Field_OwnerResource field\<rparr> owners,
                          rootFields)
                 | None \<Rightarrow>
                     Inr (AList.update name
                            \<lparr>Owner_Field = Field_Path field, Owner_Resource = Field_OwnerResource field\<rparr> owners,
                          AList.update (Field_OwnerResource field) (Field_Path field) rootFields))
            | f0 # f1 # _ \<Rightarrow> Inl (TwoOwnerFields name (Field_Path f0) (Field_Path f1)))
       ([], []) resources) (\<lambda>(owners, _). Inr owners)"

record root =
  Root_Type :: string
  Root_ID :: string
  Root_Facts :: "fact list"

record calculator =
  Calc_Revisions :: "revision list"
  Calc_DeploymentID :: string
  Calc_Owners :: "(string \<times> owner_spec) list"

definition NewCalculator ::
  "revision list \<Rightarrow> string \<Rightarrow> (string \<times> owner_spec) list \<Rightarrow> calculator" where
  "NewCalculator revisions deploymentID owners =
     \<lparr>Calc_Revisions = sort_key Revision_EffectiveAt revisions, Calc_DeploymentID = deploymentID,
      Calc_Owners = owners\<rparr>"

definition OwnerOf :: "calculator \<Rightarrow> string \<Rightarrow> fact list \<Rightarrow> (string \<times> string) option" where
  "OwnerOf c resourceType facts =
     (case map_of (Calc_Owners c) resourceType of
        None \<Rightarrow> None
      | Some spec \<Rightarrow>
          (case find (\<lambda>entry. Fact_Field entry = Owner_Field spec \<and> Fact_Value entry \<noteq> '''') facts of
             None \<Rightarrow> None
           | Some entry \<Rightarrow> Some (Owner_Resource spec, Fact_Value entry)))"

text \<open>
  The Go loop ranges over a map; \<open>ownersOf\<close> refuses a root that two fields refer to, so every
  matching entry names the same field.
\<close>

definition OwnedFieldOf :: "calculator \<Rightarrow> string \<Rightarrow> string option" where
  "OwnedFieldOf c rootType =
     map_option (\<lambda>(_, spec). Owner_Field spec)
       (find (\<lambda>(_, spec). Owner_Resource spec = rootType) (Calc_Owners c))"

section \<open>Timelines\<close>

type_synonym timeline = "(time \<times> string) list"

fun valueAt_from :: "string option \<Rightarrow> timeline \<Rightarrow> time \<Rightarrow> string option" where
  "valueAt_from result [] moment = result"
| "valueAt_from result ((since, value) # entries) moment =
     (if since > moment then result else valueAt_from (Some value) entries moment)"

definition valueAt :: "timeline \<Rightarrow> time \<Rightarrow> string option" where
  "valueAt t moment = valueAt_from None t moment"

text \<open>
  The timelines of a history: one per field, in time order, without the creation and the deletion.
  A field without facts has the empty timeline, as a missing key of the Go map.
\<close>

definition timelines_of :: "fact list \<Rightarrow> string \<Rightarrow> timeline" where
  "timelines_of facts field =
     (if field = ''created'' \<or> field = ''deleted'' then []
      else sort_key fst
             (map (\<lambda>f. (Fact_Since f, Fact_Value f)) (filter (\<lambda>f. Fact_Field f = field) facts)))"

definition last_since :: "string \<Rightarrow> fact list \<Rightarrow> time" where
  "last_since field facts =
     foldl (\<lambda>t f. if Fact_Field f = field then Fact_Since f else t) zero_time facts"

definition root_states_of :: "root option \<Rightarrow> timeline" where
  "root_states_of r =
     (case r of None \<Rightarrow> []
      | Some r \<Rightarrow> sort_key fst
          (map (\<lambda>f. (Fact_Since f, Fact_Value f))
             (filter (\<lambda>f. Fact_Field f = ''status.state'') (Root_Facts r))))"

definition root_deletion_of :: "root option \<Rightarrow> time" where
  "root_deletion_of r = (case r of None \<Rightarrow> zero_time | Some r \<Rightarrow> last_since ''deleted'' (Root_Facts r))"

section \<open>Billable runs\<close>

record run =
  Run_Start :: time
  Run_End :: time
  Run_Closed :: bool

definition conditionPaths :: "meter \<Rightarrow> string list" where
  "conditionPaths m = map (\<lambda>(name, _). fst (DimensionPath (Meter_Resource m) name)) (Fields (Meter_Billable m))"

definition conditionsHold :: "meter \<Rightarrow> string \<Rightarrow> (string \<Rightarrow> timeline) \<Rightarrow> time \<Rightarrow> bool" where
  "conditionsHold m resource timelines moment =
     list_all (\<lambda>(name, expected).
        case valueAt (timelines (fst (DimensionPath resource name))) moment of
          None \<Rightarrow> False
        | Some value \<Rightarrow> if expected = ''set'' then value \<noteq> '''' else value = expected)
       (Fields (Meter_Billable m))"

definition run_points :: "meter \<Rightarrow> (string \<Rightarrow> timeline) \<Rightarrow> time \<Rightarrow> time list" where
  "run_points m timelines end =
     remdups_adj (sort (
        filter (\<lambda>t. t < end) (map fst (timelines ''status.state'')) @
        concat (map (\<lambda>path. filter (\<lambda>t. t < end) (map fst (timelines path))) (conditionPaths m)) @
        [end]))"

definition billable_from :: "meter \<Rightarrow> (string \<Rightarrow> timeline) \<Rightarrow> time \<Rightarrow> bool" where
  "billable_from m timelines start =
     ((case valueAt (timelines ''status.state'') start of
         None \<Rightarrow> False | Some state \<Rightarrow> state \<in> set (States (Meter_Billable m))) \<and>
      conditionsHold m (Meter_Resource m) timelines start)"

definition add_run :: "meter \<Rightarrow> (string \<Rightarrow> timeline) \<Rightarrow> time \<Rightarrow> time \<Rightarrow> run list \<Rightarrow> time \<times> time \<Rightarrow> run list" where
  "add_run m timelines end deletion runs interval =
     (let (start, stop) = interval;
          closed = (stop < end \<or> (deletion \<noteq> zero_time \<and> stop = deletion))
      in if \<not> billable_from m timelines start then runs
         else if runs \<noteq> [] \<and> Run_End (last runs) = start
         then butlast runs @ [(last runs)\<lparr>Run_End := stop, Run_Closed := closed\<rparr>]
         else runs @ [\<lparr>Run_Start = start, Run_End = stop, Run_Closed = closed\<rparr>])"

definition billableRuns :: "meter \<Rightarrow> (string \<Rightarrow> timeline) \<Rightarrow> time \<Rightarrow> time \<Rightarrow> run list" where
  "billableRuns m timelines end deletion =
     (let states = timelines ''status.state'' in
      if states = [] \<or> fst (hd states) \<ge> end then []
      else foldl (add_run m timelines end deletion) [] (adj_pairs (run_points m timelines end)))"

section \<open>The gate\<close>

definition rootGate :: "calculator \<Rightarrow> string \<Rightarrow> string \<Rightarrow> string list" where
  "rootGate c revisionNumber rootType =
     (case find (\<lambda>r. Revision_Number r = revisionNumber) (Calc_Revisions c) of
        None \<Rightarrow> []
      | Some r \<Rightarrow>
          (case find (\<lambda>m. Meter_Resource m = rootType) (Revision_Meters r) of
             None \<Rightarrow> []
           | Some m \<Rightarrow> TurnsBillableOnce (Meter_Billable m)))"

definition gateOpen ::
  "calculator \<Rightarrow> meter \<Rightarrow> string \<Rightarrow> (string \<Rightarrow> timeline) \<Rightarrow> time \<Rightarrow> root option \<Rightarrow> run \<Rightarrow> bool" where
  "gateOpen c m revisionNumber timelines deletion oroot r =
     (let inherited = (oroot \<noteq> None \<and> TurnsBillableOnceFrom (Meter_Billable m) \<noteq> ''self'');
          gate = (if inherited then rootGate c revisionNumber (Root_Type (the oroot))
                  else TurnsBillableOnce (Meter_Billable m));
          states = (if inherited then root_states_of oroot else timelines ''status.state'');
          clamp = (if inherited then root_deletion_of oroot else deletion)
      in gate = [] \<or>
         list_ex (\<lambda>(since, value). value \<in> set gate)
           (takeWhile (\<lambda>(since, value). since < Run_End r \<and> \<not> (clamp \<noteq> zero_time \<and> \<not> since < clamp)) states))"

section \<open>Splitting and building pieces\<close>

definition NextMidnight :: "time \<Rightarrow> time" where
  "NextMidnight moment = (moment div day + 1) * day"

function midnights :: "time \<Rightarrow> time \<Rightarrow> time list" where
  "midnights midnight stop = (if midnight < stop then midnight # midnights (midnight + day) stop else [])"
  by pat_completeness auto
termination
  by (relation "measure (\<lambda>(midnight, stop). nat (stop - midnight))") auto

declare midnights.simps [simp del]

definition splitByFieldChangesAndMidnights ::
  "meter \<Rightarrow> string \<Rightarrow> (string \<Rightarrow> timeline) \<Rightarrow> time \<Rightarrow> time \<Rightarrow> (time \<times> time) list" where
  "splitByFieldChangesAndMidnights m resourceType timelines start stop =
     (let fields = Meter_Dimensions m @ (if Meter_Multiplier m \<noteq> '''' then [Meter_Multiplier m] else []);
          points = [start, stop] @
            concat (map (\<lambda>name. filter (\<lambda>t. t > start \<and> t < stop)
                (map fst (timelines (fst (DimensionPath resourceType name))))) fields) @
            midnights (NextMidnight start) stop;
          spans = filter (\<lambda>(a, b). b > a) (adj_pairs (sort points))
      in if spans = [] then [(start, stop)] else spans)"

definition ipFamilyOf :: "string \<Rightarrow> string" where
  "ipFamilyOf address =
     (case ParseAddr address of None \<Rightarrow> '''' | Some IPv6 \<Rightarrow> ''ipv6'' | Some IPv4 \<Rightarrow> ''ipv4'')"

definition parseMicro :: "string \<Rightarrow> metering_error + int" where
  "parseMicro txt =
     (case RatSetString txt of
        None \<Rightarrow> Inl (NotADecimalNumber txt)
      | Some rational \<Rightarrow>
          (let scaled = rational * 1000000; (num, den) = quotient_of scaled in
           if den \<noteq> 1 then Inl (NeedsMoreThanSixDecimals txt)
           else if scaled < 0 then Inl (NumberIsNegative txt)
           else if \<not> is_int64 num then Inl (NumberDoesNotFit txt)
           else Inr num))"

text \<open>The dimensions of a piece, as the association list of the Go map.\<close>

definition piece_dimensions ::
  "calculator \<Rightarrow> meter \<Rightarrow> string \<Rightarrow> string \<Rightarrow> (string \<Rightarrow> timeline) \<Rightarrow> time \<Rightarrow> (string \<times> string) list" where
  "piece_dimensions c m tenant resourceType timelines start =
     (let base = [(''deployment'', Calc_DeploymentID c), (''tenant'', tenant), (''meter_type'', Meter_Unit m)];
          identity = foldl (\<lambda>d (name, field).
             if field = '''' then d
             else case valueAt (timelines field) start of
                    None \<Rightarrow> d
                  | Some value \<Rightarrow> if value = '''' then d else AList.update name value d) base IdentityDimensions
      in foldl (\<lambda>d dimension.
             case valueAt (timelines (fst (DimensionPath resourceType dimension))) start of
               None \<Rightarrow> d
             | Some value \<Rightarrow>
                 if value = '''' then d
                 else (let value' = (if dimension = ''ip_family'' then ipFamilyOf value else value)
                       in if value' = '''' then d else AList.update dimension value' d))
           identity (Meter_Dimensions m))"

definition piece_rate :: "meter \<Rightarrow> string \<Rightarrow> (string \<Rightarrow> timeline) \<Rightarrow> time \<Rightarrow> metering_error + int" where
  "piece_rate m resourceType timelines start =
     (if Meter_Multiplier m = '''' then Inr 1000000
      else case valueAt (timelines (fst (DimensionPath resourceType (Meter_Multiplier m)))) start of
             None \<Rightarrow> Inr 0
           | Some value \<Rightarrow>
               if value = '''' then Inr 0
               else (case parseMicro value of
                       Inl e \<Rightarrow> Inl (MultiplierIsNotANumber (Meter_Meter m) (Meter_Resource m) value e)
                     | Inr rate \<Rightarrow> Inr rate))"

definition mk_piece ::
  "calculator \<Rightarrow> meter \<Rightarrow> string \<Rightarrow> string \<Rightarrow> string \<Rightarrow> string \<Rightarrow> (string \<Rightarrow> timeline)
     \<Rightarrow> time \<Rightarrow> time \<Rightarrow> bool \<Rightarrow> metering_error + piece" where
  "mk_piece c m tenant resourceType resourceID revisionNumber timelines start stop pending =
     ebind (piece_rate m resourceType timelines start) (\<lambda>rate.
       Inr \<lparr>Piece_Key = \<lparr>Key_ResourceType = resourceType, Key_ResourceID = resourceID,
                Key_Meter = Meter_Meter m, Key_Component = EffectiveComponent m,
                Key_Dimensions = json_Marshal (piece_dimensions c m tenant resourceType timelines start)\<rparr>,
            Piece_StartTime = start, Piece_EndTime = stop, Piece_RateMicro = rate,
            Piece_Pending = pending, Piece_Unit = Meter_Unit m, Piece_Revision = revisionNumber\<rparr>)"

section \<open>The pieces of one meter and of one resource\<close>

definition run_pieces ::
  "calculator \<Rightarrow> meter \<Rightarrow> string \<Rightarrow> string \<Rightarrow> string \<Rightarrow> string \<Rightarrow> (string \<Rightarrow> timeline) \<Rightarrow> root option
     \<Rightarrow> time \<Rightarrow> time \<Rightarrow> time \<Rightarrow> time \<Rightarrow> run \<Rightarrow> metering_error + piece list" where
  "run_pieces c m tenant resourceType resourceID revisionNumber timelines oroot wStart wEnd upTo deletion r =
     (if \<not> gateOpen c m revisionNumber timelines deletion oroot r then Inr []
      else
        (let start = (if Run_Start r < wStart then wStart else Run_Start r);
             stop = (if Run_End r > wEnd then wEnd else Run_End r)
         in if \<not> start < stop then Inr []
            else traverse (\<lambda>(a, b). mk_piece c m tenant resourceType resourceID revisionNumber timelines a b
                             (\<not> Run_Closed r \<and> Run_End r = upTo))
                   (splitByFieldChangesAndMidnights m resourceType timelines start stop)))"

definition meterPieces ::
  "calculator \<Rightarrow> meter \<Rightarrow> string \<Rightarrow> string \<Rightarrow> string \<Rightarrow> string \<Rightarrow> (string \<Rightarrow> timeline) \<Rightarrow> root option
     \<Rightarrow> time \<Rightarrow> time \<Rightarrow> time \<Rightarrow> time \<Rightarrow> time \<Rightarrow> metering_error + piece list" where
  "meterPieces c m tenant resourceType resourceID revisionNumber timelines oroot wStart wEnd end upTo deletion =
     ebind (traverse (run_pieces c m tenant resourceType resourceID revisionNumber timelines oroot
                        wStart wEnd upTo deletion)
             (billableRuns m timelines end deletion)) (\<lambda>pss. Inr (concat pss))"

text \<open>The stretches of contiguous pieces of one meter.\<close>

definition add_stretch :: "piece list list \<Rightarrow> piece \<Rightarrow> piece list list" where
  "add_stretch stretches p =
     (if stretches \<noteq> [] \<and> Key_Meter (Piece_Key (hd (last stretches))) = Key_Meter (Piece_Key p) \<and>
         Piece_EndTime (last (last stretches)) = Piece_StartTime p
      then butlast stretches @ [last stretches @ [p]]
      else stretches @ [[p]])"

definition stretch_length :: "piece list \<Rightarrow> duration" where
  "stretch_length stretch =
     foldl (\<lambda>len p. wrap64 (len + time_sub (Piece_EndTime p) (Piece_StartTime p))) 0 stretch"

definition bill_stretch :: "time \<Rightarrow> piece list \<Rightarrow> piece list" where
  "bill_stretch upTo stretch =
     (if stretch_length stretch \<ge> MinBillableRun
      then map (\<lambda>p. p\<lparr>Piece_Pending := False\<rparr>) stretch
      else if Piece_Pending (last stretch) \<and> Piece_EndTime (last stretch) = upTo
      then [(hd stretch)\<lparr>Piece_EndTime := upTo, Piece_Pending := True\<rparr>]
      else [])"

definition applyRunThreshold :: "piece list \<Rightarrow> time \<Rightarrow> piece list" where
  "applyRunThreshold pieces upTo = concat (map (bill_stretch upTo) (foldl add_stretch [] pieces))"

text \<open>
  \<open>window_pieces\<close> is the body of the loop over the revisions: \<open>next\<close> is the effective time of the
  following revision, if there is one.
\<close>

definition window_pieces ::
  "calculator \<Rightarrow> string \<Rightarrow> string \<Rightarrow> string \<Rightarrow> (string \<Rightarrow> timeline) \<Rightarrow> root option
     \<Rightarrow> time \<Rightarrow> time \<Rightarrow> time \<Rightarrow> time \<Rightarrow> revision \<Rightarrow> time option \<Rightarrow> metering_error + piece list" where
  "window_pieces c tenant resourceType resourceID timelines oroot creation end upTo deletion r next =
     (let wStart = (if Revision_EffectiveAt r < creation then creation else Revision_EffectiveAt r);
          wEnd = (case next of None \<Rightarrow> end | Some t \<Rightarrow> if t < end then t else end)
      in if \<not> wStart < wEnd then Inr []
         else ebind (traverse (\<lambda>m. meterPieces c m tenant resourceType resourceID (Revision_Number r)
                        timelines oroot wStart wEnd end upTo deletion)
                 (filter (\<lambda>m. Meter_Resource m = resourceType) (Revision_Meters r)))
               (\<lambda>pss. Inr (concat pss)))"

fun revision_pieces ::
  "(revision \<Rightarrow> time option \<Rightarrow> metering_error + piece list) \<Rightarrow> revision list \<Rightarrow> metering_error + piece list" where
  "revision_pieces f [] = Inr []"
| "revision_pieces f [r] = f r None"
| "revision_pieces f (r # r' # rs) =
     ebind (f r (Some (Revision_EffectiveAt r'))) (\<lambda>ps.
       ebind (revision_pieces f (r' # rs)) (\<lambda>qs. Inr (ps @ qs)))"

text \<open>The stable sort by meter name, then start time: a stable sort by start, then one by meter.\<close>

definition sort_pieces :: "piece list \<Rightarrow> piece list" where
  "sort_pieces ps = sort_key (\<lambda>p. Key_Meter (Piece_Key p)) (sort_key Piece_StartTime ps)"

definition compute ::
  "calculator \<Rightarrow> string \<Rightarrow> string \<Rightarrow> string \<Rightarrow> fact list \<Rightarrow> root option \<Rightarrow> time \<Rightarrow> (piece \<Rightarrow> bool) option
     \<Rightarrow> metering_error + piece list" where
  "compute c tenant resourceType resourceID facts oroot upTo keep =
     (let timelines = timelines_of facts;
          creation = last_since ''created'' facts;
          deletion = last_since ''deleted'' facts
      in if creation = zero_time then
           (if facts = [] then Inr [] else Inl (NoCreationFact resourceType resourceID))
         else
           (let end = (if deletion \<noteq> zero_time \<and> deletion < upTo then deletion else upTo) in
            if \<not> creation < end then Inr []
            else ebind (revision_pieces
                     (window_pieces c tenant resourceType resourceID timelines oroot creation end upTo deletion)
                     (Calc_Revisions c)) (\<lambda>pieces.
                 let pieces' = applyRunThreshold (sort_pieces pieces) upTo
                 in Inr (case keep of None \<Rightarrow> pieces' | Some k \<Rightarrow> filter k pieces'))))"

definition Expected ::
  "calculator \<Rightarrow> string \<Rightarrow> string \<Rightarrow> string \<Rightarrow> fact list \<Rightarrow> root option \<Rightarrow> time \<Rightarrow> metering_error + piece list" where
  "Expected c tenant resourceType resourceID facts oroot upTo =
     compute c tenant resourceType resourceID facts oroot upTo None"

definition keep_tail :: "time \<Rightarrow> ledger_piece list \<Rightarrow> piece \<Rightarrow> bool" where
  "keep_tail from ledger p \<longleftrightarrow>
     Piece_EndTime p > from \<or>
     list_ex (\<lambda>row. Row_QuantityMicro row = 0 \<and> Row_Key row = Piece_Key p \<and>
                    Piece_StartTime p < Row_EndTime row \<and> Piece_EndTime p > Row_StartTime row) ledger"

definition Since ::
  "calculator \<Rightarrow> string \<Rightarrow> string \<Rightarrow> string \<Rightarrow> fact list \<Rightarrow> root option \<Rightarrow> time \<Rightarrow> time \<Rightarrow> ledger_piece list
     \<Rightarrow> metering_error + piece list" where
  "Since c tenant resourceType resourceID facts oroot from upTo ledger =
     compute c tenant resourceType resourceID facts oroot upTo (Some (keep_tail from ledger))"

definition MeterAt :: "calculator \<Rightarrow> string \<Rightarrow> string \<Rightarrow> time \<Rightarrow> (meter \<times> string) option" where
  "MeterAt c resourceType mname moment =
     (case filter (\<lambda>r. \<not> Revision_EffectiveAt r > moment \<and>
                list_ex (\<lambda>m. Meter_Resource m = resourceType \<and> Meter_Meter m = mname) (Revision_Meters r))
             (rev (Calc_Revisions c)) of
        [] \<Rightarrow> None
      | r # _ \<Rightarrow>
          map_option (\<lambda>m. (m, Revision_Number r))
            (find (\<lambda>m. Meter_Resource m = resourceType \<and> Meter_Meter m = mname) (Revision_Meters r)))"

end
