(* ===== verification/Usage_Correctness.thy ===== *)
theory Usage_Correctness
  imports Usage_Engine
begin

text \<open>
  What the usage calculator computes: rounding, timelines, billable runs, the gate, and the pieces
  of a resource.
\<close>

section \<open>Rounding to micro units\<close>

definition round_half_away :: "rat \<Rightarrow> int" where
  "round_half_away q = (if q < 0 then - \<lfloor>- q + 1 / 2\<rfloor> else \<lfloor>q + 1 / 2\<rfloor>)"

lemma quotient_rounds:
  assumes "quotient_of v = (num, den)"
  shows "(2 * num + den) div (2 * den) = \<lfloor>v + 1 / 2\<rfloor>"
proof -
  from assms have d: "den > 0" by (rule quotient_of_denom_pos)
  have v: "v = of_int num / of_int den" using assms by (rule quotient_of_div)
  have "v + 1 / 2 = of_int (2 * num + den) / (of_int (2 * den) :: rat)"
    using d by (simp add: v field_simps)
  then show ?thesis by (simp only: floor_divide_of_int_eq)
qed

lemma round_half_away_cases:
  obtains f where "f = \<lfloor>\<bar>q\<bar> + 1 / 2\<rfloor>" "0 \<le> f" "round_half_away q = (if q < 0 then - f else f)"
    "\<bar>round_half_away q\<bar> = f" "of_int f \<le> \<bar>q\<bar> + 1 / 2" "\<bar>q\<bar> + 1 / 2 < of_int f + 1"
proof (rule that [OF refl])
  show f0: "0 \<le> \<lfloor>\<bar>q\<bar> + 1 / 2\<rfloor>" by (simp add: zero_le_floor)
  show r: "round_half_away q = (if q < 0 then - \<lfloor>\<bar>q\<bar> + 1 / 2\<rfloor> else \<lfloor>\<bar>q\<bar> + 1 / 2\<rfloor>)"
    by (simp add: round_half_away_def)
  show "\<bar>round_half_away q\<bar> = \<lfloor>\<bar>q\<bar> + 1 / 2\<rfloor>" unfolding r using f0 by (simp only: abs_minus_cancel abs_of_nonneg split: if_split) simp
qed linarith+

lemma RationalToMicro_eq:
  "RationalToMicro q =
     (if \<bar>round_half_away q\<bar> < 2 ^ 63 then Inr (round_half_away q) else Inl (QuantityDoesNotFit \<bar>q\<bar>))"
proof -
  obtain num den where nd: "quotient_of \<bar>q\<bar> = (num, den)" by (cases "quotient_of \<bar>q\<bar>")
  obtain f where f: "f = \<lfloor>\<bar>q\<bar> + 1 / 2\<rfloor>" "0 \<le> f" "round_half_away q = (if q < 0 then - f else f)"
      "\<bar>round_half_away q\<bar> = f"
    by (rule round_half_away_cases)
  have fits: "is_int64 f \<longleftrightarrow> f < 2 ^ 63" using f(2) by (simp add: is_int64_def)
  have wrap: "wrap64 (- f) = - f \<and> wrap64 f = f" if "f < 2 ^ 63"
    using that f(2) by (simp add: wrap64_id is_int64_def)
  have "(2 * num + den) div (2 * den) = f" using quotient_rounds [OF nd] f(1) by simp
  then have "RationalToMicro q =
      (if \<not> is_int64 f then Inl (QuantityDoesNotFit \<bar>q\<bar>)
       else Inr (wrap64 ((if q < 0 then - 1 else 1) * f)))"
    using nd by (auto simp: RationalToMicro_def Let_def abs_if split: if_splits)
  then show ?thesis unfolding f(4) using fits wrap f(3) by auto
qed

text \<open>
  \<open>RationalToMicro\<close> returns a whole number of micro units at distance at most one half from the
  quantity, the one further from zero on a tie, and never a wrapped one: it fails exactly when the
  nearest whole number does not fit.
\<close>

lemma RationalToMicro_nearest:
  "(case RationalToMicro q of
      Inr r \<Rightarrow> is_int64 r \<and> \<bar>of_int r - q\<bar> \<le> 1 / 2 \<and>
               (\<bar>of_int r - q\<bar> = 1 / 2 \<longrightarrow> \<bar>q\<bar> < \<bar>of_int r\<bar>) \<and> (r \<noteq> 0 \<longrightarrow> (r < 0 \<longleftrightarrow> q < 0))
    | Inl e \<Rightarrow> 2 ^ 63 \<le> \<bar>q\<bar> + 1 / 2)"
proof -
  obtain f where f: "0 \<le> f" "round_half_away q = (if q < 0 then - f else f)" "\<bar>round_half_away q\<bar> = f"
      "of_int f \<le> \<bar>q\<bar> + 1 / 2" "\<bar>q\<bar> + 1 / 2 < of_int f + 1"
    by (rule round_half_away_cases)
  show ?thesis
  proof (cases "f < 2 ^ 63")
    case True
    have "is_int64 (round_half_away q)" using True f(1,2) by (simp add: is_int64_def)
    moreover have "\<bar>of_int (round_half_away q) - q\<bar> \<le> 1 / 2" using f by (simp add: abs_if split: if_splits)
    moreover have "\<bar>of_int (round_half_away q) - q\<bar> = 1 / 2 \<longrightarrow> \<bar>q\<bar> < \<bar>of_int (round_half_away q) :: rat\<bar>"
      using f by (auto simp: abs_if split: if_splits)
    moreover have "round_half_away q \<noteq> 0 \<longrightarrow> (round_half_away q < 0 \<longleftrightarrow> q < 0)" using f(1,2) by auto
    ultimately show ?thesis using True f(3) by (simp add: RationalToMicro_eq)
  next
    case False
    then have "2 ^ 63 \<le> f" by simp
    then have "of_int (2 ^ 63) \<le> (of_int f :: rat)" by (simp only: of_int_le_iff)
    then have "2 ^ 63 \<le> \<bar>q\<bar> + 1 / 2" using f(4) by simp
    then show ?thesis using False f(3) by (simp add: RationalToMicro_eq)
  qed
qed

lemma round_half_away_of_int [simp]: "round_half_away (of_int n) = n"
proof -
  have "\<lfloor>(of_int n :: rat) + 1 / 2\<rfloor> = n" for n by (simp add: floor_eq_iff)
  from this [of n] this [of "- n"] show ?thesis by (simp add: round_half_away_def)
qed

lemma round_half_away_0 [simp]: "round_half_away 0 = 0"
  using round_half_away_of_int [of 0] by simp

section \<open>Timelines\<close>

text \<open>The value of a field does not change between two moments that no entry separates.\<close>

lemma valueAt_from_cong:
  "(\<And>s v. (s, v) \<in> set t \<Longrightarrow> s \<le> a \<longleftrightarrow> s \<le> b) \<Longrightarrow> valueAt_from r t a = valueAt_from r t b"
proof (induction t arbitrary: r)
  case Nil
  then show ?case by simp
next
  case (Cons e t)
  obtain s v where e: "e = (s, v)" by (cases e)
  from Cons.prems [of s v] e have "s \<le> a \<longleftrightarrow> s \<le> b" by simp
  moreover have "valueAt_from (Some v) t a = valueAt_from (Some v) t b"
    using Cons.prems by (intro Cons.IH) auto
  ultimately show ?case using e by (auto simp: not_less [symmetric])
qed

lemma valueAt_cong:
  "(\<And>s v. (s, v) \<in> set t \<Longrightarrow> s \<le> a \<longleftrightarrow> s \<le> b) \<Longrightarrow> valueAt t a = valueAt t b"
  unfolding valueAt_def by (rule valueAt_from_cong)

lemma valueAt_from_append:
  "sorted (map fst (t @ u)) \<Longrightarrow> (\<forall>(s, v)\<in>set t. s \<le> a) \<Longrightarrow> (\<forall>(s, v)\<in>set u. a < s) \<Longrightarrow>
   valueAt_from r (t @ u) a = (if t = [] then r else Some (snd (last t)))"
proof (induction t arbitrary: r)
  case Nil
  then show ?case by (cases u) auto
next
  case (Cons e t)
  then show ?case by (cases e) auto
qed

text \<open>
  On a timeline in time order, \<open>valueAt\<close> is the value of the last entry dated at or before the
  moment, and unknown exactly when no entry is.
\<close>

lemma valueAt_last_entry:
  assumes "sorted (map fst t)"
  shows "valueAt t moment =
    (case filter (\<lambda>(since, value). since \<le> moment) t of [] \<Rightarrow> None | es \<Rightarrow> Some (snd (last es)))"
proof -
  let ?P = "\<lambda>(since, value). since \<le> moment"
  have split: "takeWhile ?P t @ dropWhile ?P t = t" by simp
  have all: "\<forall>(s, v)\<in>set (takeWhile ?P t). s \<le> moment" by (auto dest: set_takeWhileD)
  have later: "\<forall>(s, v)\<in>set (dropWhile ?P t). moment < s"
    using assms
  proof (induction t)
    case (Cons e t)
    then show ?case by (cases e) (auto simp: not_le)
  qed simp
  then have "filter ?P (dropWhile ?P t) = []" by (auto simp: filter_empty_conv)
  moreover have "filter ?P (takeWhile ?P t) = takeWhile ?P t" using all by (simp add: filter_id_conv split_def)
  ultimately have filt: "filter ?P t = takeWhile ?P t" using split by (metis append_Nil2 filter_append)
  have "valueAt t moment = (if takeWhile ?P t = [] then None else Some (snd (last (takeWhile ?P t))))"
    unfolding valueAt_def using valueAt_from_append [of "takeWhile ?P t" "dropWhile ?P t" moment None]
      assms all later by simp
  then show ?thesis unfolding filt by (cases "takeWhile ?P t") simp_all
qed

lemma timelines_of_sorted [simp]: "sorted (map fst (timelines_of facts field))"
  by (simp add: timelines_of_def)

lemma root_states_of_sorted [simp]: "sorted (map fst (root_states_of r))"
  by (simp add: root_states_of_def split: option.splits)

section \<open>Billable runs\<close>

definition covered_by :: "run list \<Rightarrow> time \<Rightarrow> bool" where
  "covered_by runs t \<longleftrightarrow> (\<exists>r\<in>set runs. Run_Start r \<le> t \<and> t < Run_End r)"

definition runs_ok :: "time \<Rightarrow> time \<Rightarrow> time list \<Rightarrow> run list \<Rightarrow> bool" where
  "runs_ok end deletion points runs \<longleftrightarrow>
     sorted_wrt (\<lambda>r r'. Run_End r < Run_Start r') runs \<and>
     (\<forall>r\<in>set runs. Run_Start r < Run_End r \<and> Run_Start r \<in> set points \<and> Run_End r \<in> set points \<and>
        (Run_Closed r \<longleftrightarrow> Run_End r < end \<or> (deletion \<noteq> zero_time \<and> Run_End r = deletion)))"

lemma runs_ok_end_le_last:
  assumes "runs_ok end deletion points runs" "r \<in> set runs"
  shows "Run_End r \<le> Run_End (last runs)"
proof -
  from assms(2) obtain rs l where runs: "runs = rs @ [l]" by (cases runs rule: rev_cases) auto
  show ?thesis
  proof (cases "r = l")
    case False
    then have "r \<in> set rs" using assms(2) runs by simp
    then have "Run_End r < Run_Start l" "Run_Start l < Run_End l"
      using assms(1) runs by (auto simp: runs_ok_def sorted_wrt_append)
    then show ?thesis using runs by simp
  qed (simp add: runs)
qed

lemma runs_ok_add_run:
  assumes ok: "runs_ok end deletion points runs" and sorted: "sorted_wrt (<) (points @ [stop])"
    and ne: "points \<noteq> []"
  shows "runs_ok end deletion (points @ [stop]) (add_run m timelines end deletion runs (last points, stop))"
proof -
  let ?start = "last points"
  have le_start: "Run_End r \<le> ?start" if "r \<in> set runs" for r
    using ok that sorted by (auto simp: runs_ok_def sorted_wrt_append intro: strict_sorted_le_last)
  have start_stop: "?start < stop" using sorted ne by (auto simp: sorted_wrt_append)
  show ?thesis
  proof (cases "billable_from m timelines ?start")
    case False
    then show ?thesis using ok by (auto simp: add_run_def runs_ok_def)
  next
    case billable: True
    show ?thesis
    proof (cases "runs \<noteq> [] \<and> Run_End (last runs) = ?start")
      case False
      have lt: "Run_End r < ?start" if "r \<in> set runs" for r
      proof -
        from that have ne': "runs \<noteq> []" by auto
        have "Run_End r \<le> Run_End (last runs)"
          using ok that by (rule runs_ok_end_le_last)
        moreover have "Run_End (last runs) < ?start" using False ne' le_start [of "last runs"] by fastforce
        ultimately show ?thesis by simp
      qed
      have eq: "add_run m timelines end deletion runs (?start, stop) =
        runs @ [\<lparr>Run_Start = ?start, Run_End = stop,
                 Run_Closed = (stop < end \<or> (deletion \<noteq> zero_time \<and> stop = deletion))\<rparr>]"
        using billable False by (auto simp: add_run_def Let_def)
      show ?thesis
        unfolding eq using ok lt ne start_stop by (simp add: runs_ok_def sorted_wrt_append ball_Un)
    next
      case True
      then obtain rs r where runs: "runs = rs @ [r]" by (cases runs rule: rev_cases) auto
      with True have r: "Run_End r = ?start" by simp
      have "add_run m timelines end deletion runs (?start, stop) =
            rs @ [r\<lparr>Run_End := stop, Run_Closed := (stop < end \<or> (deletion \<noteq> zero_time \<and> stop = deletion))\<rparr>]"
        using billable runs r by (simp add: add_run_def)
      moreover have "Run_Start r < stop" using ok runs r start_stop by (auto simp: runs_ok_def)
      ultimately show ?thesis using ok runs by (auto simp: runs_ok_def sorted_wrt_append)
    qed
  qed
qed

lemma foldl_add_run_ok:
  assumes "sorted_wrt (<) points" "points \<noteq> []"
  shows "runs_ok end deletion points (foldl (add_run m timelines end deletion) [] (adj_pairs points))"
  using assms
proof (induction points rule: rev_induct)
  case Nil
  then show ?case by simp
next
  case (snoc p points)
  show ?case
  proof (cases "points = []")
    case True
    then show ?thesis by (simp add: runs_ok_def)
  next
    case False
    then have "runs_ok end deletion points (foldl (add_run m timelines end deletion) [] (adj_pairs points))"
      using snoc by (auto simp: sorted_wrt_append)
    from runs_ok_add_run [OF this snoc.prems(1) False]
    show ?thesis using False by (simp add: adj_pairs_snoc)
  qed
qed

lemma add_run_covers:
  assumes "start < stop" "\<forall>r\<in>set runs. Run_Start r < Run_End r \<and> Run_End r \<le> start"
  shows "covered_by (add_run m timelines end deletion runs (start, stop)) t \<longleftrightarrow>
         covered_by runs t \<or> (billable_from m timelines start \<and> start \<le> t \<and> t < stop)"
proof (cases "runs \<noteq> [] \<and> Run_End (last runs) = start")
  case True
  then obtain rs r where runs: "runs = rs @ [r]" by (cases runs rule: rev_cases) auto
  then show ?thesis using True assms by (auto simp: add_run_def covered_by_def Let_def)
next
  case False
  then show ?thesis by (auto simp: add_run_def covered_by_def Let_def)
qed

lemma foldl_add_run_covers:
  assumes "sorted_wrt (<) points" "points \<noteq> []"
  shows "covered_by (foldl (add_run m timelines end deletion) [] (adj_pairs points)) t \<longleftrightarrow>
         (\<exists>(a, b)\<in>set (adj_pairs points). a \<le> t \<and> t < b \<and> billable_from m timelines a)"
  using assms
proof (induction points rule: rev_induct)
  case Nil
  then show ?case by simp
next
  case (snoc p points)
  show ?case
  proof (cases "points = []")
    case True
    then show ?thesis by (simp add: covered_by_def)
  next
    case False
    let ?runs = "foldl (add_run m timelines end deletion) [] (adj_pairs points)"
    have s: "sorted_wrt (<) points" "last points < p" using snoc.prems False by (auto simp: sorted_wrt_append)
    have "runs_ok end deletion points ?runs" using s(1) False by (rule foldl_add_run_ok)
    then have "\<forall>r\<in>set ?runs. Run_Start r < Run_End r \<and> Run_End r \<le> last points"
      using s(1) by (auto simp: runs_ok_def intro: strict_sorted_le_last)
    from add_run_covers [OF s(2) this] snoc.IH [OF s(1) False]
    show ?thesis using False by (auto simp: adj_pairs_snoc)
  qed
qed

lemma run_points_set:
  "set (run_points m timelines end) =
     insert end {t. t < end \<and> t \<in> fst ` set (timelines ''status.state'')} \<union>
     (\<Union>path\<in>set (conditionPaths m). {t. t < end \<and> t \<in> fst ` set (timelines path)})"
  by (auto simp: run_points_def)

lemma run_points_strict: "sorted_wrt (<) (run_points m timelines end)"
  unfolding run_points_def by (rule strict_sorted_remdups_adj_sort)

lemma run_points_ne: "run_points m timelines end \<noteq> []"
proof -
  have "end \<in> set (run_points m timelines end)" by (simp add: run_points_set)
  then show ?thesis by auto
qed

text \<open>Nothing billability reads changes inside an interval between two run points.\<close>

lemma billable_from_constant:
  assumes ab: "(a, b) \<in> set (adj_pairs (run_points m timelines end))" and t: "a \<le> t" "t < b"
  shows "billable_from m timelines t = billable_from m timelines a"
proof -
  let ?points = "run_points m timelines end"
  have end_in: "end \<in> set ?points" by (simp add: run_points_set)
  have "b \<le> end"
    using adj_pairs_no_between [OF run_points_strict ab end_in] adj_pairs_mem [OF ab]
    by (auto simp: run_points_set)
  have gap: "s \<le> t \<longleftrightarrow> s \<le> a"
    if "(s, v) \<in> set (timelines path)" "path = ''status.state'' \<or> path \<in> set (conditionPaths m)" for s v path
  proof
    assume st: "s \<le> t"
    with t \<open>b \<le> end\<close> have "s < end" by simp
    with that have "s \<in> set ?points" by (force simp: run_points_set)
    with adj_pairs_no_between [OF run_points_strict ab] st t show "s \<le> a" by fastforce
  qed (use t in simp)
  have states: "valueAt (timelines ''status.state'') t = valueAt (timelines ''status.state'') a"
    using gap by (intro valueAt_cong) blast
  have field: "valueAt (timelines (fst (DimensionPath (Meter_Resource m) name))) t =
               valueAt (timelines (fst (DimensionPath (Meter_Resource m) name))) a"
    if "(name, expected) \<in> set (Fields (Meter_Billable m))" for name expected
  proof (rule valueAt_cong)
    have "fst (DimensionPath (Meter_Resource m) name) \<in> set (conditionPaths m)"
      using that by (force simp: conditionPaths_def)
    then show "s \<le> t \<longleftrightarrow> s \<le> a"
      if "(s, v) \<in> set (timelines (fst (DimensionPath (Meter_Resource m) name)))" for s v
      using gap that by blast
  qed
  have "conditionsHold m (Meter_Resource m) timelines t = conditionsHold m (Meter_Resource m) timelines a"
    unfolding conditionsHold_def list_all_iff using field by (auto split: option.splits)
  then show ?thesis by (simp add: billable_from_def states)
qed

lemma valueAt_known:
  assumes "valueAt t moment = Some v"
  shows "\<exists>s. (s, v) \<in> set t \<and> s \<le> moment"
proof -
  have "valueAt_from r t moment = Some v \<Longrightarrow> r = Some v \<or> (\<exists>s. (s, v) \<in> set t \<and> s \<le> moment)" for r
    by (induction t arbitrary: r) (force split: if_splits)+
  from this [of None] assms show ?thesis by (simp add: valueAt_def)
qed

text \<open>
  The billable runs of a meter are its billable moments. A moment lies in a run exactly when it is
  before the end of what is known, the resource is then in a state the meter bills in, and the
  meter's field conditions hold then.
\<close>

lemma billableRuns_are_billable_moments:
  assumes "sorted (map fst (timelines ''status.state''))"
  shows "(\<exists>r\<in>set (billableRuns m timelines end deletion). Run_Start r \<le> t \<and> t < Run_End r) \<longleftrightarrow>
         t < end \<and> billable_from m timelines t"
proof -
  let ?states = "timelines ''status.state''" and ?points = "run_points m timelines end"
  have known: "\<exists>s\<in>set ?points. s \<le> t \<and> ?states \<noteq> [] \<and> fst (hd ?states) < end"
    if "t < end" "billable_from m timelines t"
  proof -
    from that(2) obtain v where "valueAt ?states t = Some v"
      by (auto simp: billable_from_def split: option.splits)
    from valueAt_known [OF this] obtain s where s: "(s, v) \<in> set ?states" "s \<le> t" by blast
    then have ne: "?states \<noteq> []" by auto
    have "fst (hd ?states) \<le> s" using assms s(1) by (cases ?states) (auto intro: rev_image_eqI)
    moreover have "s \<in> set ?points" using s that(1) by (force simp: run_points_set)
    ultimately show ?thesis using ne s(2) that(1) by force
  qed
  show ?thesis
  proof (cases "?states = [] \<or> fst (hd ?states) \<ge> end")
    case True
    then have "billableRuns m timelines end deletion = []" by (simp add: billableRuns_def)
    then show ?thesis using known True by force
  next
    case False
    then have "(\<exists>r\<in>set (billableRuns m timelines end deletion). Run_Start r \<le> t \<and> t < Run_End r) \<longleftrightarrow>
        (\<exists>(a, b)\<in>set (adj_pairs ?points). a \<le> t \<and> t < b \<and> billable_from m timelines a)"
      using foldl_add_run_covers [OF run_points_strict run_points_ne]
      by (simp add: billableRuns_def covered_by_def)
    also have "\<dots> \<longleftrightarrow> (\<exists>(a, b)\<in>set (adj_pairs ?points). a \<le> t \<and> t < b) \<and> billable_from m timelines t"
      using billable_from_constant by fast
    also have "\<dots> \<longleftrightarrow> t < end \<and> billable_from m timelines t"
    proof
      assume l: "(\<exists>(a, b)\<in>set (adj_pairs ?points). a \<le> t \<and> t < b) \<and> billable_from m timelines t"
      then obtain a b where ab: "(a, b) \<in> set (adj_pairs ?points)" "t < b" by auto
      from adj_pairs_mem [OF ab(1)] have "b \<le> end" by (auto simp: run_points_set)
      with ab l show "t < end \<and> billable_from m timelines t" by simp
    next
      assume r: "t < end \<and> billable_from m timelines t"
      with known obtain s where "s \<in> set ?points" "s \<le> t" by blast
      moreover have "end \<in> set ?points" by (simp add: run_points_set)
      ultimately obtain a b where "(a, b) \<in> set (adj_pairs ?points)" "a \<le> t" "t < b"
        using adj_pairs_cover [OF run_points_strict] r by blast
      then show "(\<exists>(a, b)\<in>set (adj_pairs ?points). a \<le> t \<and> t < b) \<and> billable_from m timelines t"
        using r by blast
    qed
    finally show ?thesis .
  qed
qed

lemma billableRuns_ok:
  "runs_ok end deletion (run_points m timelines end) (billableRuns m timelines end deletion)"
  using foldl_add_run_ok [OF run_points_strict run_points_ne]
  by (auto simp: billableRuns_def Let_def runs_ok_def [of _ _ _ "[]"])

text \<open>
  Runs are maximal. They are in time order with a gap before the next one, none is empty or reaches
  past the end of what is known, and a run is closed exactly when it ends before that or at the
  resource's deletion.
\<close>

lemma billableRuns_maximal:
  "sorted_wrt (\<lambda>r r'. Run_End r < Run_Start r') (billableRuns m timelines end deletion) \<and>
   (\<forall>r\<in>set (billableRuns m timelines end deletion).
      Run_Start r < Run_End r \<and> Run_End r \<le> end \<and>
      (Run_Closed r \<longleftrightarrow> Run_End r < end \<or> (deletion \<noteq> zero_time \<and> Run_End r = deletion)))"
  using billableRuns_ok [of "end" deletion m timelines]
  by (auto simp: runs_ok_def run_points_set)

section \<open>The gate\<close>

lemma list_ex_takeWhile_sorted:
  assumes "sorted (map fst t)" "\<And>s s'. s \<le> s' \<Longrightarrow> P s' \<Longrightarrow> P s"
  shows "list_ex Q (takeWhile (\<lambda>(s, v). P s) t) \<longleftrightarrow> (\<exists>(s, v)\<in>set t. P s \<and> Q (s, v))"
  using assms(1)
proof (induction t)
  case (Cons e t)
  obtain s v where e: "e = (s, v)" by (cases e)
  show ?case
  proof (cases "P s")
    case True
    then show ?thesis using Cons e by auto
  next
    case False
    then have "\<not> P s'" if "(s', v') \<in> set t" for s' v'
      using Cons.prems e that assms(2) by fastforce
    then show ?thesis using False e by auto
  qed
qed simp

text \<open>
  The gate of a run. A meter without confirming states bills every run. Otherwise the run bills
  exactly when a confirming state appears on the gate's timeline strictly before the run ends and
  before the deletion that ends that timeline, however long before the run began. The timeline, the
  deletion and the confirming states are those of the ownership root when the resource has one and the
  meter does not read its own.
\<close>

lemma gateOpen_iff:
  "gateOpen c m number (timelines_of facts) deletion oroot r \<longleftrightarrow>
   (let inherited = (oroot \<noteq> None \<and> TurnsBillableOnceFrom (Meter_Billable m) \<noteq> ''self'');
        gate = (if inherited then rootGate c number (Root_Type (the oroot))
                else TurnsBillableOnce (Meter_Billable m));
        states = (if inherited then root_states_of oroot else timelines_of facts ''status.state'');
        gone = (if inherited then root_deletion_of oroot else deletion)
    in gate = [] \<or> (\<exists>(since, state)\<in>set states. state \<in> set gate \<and> since < Run_End r \<and>
                       (gone = zero_time \<or> since < gone)))"
proof -
  define inherited where "inherited \<longleftrightarrow> oroot \<noteq> None \<and> TurnsBillableOnceFrom (Meter_Billable m) \<noteq> ''self''"
  define gate where "gate = (if inherited then rootGate c number (Root_Type (the oroot))
                             else TurnsBillableOnce (Meter_Billable m))"
  define states where "states = (if inherited then root_states_of oroot else timelines_of facts ''status.state'')"
  define gone where "gone = (if inherited then root_deletion_of oroot else deletion)"
  let ?before = "\<lambda>s. s < Run_End r \<and> \<not> (gone \<noteq> zero_time \<and> \<not> s < gone)"
  have "list_ex (\<lambda>(s, v). v \<in> set gate) (takeWhile (\<lambda>(s, v). ?before s) states) \<longleftrightarrow>
        (\<exists>(s, v)\<in>set states. ?before s \<and> (case (s, v) of (s, v) \<Rightarrow> v \<in> set gate))"
    by (rule list_ex_takeWhile_sorted) (auto simp: states_def)
  then show ?thesis
    unfolding gateOpen_def Let_def inherited_def [symmetric] gate_def [symmetric] states_def [symmetric]
      gone_def [symmetric]
    by auto
qed

section \<open>Splitting a run into pieces\<close>

lemma midnights_set: "t \<in> set (midnights n stop) \<longleftrightarrow> n \<le> t \<and> t < stop \<and> day dvd (t - n)"
proof (induction n stop rule: midnights.induct)
  case (1 n stop)
  show ?case
  proof (cases "n < stop")
    case False
    then show ?thesis by (auto simp: midnights.simps)
  next
    case True
    have "n \<le> t \<and> t < stop \<and> day dvd (t - n) \<longleftrightarrow> t = n \<or> (n + day \<le> t \<and> t < stop \<and> day dvd (t - (n + day)))"
    proof -
      have "day dvd (t - (n + day)) \<longleftrightarrow> day dvd (t - n)"
        using dvd_add_right_iff [of day "- day" "t - n"] by (simp add: algebra_simps)
      moreover have "n + day \<le> t" if "day dvd (t - n)" "n \<le> t" "t \<noteq> n"
        using zdvd_imp_le [OF that(1)] that by simp
      ultimately show ?thesis using True by auto
    qed
    then show ?thesis using 1 True by (subst midnights.simps) auto
  qed
qed

lemma NextMidnight_gt: "moment < NextMidnight moment"
proof -
  have "moment = day * (moment div day) + moment mod day" by simp
  moreover have "moment mod day < day" by simp
  ultimately show ?thesis unfolding NextMidnight_def by (simp only: distrib_right)
qed

lemma day_dvd_NextMidnight: "day dvd NextMidnight moment"
  by (simp add: NextMidnight_def)

lemma midnights_after: "t \<in> set (midnights (NextMidnight start) stop) \<longleftrightarrow> start < t \<and> t < stop \<and> day dvd t"
proof -
  have "day dvd (t - NextMidnight start) \<longleftrightarrow> day dvd t"
    by (metis day_dvd_NextMidnight diff_add_cancel dvd_add_left_iff)
  moreover have "NextMidnight start \<le> t" if "start < t" "day dvd t"
  proof -
    from that(2) obtain k where k: "t = day * k" by (rule dvdE)
    have "start div day < k" using that(1) unfolding k by (simp add: div_less_iff_less_mult mult.commute)
    then show ?thesis unfolding NextMidnight_def k by simp
  qed
  ultimately show ?thesis
    using NextMidnight_gt [of start] by (auto simp: midnights_set)
qed

definition split_points :: "meter \<Rightarrow> string \<Rightarrow> (string \<Rightarrow> timeline) \<Rightarrow> time \<Rightarrow> time \<Rightarrow> time list" where
  "split_points m resourceType timelines start stop =
     remdups_adj (sort ([start, stop] @
       concat (map (\<lambda>name. filter (\<lambda>t. t > start \<and> t < stop)
           (map fst (timelines (fst (DimensionPath resourceType name)))))
         (Meter_Dimensions m @ (if Meter_Multiplier m \<noteq> '''' then [Meter_Multiplier m] else []))) @
       midnights (NextMidnight start) stop))"

lemma split_points_strict: "sorted_wrt (<) (split_points m resourceType timelines start stop)"
  unfolding split_points_def by (rule strict_sorted_remdups_adj_sort)

lemma split_points_set:
  "t \<in> set (split_points m resourceType timelines start stop) \<longleftrightarrow>
   t = start \<or> t = stop \<or>
   (start < t \<and> t < stop \<and> (\<exists>name. (name \<in> set (Meter_Dimensions m) \<or> (name = Meter_Multiplier m \<and> name \<noteq> '''')) \<and>
      t \<in> fst ` set (timelines (fst (DimensionPath resourceType name))))) \<or>
   (start < t \<and> t < stop \<and> day dvd t)"
  unfolding split_points_def remdups_adj_set set_sort set_append Un_iff midnights_after set_concat
  by (cases "Meter_Multiplier m = ''''") auto

lemma split_eq:
  assumes "start < stop"
  shows "splitByFieldChangesAndMidnights m resourceType timelines start stop =
         adj_pairs (split_points m resourceType timelines start stop)"
proof -
  let ?L = "split_points m resourceType timelines start stop"
  have "start \<in> set ?L" "stop \<in> set ?L" by (simp_all add: split_points_set)
  then obtain a b where "(a, b) \<in> set (adj_pairs ?L)"
    using adj_pairs_cover [OF split_points_strict, of start m resourceType timelines start stop stop start] assms
    by blast
  then have ne: "adj_pairs ?L \<noteq> []" by auto
  define raw where "raw = [start, stop] @
       concat (map (\<lambda>name. filter (\<lambda>t. t > start \<and> t < stop)
           (map fst (timelines (fst (DimensionPath resourceType name)))))
         (Meter_Dimensions m @ (if Meter_Multiplier m \<noteq> '''' then [Meter_Multiplier m] else []))) @
       midnights (NextMidnight start) stop"
  have L: "?L = remdups_adj (sort raw)" by (simp only: split_points_def raw_def)
  have "splitByFieldChangesAndMidnights m resourceType timelines start stop =
     (if filter (\<lambda>(a, b). a < b) (adj_pairs (sort raw)) = [] then [(start, stop)]
      else filter (\<lambda>(a, b). a < b) (adj_pairs (sort raw)))"
    by (simp only: splitByFieldChangesAndMidnights_def raw_def Let_def)
  also have "filter (\<lambda>(a, b). a < b) (adj_pairs (sort raw)) = adj_pairs ?L"
    unfolding L by (rule filter_adj_pairs) simp
  finally show ?thesis using ne by simp
qed

lemma split_points_ends:
  "start \<in> set (split_points m resourceType timelines start stop)"
  "stop \<in> set (split_points m resourceType timelines start stop)"
  by (simp_all add: split_points_set)

lemmas split_points_gap = adj_pairs_no_between [OF split_points_strict]

lemma split_span_bounds:
  assumes "start < stop" "(a, b) \<in> set (adj_pairs (split_points m resourceType timelines start stop))"
  shows "start \<le> a \<and> a < b \<and> b \<le> stop"
  using adj_pairs_mem [OF assms(2)] adj_pairs_less [OF split_points_strict assms(2)] assms(1)
  by (auto simp: split_points_set)

lemma split_span_midnight:
  assumes lt: "start < stop" and ab: "(a, b) \<in> set (adj_pairs (split_points m resourceType timelines start stop))"
  shows "b \<le> NextMidnight a"
proof (rule ccontr)
  assume "\<not> b \<le> NextMidnight a"
  then have "NextMidnight a \<in> set (split_points m resourceType timelines start stop)"
    using split_span_bounds [OF lt ab] NextMidnight_gt [of a] by (auto simp: split_points_set day_dvd_NextMidnight)
  with split_points_gap [OF ab] NextMidnight_gt [of a] \<open>\<not> b \<le> NextMidnight a\<close> show False by fastforce
qed

lemma split_span_constant:
  assumes lt: "start < stop" and ab: "(a, b) \<in> set (adj_pairs (split_points m resourceType timelines start stop))"
    and t: "a \<le> t" "t < b"
    and name: "name \<in> set (Meter_Dimensions m) \<or> (name = Meter_Multiplier m \<and> name \<noteq> '''')"
  shows "valueAt (timelines (fst (DimensionPath resourceType name))) t =
         valueAt (timelines (fst (DimensionPath resourceType name))) a"
proof (rule valueAt_cong)
  fix s v assume sv: "(s, v) \<in> set (timelines (fst (DimensionPath resourceType name)))"
  have "s \<in> set (split_points m resourceType timelines start stop)" if "a < s" "s \<le> t"
    using sv name that t split_span_bounds [OF lt ab] by (force simp: split_points_set)
  with split_points_gap [OF ab] t show "s \<le> t \<longleftrightarrow> s \<le> a" by fastforce
qed

lemma split_span_unique:
  assumes "(a, b) \<in> set (adj_pairs (split_points m resourceType timelines start stop))"
    "(a', b') \<in> set (adj_pairs (split_points m resourceType timelines start stop))"
    "a \<le> t" "t < b" "a' \<le> t" "t < b'"
  shows "a = a' \<and> b = b'"
  using split_points_gap [OF assms(1), of a'] split_points_gap [OF assms(2), of a]
    split_points_gap [OF assms(1), of b'] split_points_gap [OF assms(2), of b]
    adj_pairs_mem [OF assms(1)] adj_pairs_mem [OF assms(2)] assms by fastforce

lemmas split_span_cover = adj_pairs_cover [OF split_points_strict split_points_ends]

text \<open>
  The spans a billable interval splits into are in time order, cover every moment of it once, never
  cross a UTC midnight, and no dimension or multiplier of the meter changes inside one, so that the
  values read at a span's start hold throughout.
\<close>

lemma split_spans_correct:
  assumes "start < stop"
  shows "(\<forall>(a, b)\<in>set (splitByFieldChangesAndMidnights m resourceType timelines start stop).
            start \<le> a \<and> a < b \<and> b \<le> stop \<and> b \<le> NextMidnight a \<and>
            (\<forall>t name. a \<le> t \<and> t < b \<and> (name \<in> set (Meter_Dimensions m) \<or> (name = Meter_Multiplier m \<and> name \<noteq> '''')) \<longrightarrow>
               valueAt (timelines (fst (DimensionPath resourceType name))) t =
               valueAt (timelines (fst (DimensionPath resourceType name))) a)) \<and>
         (\<forall>t. start \<le> t \<and> t < stop \<longrightarrow>
            (\<exists>!(a, b). (a, b) \<in> set (splitByFieldChangesAndMidnights m resourceType timelines start stop) \<and> a \<le> t \<and> t < b))"
proof (intro conjI ballI allI impI)
  fix x assume x: "x \<in> set (splitByFieldChangesAndMidnights m resourceType timelines start stop)"
  obtain a b where x_eq: "x = (a, b)" by (cases x)
  note ab = x [unfolded x_eq split_eq [OF assms]]
  show "case x of (a, b) \<Rightarrow> start \<le> a \<and> a < b \<and> b \<le> stop \<and> b \<le> NextMidnight a \<and>
     (\<forall>t name. a \<le> t \<and> t < b \<and> (name \<in> set (Meter_Dimensions m) \<or> (name = Meter_Multiplier m \<and> name \<noteq> '''')) \<longrightarrow>
       valueAt (timelines (fst (DimensionPath resourceType name))) t =
       valueAt (timelines (fst (DimensionPath resourceType name))) a)"
    unfolding x_eq prod.case
    using split_span_bounds [OF assms ab] split_span_midnight [OF assms ab] split_span_constant [OF assms ab] by blast
next
  fix t assume "start \<le> t \<and> t < stop"
  then obtain a b where ab: "(a, b) \<in> set (adj_pairs (split_points m resourceType timelines start stop))" "a \<le> t" "t < b"
    using split_span_cover by blast
  show "\<exists>!(a, b). (a, b) \<in> set (splitByFieldChangesAndMidnights m resourceType timelines start stop) \<and> a \<le> t \<and> t < b"
    unfolding split_eq [OF assms]
  proof (rule ex1I [of _ "(a, b)"])
    fix x assume "case x of (a, b) \<Rightarrow> (a, b) \<in> set (adj_pairs (split_points m resourceType timelines start stop)) \<and> a \<le> t \<and> t < b"
    then show "x = (a, b)" using split_span_unique [OF ab(1) _ ab(2,3)] by (auto split: prod.splits)
  qed (use ab in simp)
qed

section \<open>On the sample meter\<close>

end
