(* ===== verification/Usage_Pieces.thy ===== *)
theory Usage_Pieces
  imports Usage_Correctness
begin

text \<open>
  The pieces the calculator computes for a resource, against a reading of the rules moment by moment:
  which moments are charged to a meter, at which rate and under which revision, that no moment is
  charged twice to one meter, and what the threshold on short stretches keeps.
\<close>

section \<open>Pieces of one meter\<close>

definition holds_at :: "piece \<Rightarrow> time \<Rightarrow> bool" where
  "holds_at p t \<longleftrightarrow> Piece_StartTime p \<le> t \<and> t < Piece_EndTime p"

definition chained :: "piece list \<Rightarrow> bool" where
  "chained ps \<longleftrightarrow> sorted_wrt (\<lambda>p q. Piece_EndTime p \<le> Piece_StartTime q) ps \<and>
     (\<forall>p\<in>set ps. Piece_StartTime p < Piece_EndTime p)"

lemma chained_Nil [simp]: "chained []"
  by (simp add: chained_def)

lemma chained_append:
  "chained (ps @ qs) \<longleftrightarrow> chained ps \<and> chained qs \<and>
     (\<forall>p\<in>set ps. \<forall>q\<in>set qs. Piece_EndTime p \<le> Piece_StartTime q)"
  by (auto simp: chained_def sorted_wrt_append)

lemma chained_concat:
  assumes "\<And>ps. ps \<in> set pss \<Longrightarrow> chained ps"
    and "sorted_wrt (\<lambda>ps qs. \<forall>p\<in>set ps. \<forall>q\<in>set qs. Piece_EndTime p \<le> Piece_StartTime q) pss"
  shows "chained (concat pss)"
  using assms by (induction pss) (auto simp: chained_append)

lemma chained_filter: "chained ps \<Longrightarrow> chained (filter P ps)"
  by (auto simp: chained_def intro: sorted_wrt_filter)

lemma chained_sorted: "chained ps \<Longrightarrow> sorted (map Piece_StartTime ps)"
  unfolding chained_def
  by (induction ps) fastforce+

lemma mk_piece_Inr:
  assumes "mk_piece c m tenant resourceType resourceID number timelines a b pending = Inr p"
  shows "Piece_StartTime p = a" "Piece_EndTime p = b" "Key_Meter (Piece_Key p) = Meter_Meter m"
    "Piece_Revision p = number" "Piece_Unit p = Meter_Unit m" "Piece_Pending p = pending"
    "piece_rate m resourceType timelines a = Inr (Piece_RateMicro p)"
    "Key_ResourceType (Piece_Key p) = resourceType" "Key_ResourceID (Piece_Key p) = resourceID"
    "Key_Component (Piece_Key p) = EffectiveComponent m"
  using assms by (auto simp: mk_piece_def ebind_Inr_iff)

lemma sorted_adj_pairs:
  "sorted_wrt (<) xs \<Longrightarrow> sorted_wrt (\<lambda>(a, b) (a', b'). b \<le> a') (adj_pairs (xs :: int list))"
proof (induction xs rule: induct_list012)
  case (3 x y zs)
  have "y \<le> fst q" if "q \<in> set (adj_pairs (y # zs))" for q
    using adj_pairs_mem [of "fst q" "snd q" "y # zs"] that "3.prems" by auto
  then show ?case using 3 by (auto simp: case_prod_beta)
qed auto

text \<open>The span of a run inside a revision's window.\<close>

definition clip :: "run \<Rightarrow> time \<Rightarrow> time \<Rightarrow> time \<times> time" where
  "clip r wStart wEnd = (max (Run_Start r) wStart, min (Run_End r) wEnd)"

lemma run_pieces_eq:
  "run_pieces c m tenant resourceType resourceID number timelines oroot wStart wEnd upTo deletion r =
     (if gateOpen c m number timelines deletion oroot r \<and> fst (clip r wStart wEnd) < snd (clip r wStart wEnd)
      then traverse (\<lambda>(a, b). mk_piece c m tenant resourceType resourceID number timelines a b
                        (\<not> Run_Closed r \<and> Run_End r = upTo))
             (adj_pairs (split_points m resourceType timelines (fst (clip r wStart wEnd)) (snd (clip r wStart wEnd))))
      else Inr [])"
proof -
  have "(if Run_Start r < wStart then wStart else Run_Start r) = fst (clip r wStart wEnd)"
    "(if Run_End r > wEnd then wEnd else Run_End r) = snd (clip r wStart wEnd)"
    by (auto simp: clip_def)
  then show ?thesis unfolding run_pieces_def Let_def by (simp add: split_eq)
qed

lemma traverse_mk_piece_chained:
  assumes "traverse (\<lambda>(a, b). mk_piece c m tenant resourceType resourceID number timelines a b pending)
             (adj_pairs points) = Inr ps" "sorted_wrt (<) points"
  shows "chained ps"
proof -
  have eq: "map (\<lambda>p. (Piece_StartTime p, Piece_EndTime p)) ps = adj_pairs points"
  proof -
    have "map Inr ps = map (\<lambda>(a, b). mk_piece c m tenant resourceType resourceID number timelines a b pending) (adj_pairs points)"
      by (rule traverse_Inr_map [OF assms(1)])
    then have "list_all2 (\<lambda>p (a, b). mk_piece c m tenant resourceType resourceID number timelines a b pending = Inr p)
        ps (adj_pairs points)"
      by (auto simp: list_all2_conv_all_nth list_eq_iff_nth_eq split: prod.splits)
    then have "list_all2 (\<lambda>p x. (Piece_StartTime p, Piece_EndTime p) = x) ps (adj_pairs points)"
      by (rule list.rel_mono_strong) (auto dest: mk_piece_Inr)
    then show ?thesis by (simp add: list_all2_conv_all_nth list_eq_iff_nth_eq)
  qed
  have "sorted_wrt (\<lambda>(a, b) (a', b'). b \<le> a') (map (\<lambda>p. (Piece_StartTime p, Piece_EndTime p)) ps)"
    unfolding eq by (rule sorted_adj_pairs [OF assms(2)])
  moreover have "Piece_StartTime p < Piece_EndTime p" if "p \<in> set ps" for p
    using adj_pairs_less [OF assms(2), of "Piece_StartTime p" "Piece_EndTime p"] that
    by (metis (mono_tags, lifting) eq image_eqI set_map)
  ultimately show ?thesis by (simp add: chained_def sorted_wrt_map)
qed

text \<open>
  \<open>charges\<close> collects what a piece of a meter comes from: a run whose gate is open, clipped to the
  window, and one of the spans it splits into.
\<close>

definition charges ::
  "calculator \<Rightarrow> meter \<Rightarrow> string \<Rightarrow> string \<Rightarrow> string \<Rightarrow> string \<Rightarrow> (string \<Rightarrow> timeline) \<Rightarrow> root option
     \<Rightarrow> time \<Rightarrow> time \<Rightarrow> time \<Rightarrow> time \<Rightarrow> run \<Rightarrow> piece \<Rightarrow> bool" where
  "charges c m tenant resourceType resourceID number timelines oroot wStart wEnd upTo deletion r p \<longleftrightarrow>
     gateOpen c m number timelines deletion oroot r \<and> fst (clip r wStart wEnd) < snd (clip r wStart wEnd) \<and>
     (Piece_StartTime p, Piece_EndTime p) \<in>
       set (adj_pairs (split_points m resourceType timelines (fst (clip r wStart wEnd)) (snd (clip r wStart wEnd)))) \<and>
     mk_piece c m tenant resourceType resourceID number timelines (Piece_StartTime p) (Piece_EndTime p)
       (\<not> Run_Closed r \<and> Run_End r = upTo) = Inr p"

lemma run_pieces_mem:
  assumes "run_pieces c m tenant resourceType resourceID number timelines oroot wStart wEnd upTo deletion r = Inr ps"
  shows "p \<in> set ps \<longleftrightarrow> charges c m tenant resourceType resourceID number timelines oroot wStart wEnd upTo deletion r p"
proof (cases "gateOpen c m number timelines deletion oroot r \<and> fst (clip r wStart wEnd) < snd (clip r wStart wEnd)")
  case True
  let ?spans = "adj_pairs (split_points m resourceType timelines (fst (clip r wStart wEnd)) (snd (clip r wStart wEnd)))"
  let ?mk = "\<lambda>(a, b). mk_piece c m tenant resourceType resourceID number timelines a b (\<not> Run_Closed r \<and> Run_End r = upTo)"
  have ps: "traverse ?mk ?spans = Inr ps" using assms True by (simp only: run_pieces_eq simp_thms if_True)
  show ?thesis
  proof
    assume "p \<in> set ps"
    from traverse_Inr_mem [OF ps this] obtain a b where ab: "(a, b) \<in> set ?spans" "?mk (a, b) = Inr p" by auto
    moreover have "Piece_StartTime p = a" "Piece_EndTime p = b" using ab(2) mk_piece_Inr(1,2) by fastforce+
    ultimately show "charges c m tenant resourceType resourceID number timelines oroot wStart wEnd upTo deletion r p"
      using True by (simp add: charges_def)
  next
    assume "charges c m tenant resourceType resourceID number timelines oroot wStart wEnd upTo deletion r p"
    then have ch: "(Piece_StartTime p, Piece_EndTime p) \<in> set ?spans"
      "?mk (Piece_StartTime p, Piece_EndTime p) = Inr p" by (simp_all add: charges_def)
    from traverse_Inr_ex [OF ps ch(1)] ch(2) show "p \<in> set ps" by auto
  qed
next
  case False
  then have "ps = []" using assms by (auto simp: run_pieces_eq)
  then show ?thesis using False by (auto simp: charges_def)
qed

lemma charges_bounds:
  assumes "charges c m tenant resourceType resourceID number timelines oroot wStart wEnd upTo deletion r p"
  shows "Run_Start r \<le> Piece_StartTime p" "wStart \<le> Piece_StartTime p" "Piece_EndTime p \<le> Run_End r"
    "Piece_EndTime p \<le> wEnd" "Piece_StartTime p < Piece_EndTime p"
proof -
  from assms have lt: "fst (clip r wStart wEnd) < snd (clip r wStart wEnd)"
    and ab: "(Piece_StartTime p, Piece_EndTime p) \<in>
       set (adj_pairs (split_points m resourceType timelines (fst (clip r wStart wEnd)) (snd (clip r wStart wEnd))))"
    by (simp_all add: charges_def)
  from split_span_bounds [OF lt ab]
  show "Run_Start r \<le> Piece_StartTime p" "wStart \<le> Piece_StartTime p" "Piece_EndTime p \<le> Run_End r"
    "Piece_EndTime p \<le> wEnd" "Piece_StartTime p < Piece_EndTime p"
    by (auto simp: clip_def)
qed

lemma run_pieces_chained:
  assumes "run_pieces c m tenant resourceType resourceID number timelines oroot wStart wEnd upTo deletion r = Inr ps"
  shows "chained ps"
  using assms unfolding run_pieces_eq
  by (auto split: if_splits intro: traverse_mk_piece_chained [OF _ split_points_strict])

lemma meterPieces_mem:
  assumes "meterPieces c m tenant resourceType resourceID number timelines oroot wStart wEnd end upTo deletion = Inr ps"
  shows "p \<in> set ps \<longleftrightarrow> (\<exists>r\<in>set (billableRuns m timelines end deletion).
           charges c m tenant resourceType resourceID number timelines oroot wStart wEnd upTo deletion r p)"
proof -
  from assms obtain pss where pss: "ps = concat pss"
    "traverse (run_pieces c m tenant resourceType resourceID number timelines oroot wStart wEnd upTo deletion)
       (billableRuns m timelines end deletion) = Inr pss"
    by (auto simp: meterPieces_def ebind_Inr_iff)
  show ?thesis using traverse_Inr_mem [OF pss(2)] traverse_Inr_ex [OF pss(2)] run_pieces_mem
    unfolding pss(1) set_concat by (smt (verit, ccfv_SIG) UN_iff)
qed

lemma meterPieces_chained:
  assumes "meterPieces c m tenant resourceType resourceID number timelines oroot wStart wEnd end upTo deletion = Inr ps"
  shows "chained ps"
proof -
  let ?run = "run_pieces c m tenant resourceType resourceID number timelines oroot wStart wEnd upTo deletion"
  let ?runs = "billableRuns m timelines end deletion"
  from assms obtain pss where pss: "ps = concat pss" "traverse ?run ?runs = Inr pss"
    by (auto simp: meterPieces_def ebind_Inr_iff)
  have rel: "list_all2 (\<lambda>qs r. ?run r = Inr qs) pss ?runs"
    using traverse_Inr_map [OF pss(2)] by (auto simp: list_all2_conv_all_nth list_eq_iff_nth_eq)
  show ?thesis unfolding pss(1)
  proof (rule chained_concat)
    fix qs assume "qs \<in> set pss"
    then show "chained qs" using traverse_Inr_mem [OF pss(2)] run_pieces_chained by blast
  next
    have "Piece_EndTime p \<le> Piece_StartTime q"
      if ij: "i < j" "j < length pss" and p: "p \<in> set (pss ! i)" and q: "q \<in> set (pss ! j)" for i j p q
    proof -
      have len: "length pss = length ?runs" using rel by (rule list_all2_lengthD)
      have "Run_End (?runs ! i) < Run_Start (?runs ! j)"
        using billableRuns_ok [of "end" deletion m timelines] ij len
        by (auto simp: runs_ok_def sorted_wrt_iff_nth_less)
      moreover have "Piece_EndTime p \<le> Run_End (?runs ! i)"
      proof -
        from ij have "?run (?runs ! i) = Inr (pss ! i)" by (intro list_all2_nthD [OF rel]) simp
        from charges_bounds(3) [OF run_pieces_mem [OF this, THEN iffD1, OF p]] show ?thesis .
      qed
      moreover have "Run_Start (?runs ! j) \<le> Piece_StartTime q"
      proof -
        from ij have "?run (?runs ! j) = Inr (pss ! j)" by (intro list_all2_nthD [OF rel])
        from charges_bounds(1) [OF run_pieces_mem [OF this, THEN iffD1, OF q]] show ?thesis .
      qed
      ultimately show ?thesis by simp
    qed
    then show "sorted_wrt (\<lambda>ps qs. \<forall>p\<in>set ps. \<forall>q\<in>set qs. Piece_EndTime p \<le> Piece_StartTime q) pss"
      by (simp add: sorted_wrt_iff_nth_less)
  qed
qed

section \<open>Pieces of one resource\<close>

text \<open>The revision in force at a moment: the last one effective at or before it.\<close>

definition in_force :: "revision list \<Rightarrow> time \<Rightarrow> revision option" where
  "in_force revisions t =
     (case filter (\<lambda>r. Revision_EffectiveAt r \<le> t) revisions of [] \<Rightarrow> None | rs \<Rightarrow> Some (last rs))"

lemma in_force_Nil [simp]: "in_force [] t = None"
  by (simp add: in_force_def)

lemma in_force_before:
  "sorted (map Revision_EffectiveAt rs) \<Longrightarrow> rs \<noteq> [] \<Longrightarrow> t < Revision_EffectiveAt (hd rs) \<Longrightarrow> in_force rs t = None"
proof (cases rs)
  case (Cons r rs')
  assume "sorted (map Revision_EffectiveAt rs)" "t < Revision_EffectiveAt (hd rs)"
  then have "filter (\<lambda>r. Revision_EffectiveAt r \<le> t) rs = []" using Cons by (auto simp: filter_empty_conv)
  then show ?thesis by (simp add: in_force_def)
qed simp

lemma in_force_Cons:
  assumes "sorted (map Revision_EffectiveAt (r # rs))"
  shows "in_force (r # rs) t =
    (if Revision_EffectiveAt r \<le> t \<and> (rs \<noteq> [] \<longrightarrow> t < Revision_EffectiveAt (hd rs)) then Some r else in_force rs t)"
proof (cases rs)
  case (Cons r' rs')
  have "filter (\<lambda>r. Revision_EffectiveAt r \<le> t) rs = []" if "t < Revision_EffectiveAt r'"
    using assms that Cons by (auto simp: filter_empty_conv)
  then show ?thesis using assms Cons by (auto simp: in_force_def split: list.splits)
qed (simp add: in_force_def)

text \<open>
  A meter charges a moment when it lies in a run of the meter whose gate is open; a piece states a
  charge at a moment when it carries the meter's key, unit and revision and the rate at that moment.
\<close>

definition charged_at ::
  "calculator \<Rightarrow> (string \<Rightarrow> timeline) \<Rightarrow> root option \<Rightarrow> time \<Rightarrow> time \<Rightarrow> revision \<Rightarrow> meter \<Rightarrow> time \<Rightarrow> bool" where
  "charged_at c timelines oroot end deletion r m t \<longleftrightarrow>
     (\<exists>rn\<in>set (billableRuns m timelines end deletion).
        Run_Start rn \<le> t \<and> t < Run_End rn \<and> gateOpen c m (Revision_Number r) timelines deletion oroot rn)"

definition states_charge ::
  "string \<Rightarrow> string \<Rightarrow> (string \<Rightarrow> timeline) \<Rightarrow> revision \<Rightarrow> meter \<Rightarrow> time \<Rightarrow> piece \<Rightarrow> bool" where
  "states_charge resourceType resourceID timelines r m t p \<longleftrightarrow>
     Key_ResourceType (Piece_Key p) = resourceType \<and> Key_ResourceID (Piece_Key p) = resourceID \<and>
     Key_Meter (Piece_Key p) = Meter_Meter m \<and> Key_Component (Piece_Key p) = EffectiveComponent m \<and>
     Piece_Unit p = Meter_Unit m \<and> Piece_Revision p = Revision_Number r \<and>
     piece_rate m resourceType timelines t = Inr (Piece_RateMicro p)"

lemma piece_rate_cong:
  assumes "Meter_Multiplier m \<noteq> '''' \<Longrightarrow>
    valueAt (timelines (fst (DimensionPath resourceType (Meter_Multiplier m)))) t =
    valueAt (timelines (fst (DimensionPath resourceType (Meter_Multiplier m)))) a"
  shows "piece_rate m resourceType timelines t = piece_rate m resourceType timelines a"
  using assms by (simp add: piece_rate_def)

lemma charges_states_charge:
  assumes "charges c m tenant resourceType resourceID (Revision_Number r) timelines oroot wStart wEnd upTo deletion rn p"
    and "holds_at p t"
  shows "states_charge resourceType resourceID timelines r m t p"
proof -
  from assms(1) have mk: "mk_piece c m tenant resourceType resourceID (Revision_Number r) timelines
      (Piece_StartTime p) (Piece_EndTime p) (\<not> Run_Closed rn \<and> Run_End rn = upTo) = Inr p"
    and lt: "fst (clip rn wStart wEnd) < snd (clip rn wStart wEnd)"
    and ab: "(Piece_StartTime p, Piece_EndTime p) \<in>
       set (adj_pairs (split_points m resourceType timelines (fst (clip rn wStart wEnd)) (snd (clip rn wStart wEnd))))"
    by (simp_all add: charges_def)
  have "piece_rate m resourceType timelines t = piece_rate m resourceType timelines (Piece_StartTime p)"
  proof (rule piece_rate_cong)
    assume "Meter_Multiplier m \<noteq> ''''"
    then show "valueAt (timelines (fst (DimensionPath resourceType (Meter_Multiplier m)))) t =
      valueAt (timelines (fst (DimensionPath resourceType (Meter_Multiplier m)))) (Piece_StartTime p)"
      using assms(2) by (intro split_span_constant [OF lt ab]) (simp_all add: holds_at_def)
  qed
  then show ?thesis using mk_piece_Inr [OF mk] by (simp add: states_charge_def)
qed

lemma charges_charged_at:
  assumes "charges c m tenant resourceType resourceID (Revision_Number r) timelines oroot wStart wEnd upTo deletion rn p"
    and "holds_at p t" and "rn \<in> set (billableRuns m timelines end deletion)"
  shows "charged_at c timelines oroot end deletion r m t \<and> wStart \<le> t \<and> t < wEnd"
proof -
  from assms(2) have "Piece_StartTime p \<le> t" "t < Piece_EndTime p" by (simp_all add: holds_at_def)
  with charges_bounds [OF assms(1)] have "Run_Start rn \<le> t" "t < Run_End rn" "wStart \<le> t" "t < wEnd" by linarith+
  moreover have "gateOpen c m (Revision_Number r) timelines deletion oroot rn" using assms(1) by (simp add: charges_def)
  ultimately show ?thesis using assms(3) unfolding charged_at_def by blast
qed

text \<open>The window of a revision: from its effective time or the creation to the next one or the end.\<close>

lemma window_pieces_Inr:
  assumes "window_pieces c tenant resourceType resourceID timelines oroot creation end upTo deletion r nxt = Inr ps"
  defines "wStart \<equiv> max (Revision_EffectiveAt r) creation"
    and "wEnd \<equiv> (case nxt of None \<Rightarrow> end | Some t \<Rightarrow> min t end)"
  obtains pss where "ps = concat pss"
    "list_all2 (\<lambda>qs m. meterPieces c m tenant resourceType resourceID (Revision_Number r) timelines oroot
        wStart wEnd end upTo deletion = Inr qs) pss
       (if wStart < wEnd then filter (\<lambda>m. Meter_Resource m = resourceType) (Revision_Meters r) else [])"
proof -
  have ws: "(if Revision_EffectiveAt r < creation then creation else Revision_EffectiveAt r) = wStart"
    by (auto simp: wStart_def)
  have we: "(case nxt of None \<Rightarrow> end | Some t \<Rightarrow> if t < end then t else end) = wEnd"
    by (auto simp: wEnd_def split: option.splits)
  show ?thesis
  proof (cases "wStart < wEnd")
    case True
    then obtain pss where pss: "ps = concat pss"
      "traverse (\<lambda>m. meterPieces c m tenant resourceType resourceID (Revision_Number r) timelines oroot
          wStart wEnd end upTo deletion) (filter (\<lambda>m. Meter_Resource m = resourceType) (Revision_Meters r)) = Inr pss"
      using assms(1) unfolding window_pieces_def Let_def ws we by (auto simp: ebind_Inr_iff)
    show ?thesis
      by (rule that [OF pss(1)]) (use traverse_Inr_map [OF pss(2)] True in
        \<open>auto simp: list_all2_conv_all_nth list_eq_iff_nth_eq\<close>)
  next
    case False
    then have "ps = []" using assms(1) unfolding window_pieces_def Let_def ws we by simp
    then show ?thesis using that [of "[]"] False by simp
  qed
qed

lemma window_pieces_mem:
  assumes "window_pieces c tenant resourceType resourceID timelines oroot creation end upTo deletion r nxt = Inr ps"
  shows "p \<in> set ps \<longleftrightarrow> (\<exists>m\<in>set (Revision_Meters r). Meter_Resource m = resourceType \<and>
           (\<exists>rn\<in>set (billableRuns m timelines end deletion).
              charges c m tenant resourceType resourceID (Revision_Number r) timelines oroot
                (max (Revision_EffectiveAt r) creation) (case nxt of None \<Rightarrow> end | Some t \<Rightarrow> min t end)
                upTo deletion rn p))"
    (is "_ \<longleftrightarrow> (\<exists>m\<in>_. _ \<and> ?ch m)")
proof -
  let ?ws = "max (Revision_EffectiveAt r) creation" and ?we = "case nxt of None \<Rightarrow> end | Some t \<Rightarrow> min t end"
  let ?ms = "if ?ws < ?we then filter (\<lambda>m. Meter_Resource m = resourceType) (Revision_Meters r) else []"
  let ?mp = "\<lambda>m. meterPieces c m tenant resourceType resourceID (Revision_Number r) timelines oroot ?ws ?we end upTo deletion"
  from window_pieces_Inr [OF assms] obtain pss where pss: "ps = concat pss"
    and rel: "list_all2 (\<lambda>qs m. ?mp m = Inr qs) pss ?ms" by blast
  have "p \<in> set ps \<longleftrightarrow> (\<exists>m\<in>set ?ms. ?ch m)"
  proof
    assume "p \<in> set ps"
    then obtain qs where "qs \<in> set pss" "p \<in> set qs" by (auto simp: pss)
    moreover from list_all2_mem1 [OF rel this(1)] obtain m where "m \<in> set ?ms" "?mp m = Inr qs" by blast
    ultimately show "\<exists>m\<in>set ?ms. ?ch m" using meterPieces_mem by blast
  next
    assume "\<exists>m\<in>set ?ms. ?ch m"
    then obtain m where m: "m \<in> set ?ms" "?ch m" by blast
    from list_all2_mem2 [OF rel m(1)] obtain qs where qs: "qs \<in> set pss" "?mp m = Inr qs" by blast
    then have "p \<in> set qs" using meterPieces_mem m(2) by blast
    with qs(1) show "p \<in> set ps" by (auto simp: pss)
  qed
  moreover have "?ws < ?we" if "?ch m" for m
  proof -
    from that obtain rn where "charges c m tenant resourceType resourceID (Revision_Number r) timelines oroot
        ?ws ?we upTo deletion rn p" by blast
    from charges_bounds(2,4,5) [OF this] show ?thesis by linarith
  qed
  ultimately show ?thesis by auto
qed

lemma run_pieces_cover:
  assumes ps: "run_pieces c m tenant resourceType resourceID number timelines oroot wStart wEnd upTo deletion rn = Inr ps"
    and gate: "gateOpen c m number timelines deletion oroot rn"
    and t: "Run_Start rn \<le> t" "t < Run_End rn" "wStart \<le> t" "t < wEnd"
  shows "\<exists>p\<in>set ps. holds_at p t"
proof -
  let ?a = "fst (clip rn wStart wEnd)" and ?b = "snd (clip rn wStart wEnd)"
  have ab: "?a \<le> t" "t < ?b" using t by (simp_all add: clip_def)
  then have "?a < ?b" by linarith
  then have tr: "traverse (\<lambda>(a, b). mk_piece c m tenant resourceType resourceID number timelines a b
        (\<not> Run_Closed rn \<and> Run_End rn = upTo)) (adj_pairs (split_points m resourceType timelines ?a ?b)) = Inr ps"
    using ps gate by (simp only: run_pieces_eq simp_thms if_True)
  from split_span_cover [OF ab] obtain a b
    where span: "(a, b) \<in> set (adj_pairs (split_points m resourceType timelines ?a ?b))" "a \<le> t" "t < b" by blast
  from traverse_Inr_ex [OF tr span(1)] obtain p where "p \<in> set ps"
    "mk_piece c m tenant resourceType resourceID number timelines a b (\<not> Run_Closed rn \<and> Run_End rn = upTo) = Inr p"
    by auto
  then show ?thesis using span mk_piece_Inr(1,2) by (intro bexI [of _ p]) (auto simp: holds_at_def)
qed

lemma window_pieces_cover:
  assumes ps: "window_pieces c tenant resourceType resourceID timelines oroot creation end upTo deletion r nxt = Inr ps"
    and m: "m \<in> set (Revision_Meters r)" "Meter_Resource m = resourceType"
    and ch: "charged_at c timelines oroot end deletion r m t"
    and t: "Revision_EffectiveAt r \<le> t" "creation \<le> t" "t < end" "case nxt of None \<Rightarrow> True | Some n \<Rightarrow> t < n"
  shows "\<exists>p\<in>set ps. holds_at p t \<and> states_charge resourceType resourceID timelines r m t p"
proof -
  let ?ws = "max (Revision_EffectiveAt r) creation" and ?we = "case nxt of None \<Rightarrow> end | Some t \<Rightarrow> min t end"
  let ?mp = "\<lambda>m. meterPieces c m tenant resourceType resourceID (Revision_Number r) timelines oroot ?ws ?we end upTo deletion"
  let ?rp = "run_pieces c m tenant resourceType resourceID (Revision_Number r) timelines oroot ?ws ?we upTo deletion"
  have w: "?ws \<le> t" "t < ?we" using t by (auto split: option.splits)
  then have lt: "?ws < ?we" by linarith
  from window_pieces_Inr [OF ps] obtain pss where pss: "ps = concat pss"
    and "list_all2 (\<lambda>qs m. ?mp m = Inr qs) pss
      (if ?ws < ?we then filter (\<lambda>m. Meter_Resource m = resourceType) (Revision_Meters r) else [])" by blast
  note rel = this(2) [unfolded if_P [OF lt]]
  from list_all2_mem2 [OF rel, of m] m obtain qs where qs: "qs \<in> set pss" "?mp m = Inr qs" by auto
  from ch obtain rn where rn: "rn \<in> set (billableRuns m timelines end deletion)" "Run_Start rn \<le> t" "t < Run_End rn"
    "gateOpen c m (Revision_Number r) timelines deletion oroot rn" by (auto simp: charged_at_def)
  from qs(2) obtain rss where rss: "qs = concat rss" "traverse ?rp (billableRuns m timelines end deletion) = Inr rss"
    by (auto simp: meterPieces_def ebind_Inr_iff)
  from traverse_Inr_ex [OF rss(2) rn(1)] obtain rs where rs: "rs \<in> set rss" "?rp rn = Inr rs" by blast
  from run_pieces_cover [OF rs(2) rn(4,2,3) w] obtain p where p: "p \<in> set rs" "holds_at p t" by blast
  have "p \<in> set qs" using p(1) rs(1) by (auto simp: rss(1))
  then have "p \<in> set ps" using qs(1) by (auto simp: pss)
  moreover have "states_charge resourceType resourceID timelines r m t p"
    using charges_states_charge [OF run_pieces_mem [OF rs(2), THEN iffD1, OF p(1)] p(2)] .
  ultimately show ?thesis using p(2) by blast
qed

lemma window_pieces_sound:
  assumes "window_pieces c tenant resourceType resourceID timelines oroot creation end upTo deletion r nxt = Inr ps"
    and "p \<in> set ps" and "holds_at p t"
  shows "Revision_EffectiveAt r \<le> t \<and> creation \<le> t \<and> t < end \<and> (case nxt of None \<Rightarrow> True | Some n \<Rightarrow> t < n)"
    and "\<exists>m\<in>set (Revision_Meters r). Meter_Resource m = resourceType \<and>
           charged_at c timelines oroot end deletion r m t \<and> states_charge resourceType resourceID timelines r m t p"
proof -
  from window_pieces_mem [OF assms(1), THEN iffD1, OF assms(2)] obtain m rn
    where m: "m \<in> set (Revision_Meters r)" "Meter_Resource m = resourceType"
      and rn: "rn \<in> set (billableRuns m timelines end deletion)"
      and ch: "charges c m tenant resourceType resourceID (Revision_Number r) timelines oroot
                (max (Revision_EffectiveAt r) creation) (case nxt of None \<Rightarrow> end | Some t \<Rightarrow> min t end)
                upTo deletion rn p" by blast
  from charges_charged_at [OF ch assms(3) rn] charges_states_charge [OF ch assms(3)] m
  show "\<exists>m\<in>set (Revision_Meters r). Meter_Resource m = resourceType \<and>
      charged_at c timelines oroot end deletion r m t \<and> states_charge resourceType resourceID timelines r m t p"
    by blast
  from charges_charged_at [OF ch assms(3) rn]
  show "Revision_EffectiveAt r \<le> t \<and> creation \<le> t \<and> t < end \<and> (case nxt of None \<Rightarrow> True | Some n \<Rightarrow> t < n)"
    by (auto split: option.splits)
qed

text \<open>\<open>next_effective rs\<close> is the bound the following revision puts on a window.\<close>

definition next_effective :: "revision list \<Rightarrow> time option" where
  "next_effective rs = (case rs of [] \<Rightarrow> None | r # _ \<Rightarrow> Some (Revision_EffectiveAt r))"

lemma revision_pieces_Cons:
  "revision_pieces f (r # rs) = ebind (f r (next_effective rs)) (\<lambda>ps. ebind (revision_pieces f rs) (\<lambda>qs. Inr (ps @ qs)))"
proof (cases rs)
  case Nil
  then show ?thesis by (cases "f r None") (simp_all add: next_effective_def)
qed (simp add: next_effective_def)

lemma revision_pieces_sound:
  assumes "revision_pieces (window_pieces c tenant resourceType resourceID timelines oroot creation end upTo deletion) rs = Inr ps"
    and "sorted (map Revision_EffectiveAt rs)" and "p \<in> set ps" and "holds_at p t"
  shows "creation \<le> t \<and> t < end \<and> (\<exists>r. in_force rs t = Some r \<and> (\<exists>m\<in>set (Revision_Meters r).
           Meter_Resource m = resourceType \<and> charged_at c timelines oroot end deletion r m t \<and>
           states_charge resourceType resourceID timelines r m t p))"
  using assms
proof (induction rs arbitrary: ps)
  case (Cons r rs)
  let ?F = "window_pieces c tenant resourceType resourceID timelines oroot creation end upTo deletion"
  from Cons.prems(1) obtain us vs where uv: "?F r (next_effective rs) = Inr us" "revision_pieces ?F rs = Inr vs" "ps = us @ vs"
    by (auto simp: revision_pieces_Cons ebind_Inr_iff)
  show ?case
  proof (cases "p \<in> set us")
    case True
    note w = window_pieces_sound [OF uv(1) True Cons.prems(4)]
    have "in_force (r # rs) t = Some r"
      using w(1) unfolding in_force_Cons [OF Cons.prems(2)] by (auto simp: next_effective_def split: list.splits)
    then show ?thesis using w by auto
  next
    case False
    then have "p \<in> set vs" using Cons.prems(3) uv(3) by simp
    from Cons.IH [OF uv(2) _ this Cons.prems(4)] Cons.prems(2)
    obtain r' where r': "in_force rs t = Some r'" and rest: "creation \<le> t \<and> t < end \<and> (\<exists>m\<in>set (Revision_Meters r').
           Meter_Resource m = resourceType \<and> charged_at c timelines oroot end deletion r' m t \<and>
           states_charge resourceType resourceID timelines r' m t p)" by auto
    have "rs \<noteq> [] \<and> \<not> t < Revision_EffectiveAt (hd rs)"
      using r' in_force_before [of rs t] Cons.prems(2) by (cases "rs = []") auto
    then have "in_force (r # rs) t = Some r'" using r' unfolding in_force_Cons [OF Cons.prems(2)] by auto
    then show ?thesis using rest by blast
  qed
qed simp

lemma revision_pieces_complete:
  assumes "revision_pieces (window_pieces c tenant resourceType resourceID timelines oroot creation end upTo deletion) rs = Inr ps"
    and "sorted (map Revision_EffectiveAt rs)" and "in_force rs t = Some r" and "creation \<le> t" "t < end"
    and "m \<in> set (Revision_Meters r)" "Meter_Resource m = resourceType" "charged_at c timelines oroot end deletion r m t"
  shows "\<exists>p\<in>set ps. holds_at p t \<and> states_charge resourceType resourceID timelines r m t p"
  using assms
proof (induction rs arbitrary: ps)
  case (Cons r0 rs)
  let ?F = "window_pieces c tenant resourceType resourceID timelines oroot creation end upTo deletion"
  from Cons.prems(1) obtain us vs where uv: "?F r0 (next_effective rs) = Inr us" "revision_pieces ?F rs = Inr vs" "ps = us @ vs"
    by (auto simp: revision_pieces_Cons ebind_Inr_iff)
  show ?case
  proof (cases "Revision_EffectiveAt r0 \<le> t \<and> (rs \<noteq> [] \<longrightarrow> t < Revision_EffectiveAt (hd rs))")
    case True
    then have [simp]: "r0 = r" using Cons.prems(3) unfolding in_force_Cons [OF Cons.prems(2)] by simp
    have "\<exists>p\<in>set us. holds_at p t \<and> states_charge resourceType resourceID timelines r m t p"
      using True Cons.prems
      by (intro window_pieces_cover [OF uv(1) [simplified]]) (auto simp: next_effective_def split: list.splits)
    then show ?thesis using uv(3) by auto
  next
    case False
    then have "in_force rs t = Some r" using Cons.prems(3) unfolding in_force_Cons [OF Cons.prems(2)] by auto
    from Cons.IH [OF uv(2) _ this] Cons.prems show ?thesis using uv(3) by auto
  qed
qed simp

section \<open>No moment is charged twice to a meter\<close>

abbreviation of_meter :: "string \<Rightarrow> piece \<Rightarrow> bool" where
  "of_meter n p \<equiv> Key_Meter (Piece_Key p) = n"

text \<open>A revision names each meter of a resource once; \<open>validate\<close> refuses one that does not.\<close>

definition names_meters_once :: "revision \<Rightarrow> bool" where
  "names_meters_once r \<longleftrightarrow> distinct (map meter_key (Revision_Meters r))"

lemma names_meters_once_resource:
  assumes "names_meters_once r"
  shows "distinct (map Meter_Meter (filter (\<lambda>m. Meter_Resource m = resourceType) (Revision_Meters r)))"
proof -
  have "distinct (map Meter_Meter (filter (\<lambda>m. Meter_Resource m = resourceType) ms))"
    if "distinct (map meter_key ms)" for ms
    using that
  proof (induction ms)
    case (Cons a ms)
    have "Meter_Meter a \<noteq> Meter_Meter x" if "x \<in> set ms" "Meter_Resource x = Meter_Resource a" for x
    proof
      assume "Meter_Meter a = Meter_Meter x"
      then have "meter_key a = meter_key x" using that(2) by (simp add: meter_key_def)
      then show False using Cons.prems that(1) by auto
    qed
    then show ?case using Cons by auto
  qed simp
  then show ?thesis using assms by (simp add: names_meters_once_def)
qed

lemma concat_meter_chained:
  assumes "list_all2 (\<lambda>qs m. chained qs \<and> (\<forall>p\<in>set qs. of_meter (Meter_Meter m) p)) pss ms"
    and "distinct (map Meter_Meter ms)"
  shows "chained (filter (of_meter n) (concat pss))"
  using assms
proof (induction rule: list_all2_induct)
  case (Cons qs pss m ms)
  show ?case
  proof (cases "Meter_Meter m = n")
    case True
    have "filter (of_meter n) (concat pss) = []"
    proof -
      have "\<not> of_meter n p" if "p \<in> set (concat pss)" for p
      proof -
        from that obtain rs where rs: "rs \<in> set pss" "p \<in> set rs" by auto
        from list_all2_mem1 [OF Cons.hyps(2) rs(1)] obtain m' where "m' \<in> set ms" "of_meter (Meter_Meter m') p"
          using rs(2) by blast
        then show ?thesis using Cons.prems True by force
      qed
      then show ?thesis by (simp add: filter_empty_conv)
    qed
    then show ?thesis using Cons.hyps(1) by (simp add: chained_filter)
  next
    case False
    then have "filter (of_meter n) qs = []" using Cons.hyps(1) by (auto simp: filter_empty_conv)
    then show ?thesis using Cons by simp
  qed
qed simp

lemma charges_meter:
  assumes "charges c m tenant resourceType resourceID number timelines oroot wStart wEnd upTo deletion r p"
  shows "of_meter (Meter_Meter m) p"
  using assms mk_piece_Inr(3) unfolding charges_def by blast

lemma window_pieces_chained:
  assumes "window_pieces c tenant resourceType resourceID timelines oroot creation end upTo deletion r nxt = Inr ps"
    and "names_meters_once r"
  shows "chained (filter (of_meter n) ps)"
proof -
  let ?ws = "max (Revision_EffectiveAt r) creation" and ?we = "case nxt of None \<Rightarrow> end | Some t \<Rightarrow> min t end"
  let ?mp = "\<lambda>m. meterPieces c m tenant resourceType resourceID (Revision_Number r) timelines oroot ?ws ?we end upTo deletion"
  let ?ms = "if ?ws < ?we then filter (\<lambda>m. Meter_Resource m = resourceType) (Revision_Meters r) else []"
  from window_pieces_Inr [OF assms(1)] obtain pss where pss: "ps = concat pss"
    and rel: "list_all2 (\<lambda>qs m. ?mp m = Inr qs) pss ?ms" by blast
  have "list_all2 (\<lambda>qs m. chained qs \<and> (\<forall>p\<in>set qs. of_meter (Meter_Meter m) p)) pss ?ms"
    using rel
  proof (rule list.rel_mono_strong)
    fix qs m assume mp: "?mp m = Inr qs"
    show "chained qs \<and> (\<forall>p\<in>set qs. of_meter (Meter_Meter m) p)"
      using meterPieces_chained [OF mp] meterPieces_mem [OF mp] charges_meter by blast
  qed
  moreover have "distinct (map Meter_Meter ?ms)"
    using names_meters_once_resource [OF assms(2)] by simp
  ultimately show ?thesis unfolding pss by (rule concat_meter_chained)
qed

lemma window_pieces_bounds:
  assumes "window_pieces c tenant resourceType resourceID timelines oroot creation end upTo deletion r nxt = Inr ps"
    and "p \<in> set ps"
  shows "Revision_EffectiveAt r \<le> Piece_StartTime p" "creation \<le> Piece_StartTime p" "Piece_EndTime p \<le> end"
    "Piece_StartTime p < Piece_EndTime p" "nxt = Some t \<Longrightarrow> Piece_EndTime p \<le> t"
proof -
  from window_pieces_mem [OF assms(1), THEN iffD1, OF assms(2)] obtain m rn where
    "charges c m tenant resourceType resourceID (Revision_Number r) timelines oroot
       (max (Revision_EffectiveAt r) creation) (case nxt of None \<Rightarrow> end | Some t \<Rightarrow> min t end) upTo deletion rn p" by blast
  from charges_bounds [OF this]
  show "Revision_EffectiveAt r \<le> Piece_StartTime p" "creation \<le> Piece_StartTime p" "Piece_EndTime p \<le> end"
    "Piece_StartTime p < Piece_EndTime p" "nxt = Some t \<Longrightarrow> Piece_EndTime p \<le> t"
    by (auto split: option.splits)
qed

lemma revision_pieces_chained:
  assumes "revision_pieces (window_pieces c tenant resourceType resourceID timelines oroot creation end upTo deletion) rs = Inr ps"
    and "sorted (map Revision_EffectiveAt rs)" and "\<forall>r\<in>set rs. names_meters_once r"
  shows "chained (filter (of_meter n) ps) \<and>
    (\<forall>p\<in>set ps. creation \<le> Piece_StartTime p \<and> Piece_StartTime p < Piece_EndTime p \<and> Piece_EndTime p \<le> end \<and>
       Revision_EffectiveAt (hd rs) \<le> Piece_StartTime p)"
  using assms
proof (induction rs arbitrary: ps)
  case (Cons r rs)
  let ?F = "window_pieces c tenant resourceType resourceID timelines oroot creation end upTo deletion"
  from Cons.prems(1) obtain us vs where uv: "?F r (next_effective rs) = Inr us" "revision_pieces ?F rs = Inr vs" "ps = us @ vs"
    by (auto simp: revision_pieces_Cons ebind_Inr_iff)
  note vs = Cons.IH [OF uv(2)]
  have vs_ok: "chained (filter (of_meter n) vs)" "\<And>q. q \<in> set vs \<Longrightarrow> creation \<le> Piece_StartTime q \<and>
      Piece_StartTime q < Piece_EndTime q \<and> Piece_EndTime q \<le> end \<and> Revision_EffectiveAt (hd rs) \<le> Piece_StartTime q"
    using vs Cons.prems by auto
  have nil: "vs = []" if "rs = []" using uv(2) that by simp
  have "Piece_EndTime p \<le> Piece_StartTime q" if "p \<in> set us" "q \<in> set vs" for p q
    using window_pieces_bounds(5) [OF uv(1) that(1), of "Revision_EffectiveAt (hd rs)"] vs_ok(2) [OF that(2)] nil that(2)
    by (cases rs) (auto simp: next_effective_def)
  moreover have "Revision_EffectiveAt r \<le> Piece_StartTime q" if "q \<in> set vs" for q
    using vs_ok(2) [OF that] nil that Cons.prems(2) by (cases rs) auto
  ultimately show ?case
    using vs_ok window_pieces_chained [OF uv(1), of n] window_pieces_bounds [OF uv(1)] Cons.prems(3)
    unfolding uv(3) by (auto simp: chained_append)
qed simp

end
