(* ===== verification/Usage_Threshold.thy ===== *)
theory Usage_Threshold
  imports Usage_Pieces
begin

text \<open>
  The threshold of \<open>applyRunThreshold\<close> on contiguous stretches of a meter, and the properties of the
  pieces \<open>Expected\<close> returns after it.
\<close>

section \<open>Stretches\<close>

abbreviation joins :: "piece \<Rightarrow> piece \<Rightarrow> bool" where
  "joins p q \<equiv> Key_Meter (Piece_Key p) = Key_Meter (Piece_Key q) \<and> Piece_EndTime p = Piece_StartTime q"

definition stretch :: "piece list \<Rightarrow> bool" where
  "stretch s \<longleftrightarrow> s \<noteq> [] \<and> (\<forall>(p, q)\<in>set (adj_pairs s). joins p q)"

definition stretches_of :: "piece list \<Rightarrow> piece list list \<Rightarrow> bool" where
  "stretches_of ps ss \<longleftrightarrow> concat ss = ps \<and> (\<forall>s\<in>set ss. stretch s) \<and>
     (\<forall>(s, s')\<in>set (adj_pairs ss). \<not> joins (last s) (hd s'))"

lemma stretch_single [simp]: "stretch [p]"
  by (simp add: stretch_def)

lemma stretch_snoc:
  "stretch s \<Longrightarrow> joins (last s) p \<Longrightarrow> stretch (s @ [p])"
  by (auto simp: stretch_def adj_pairs_snoc)

lemma stretch_meter: "stretch s \<Longrightarrow> p \<in> set s \<Longrightarrow> Key_Meter (Piece_Key p) = Key_Meter (Piece_Key (hd s))"
proof (induction s rule: induct_list012)
  case (3 x y zs)
  then have "stretch (y # zs)" and xy: "joins x y" by (auto simp: stretch_def)
  with 3 have "p \<in> set (y # zs) \<Longrightarrow> Key_Meter (Piece_Key p) = Key_Meter (Piece_Key y)" by simp
  then show ?case using "3.prems"(2) xy by auto
qed (auto simp: stretch_def)

lemma stretch_last_meter: "stretch s \<Longrightarrow> Key_Meter (Piece_Key (hd s)) = Key_Meter (Piece_Key (last s))"
  using stretch_meter [of s "last s"] by (simp add: stretch_def)

lemma adj_pairs_butlast_snoc:
  "xs \<noteq> [] \<Longrightarrow> (\<forall>(a, b)\<in>set (adj_pairs xs). P a b) \<Longrightarrow> (\<And>a. P a (last xs) \<Longrightarrow> P a y) \<Longrightarrow>
   (\<forall>(a, b)\<in>set (adj_pairs (butlast xs @ [y])). P a b)"
proof (induction xs rule: rev_induct)
  case (snoc x xs)
  then show ?case by (cases "xs = []") (auto simp: adj_pairs_snoc)
qed simp

lemma add_stretch_of:
  assumes "stretches_of ps ss"
  shows "stretches_of (ps @ [p]) (add_stretch ss p)"
proof (cases "ss \<noteq> [] \<and> Key_Meter (Piece_Key (hd (last ss))) = Key_Meter (Piece_Key p) \<and>
    Piece_EndTime (last (last ss)) = Piece_StartTime p")
  case True
  then have ne: "ss \<noteq> []" by simp
  then have str: "stretch (last ss)" using assms by (simp add: stretches_of_def)
  have "stretch (last ss @ [p])" using str True stretch_last_meter [OF str] by (intro stretch_snoc) auto
  moreover have "concat (butlast ss @ [last ss @ [p]]) = ps @ [p]"
  proof -
    have "concat (butlast ss @ [last ss @ [p]]) = concat (butlast ss @ [last ss]) @ [p]" by simp
    also have "\<dots> = concat ss @ [p]" by (simp only: append_butlast_last_id [OF ne])
    finally show ?thesis using assms by (simp add: stretches_of_def)
  qed
  moreover have "\<forall>(s, s')\<in>set (adj_pairs (butlast ss @ [last ss @ [p]])). \<not> joins (last s) (hd s')"
    using ne assms str by (intro adj_pairs_butlast_snoc) (auto simp: stretches_of_def stretch_def)
  moreover have "stretch s" if "s \<in> set (butlast ss)" for s
    using that assms by (auto simp: stretches_of_def dest: in_set_butlastD)
  ultimately show ?thesis using True by (auto simp: add_stretch_def stretches_of_def)
next
  case False
  then have eq: "add_stretch ss p = ss @ [[p]]" by (auto simp: add_stretch_def)
  have "\<not> joins (last (last ss)) p" if "ss \<noteq> []"
    using False that stretch_last_meter [of "last ss"] assms by (auto simp: stretches_of_def)
  then show ?thesis using assms unfolding eq
    by (cases "ss = []") (auto simp: stretches_of_def adj_pairs_snoc)
qed

lemma foldl_add_stretch: "stretches_of ps (foldl add_stretch [] ps)"
proof (induction ps rule: rev_induct)
  case Nil
  then show ?case by (simp add: stretches_of_def)
next
  case (snoc p ps)
  then show ?case by (simp add: add_stretch_of)
qed

definition span_length :: "piece list \<Rightarrow> int" where
  "span_length s = Piece_EndTime (last s) - Piece_StartTime (hd s)"

text \<open>The summed length of a stretch is the distance of its ends, while that fits a duration.\<close>

lemma stretch_length_span:
  assumes "stretch s" "\<forall>p\<in>set s. Piece_StartTime p < Piece_EndTime p"
    "Piece_EndTime (last s) - Piece_StartTime (hd s) < 2 ^ 63"
  shows "stretch_length s = span_length s"
proof -
  have "stretch s \<Longrightarrow> \<forall>p\<in>set s. Piece_StartTime p < Piece_EndTime p \<Longrightarrow>
      Piece_EndTime (last s) - Piece_StartTime (hd s) < 2 ^ 63 \<Longrightarrow>
      stretch_length s = span_length s \<and> 0 < span_length s"
  proof (induction s rule: rev_induct)
    case Nil
    then show ?case by (simp add: stretch_def)
  next
    case (snoc p s)
    show ?case
    proof (cases "s = []")
      case True
      then show ?thesis using snoc.prems
        by (simp add: stretch_length_def span_length_def time_sub_def wrap64_id is_int64_def)
    next
      case False
      have "(\<forall>(p, q)\<in>set (adj_pairs s @ [(last s, p)]). joins p q)"
        using snoc.prems(1) unfolding stretch_def adj_pairs_snoc [OF False] by blast
      then have s: "stretch s" "Piece_EndTime (last s) = Piece_StartTime p"
        using False by (auto simp: stretch_def)
      have lt: "Piece_StartTime p < Piece_EndTime p" using snoc.prems(2) by simp
      have IH: "stretch_length s = span_length s" "0 < span_length s"
        using snoc.IH [OF s(1)] snoc.prems s(2) False by auto
      have sub: "time_sub (Piece_EndTime p) (Piece_StartTime p) = Piece_EndTime p - Piece_StartTime p"
        using lt IH(2) snoc.prems(3) s(2) False by (simp add: time_sub_def span_length_def)
      have "stretch_length (s @ [p]) = wrap64 (stretch_length s + time_sub (Piece_EndTime p) (Piece_StartTime p))"
        by (simp add: stretch_length_def)
      also have "\<dots> = wrap64 (span_length (s @ [p]))"
        unfolding IH(1) sub using False s(2) by (simp add: span_length_def)
      also have "\<dots> = span_length (s @ [p])"
        using snoc.prems(3) lt IH(2) s(2) False by (intro wrap64_id) (simp add: is_int64_def span_length_def)
      finally show ?thesis using IH(2) lt s(2) False by (simp add: span_length_def)
    qed
  qed
  then show ?thesis using assms by blast
qed

section \<open>What the threshold keeps\<close>

lemma chained_hd_le: "chained s \<Longrightarrow> p \<in> set s \<Longrightarrow> Piece_StartTime (hd s) \<le> Piece_StartTime p"
  by (cases s) (fastforce simp: chained_def)+

lemma chained_le_last: "chained s \<Longrightarrow> p \<in> set s \<Longrightarrow> Piece_EndTime p \<le> Piece_EndTime (last s)"
proof (cases s rule: rev_cases)
  case (snoc s' l)
  assume "chained s" "p \<in> set s"
  then show ?thesis using snoc by (fastforce simp: chained_def sorted_wrt_append)
qed simp

lemma bill_stretch_bounds:
  assumes "stretch s" "chained s"
  shows "chained (bill_stretch upTo s)"
    and "p \<in> set (bill_stretch upTo s) \<Longrightarrow> Piece_StartTime (hd s) \<le> Piece_StartTime p \<and>
           Piece_EndTime p \<le> Piece_EndTime (last s) \<and> Piece_StartTime p < Piece_EndTime p \<and>
           Key_Meter (Piece_Key p) = Key_Meter (Piece_Key (hd s))"
proof -
  have ne: "s \<noteq> []" using assms(1) by (simp add: stretch_def)
  have lt: "Piece_StartTime (hd s) < Piece_EndTime (last s)"
    using assms(2) ne chained_hd_le [OF assms(2), of "last s"] unfolding chained_def
    by (metis last_in_set order_le_less_trans)
  show "chained (bill_stretch upTo s)"
  proof (cases "stretch_length s \<ge> MinBillableRun")
    case True
    then show ?thesis using assms(2) by (auto simp: bill_stretch_def chained_def sorted_wrt_map)
  qed (use lt in \<open>auto simp: bill_stretch_def chained_def\<close>)
  assume p: "p \<in> set (bill_stretch upTo s)"
  show "Piece_StartTime (hd s) \<le> Piece_StartTime p \<and> Piece_EndTime p \<le> Piece_EndTime (last s) \<and>
      Piece_StartTime p < Piece_EndTime p \<and> Key_Meter (Piece_Key p) = Key_Meter (Piece_Key (hd s))"
  proof (cases "stretch_length s \<ge> MinBillableRun")
    case True
    then obtain q where "q \<in> set s" "p = q\<lparr>Piece_Pending := False\<rparr>" using p by (auto simp: bill_stretch_def)
    then show ?thesis using assms chained_hd_le [OF assms(2)] chained_le_last [OF assms(2)] stretch_meter [OF assms(1)]
      by (simp add: chained_def)
  qed (use lt p in \<open>auto simp: bill_stretch_def split: if_splits\<close>)
qed

lemma concat_bill_chained:
  assumes "chained (concat ss)" "\<forall>s\<in>set ss. stretch s"
  shows "chained (concat (map (bill_stretch upTo) ss)) \<and>
    (\<forall>p\<in>set (concat (map (bill_stretch upTo) ss)). \<exists>s\<in>set ss. Piece_StartTime (hd s) \<le> Piece_StartTime p)"
  using assms
proof (induction ss)
  case (Cons s ss)
  have s: "stretch s" "chained s" and tl: "chained (concat ss)"
    and gap: "\<And>p q. p \<in> set s \<Longrightarrow> q \<in> set (concat ss) \<Longrightarrow> Piece_EndTime p \<le> Piece_StartTime q"
    using Cons.prems by (auto simp: chained_append)
  have "last s \<in> set s" using s(1) by (simp add: stretch_def)
  have "Piece_EndTime p \<le> Piece_StartTime q"
    if "p \<in> set (bill_stretch upTo s)" "q \<in> set (concat (map (bill_stretch upTo) ss))" for p q
  proof -
    have "\<forall>s\<in>set ss. stretch s" using Cons.prems(2) by simp
    with Cons.IH [OF tl] that(2) obtain s' where s': "s' \<in> set ss" "Piece_StartTime (hd s') \<le> Piece_StartTime q"
      by blast
    then have "hd s' \<in> set (concat ss)" using Cons.prems(2) by (auto simp: stretch_def intro!: bexI [of _ s'])
    from gap [OF \<open>last s \<in> set s\<close> this] bill_stretch_bounds(2) [OF s that(1)] s'(2) show ?thesis by linarith
  qed
  then show ?case using Cons bill_stretch_bounds [OF s] tl by (auto simp: chained_append)
qed simp

lemma filter_meter_concat:
  assumes "\<forall>s\<in>set ss. \<forall>p\<in>set (f s). of_meter (g s) p"
  shows "filter (of_meter n) (concat (map f ss)) = concat (map f (filter (\<lambda>s. g s = n) ss))"
  using assms
proof (induction ss)
  case (Cons s ss)
  have "filter (of_meter n) (f s) = (if g s = n then f s else [])"
    using Cons.prems by (auto simp: filter_empty_conv filter_id_conv)
  then show ?case using Cons by simp
qed simp

lemma stretch_part:
  assumes "s \<in> set (foldl add_stretch [] ps)"
  shows "stretch s" "\<exists>us vs. ps = us @ s @ vs"
proof -
  show "stretch s" using assms foldl_add_stretch [of ps] by (simp add: stretches_of_def)
  from assms obtain l r where lr: "foldl add_stretch [] ps = l @ s # r" by (meson split_list)
  have "ps = concat (foldl add_stretch [] ps)" using foldl_add_stretch [of ps] by (simp add: stretches_of_def)
  also have "\<dots> = concat l @ s @ concat r" by (simp add: lr)
  finally show "\<exists>us vs. ps = us @ s @ vs" by blast
qed

lemma stretch_chained:
  assumes "\<And>n. chained (filter (of_meter n) ps)" "s \<in> set (foldl add_stretch [] ps)"
  shows "chained s"
proof -
  from stretch_part [OF assms(2)] obtain us vs where "stretch s" "ps = us @ s @ vs" by blast
  moreover from this(1) have "filter (of_meter (Key_Meter (Piece_Key (hd s)))) s = s"
    using stretch_meter by (simp add: filter_id_conv)
  ultimately show ?thesis using assms(1) [of "Key_Meter (Piece_Key (hd s))"] by (simp add: chained_append)
qed

lemma applyRunThreshold_chained:
  assumes "\<And>n. chained (filter (of_meter n) ps)"
  shows "chained (filter (of_meter n) (applyRunThreshold ps upTo))"
proof -
  let ?ss = "foldl add_stretch [] ps" and ?g = "\<lambda>s. Key_Meter (Piece_Key (hd s))"
  have ss: "concat ?ss = ps" "\<And>s. s \<in> set ?ss \<Longrightarrow> stretch s"
    using foldl_add_stretch [of ps] by (simp_all add: stretches_of_def)
  have eq: "filter (of_meter k) ps = concat (filter (\<lambda>s. ?g s = k) ?ss)" for k
    using filter_meter_concat [of ?ss "\<lambda>s. s" ?g k] ss stretch_meter by simp
  note ch = stretch_chained [OF assms]
  have "filter (of_meter n) (applyRunThreshold ps upTo) = concat (map (bill_stretch upTo) (filter (\<lambda>s. ?g s = n) ?ss))"
    unfolding applyRunThreshold_def
    using ss ch bill_stretch_bounds(2) by (intro filter_meter_concat) blast
  moreover have "chained (concat (filter (\<lambda>s. ?g s = n) ?ss))" using assms [of n] eq by metis
  ultimately show ?thesis using concat_bill_chained ss(2) by simp
qed

lemma sort_pieces_meter:
  assumes "chained (filter (of_meter n) ps)"
  shows "filter (of_meter n) (sort_pieces ps) = filter (of_meter n) ps"
proof -
  have "filter (of_meter n) (sort_pieces ps) = filter (of_meter n) (sort_key Piece_StartTime ps)"
    unfolding sort_pieces_def by (rule sort_key_stable)
  also have "\<dots> = sort_key Piece_StartTime (filter (of_meter n) ps)" by (rule filter_sort)
  also have "\<dots> = filter (of_meter n) ps"
    using chained_sorted [OF assms] by (simp add: sort_key_id_if_sorted)
  finally show ?thesis .
qed

lemma set_sort_pieces [simp]: "set (sort_pieces ps) = set ps"
  by (simp add: sort_pieces_def)

section \<open>The pieces of \<open>Expected\<close>\<close>

abbreviation created_at :: "fact list \<Rightarrow> time" where
  "created_at facts \<equiv> last_since ''created'' facts"

abbreviation deleted_at :: "fact list \<Rightarrow> time" where
  "deleted_at facts \<equiv> last_since ''deleted'' facts"

definition end_of :: "fact list \<Rightarrow> time \<Rightarrow> time" where
  "end_of facts upTo = (if deleted_at facts \<noteq> zero_time \<and> deleted_at facts < upTo then deleted_at facts else upTo)"

lemma Expected_cases:
  assumes "Expected c tenant resourceType resourceID facts oroot upTo = Inr ps"
  obtains "ps = []" "created_at facts = zero_time \<or> \<not> created_at facts < end_of facts upTo"
  | raw where "created_at facts < end_of facts upTo"
    "revision_pieces (window_pieces c tenant resourceType resourceID (timelines_of facts) oroot
        (created_at facts) (end_of facts upTo) upTo (deleted_at facts)) (Calc_Revisions c) = Inr raw"
    "ps = applyRunThreshold (sort_pieces raw) upTo"
  using assms unfolding Expected_def compute_def Let_def end_of_def [symmetric]
  by (auto simp: ebind_Inr_iff split: if_splits)

lemma NewCalculator_sorted: "sorted (map Revision_EffectiveAt (Calc_Revisions (NewCalculator revs dep owners)))"
  by (simp add: NewCalculator_def)

lemma NewCalculator_revisions [simp]: "set (Calc_Revisions (NewCalculator revs dep owners)) = set revs"
  by (simp add: NewCalculator_def)

lemma applyRunThreshold_mem:
  assumes "p \<in> set (applyRunThreshold ps upTo)"
  shows "\<exists>s\<in>set (foldl add_stretch [] ps). p \<in> set (bill_stretch upTo s)"
  using assms by (auto simp: applyRunThreshold_def)



lemma bill_stretch_billed:
  assumes "p \<in> set (bill_stretch upTo s)" "\<not> Piece_Pending p"
  shows "\<exists>q\<in>set s. p = q\<lparr>Piece_Pending := False\<rparr>"
  using assms by (auto simp: bill_stretch_def split: if_splits)

lemma Expected_chained:
  assumes "Expected (NewCalculator revs dep owners) tenant resourceType resourceID facts oroot upTo = Inr ps"
    and "\<forall>r\<in>set revs. names_meters_once r"
  shows "chained (filter (of_meter n) ps)"
  using assms(1)
proof (cases rule: Expected_cases)
  case (2 raw)
  have "chained (filter (of_meter k) (sort_pieces raw))" for k
    using revision_pieces_chained [OF 2(2) NewCalculator_sorted, of k] assms(2) by (simp add: sort_pieces_meter)
  then show ?thesis unfolding 2(3) by (rule applyRunThreshold_chained)
qed simp

text \<open>
  C15: the pieces of a meter are in time order, none is empty and no two overlap, so no moment is
  charged twice to a meter of a resource; all of them lie between the resource's creation and the
  earlier of its deletion and the round time.
\<close>

theorem Expected_disjoint:
  assumes "Expected (NewCalculator revs dep owners) tenant resourceType resourceID facts oroot upTo = Inr ps"
    and "\<forall>r\<in>set revs. names_meters_once r"
  shows "sorted_wrt (\<lambda>p q. Piece_EndTime p \<le> Piece_StartTime q) (filter (of_meter n) ps) \<and>
    (\<forall>p\<in>set ps. Piece_StartTime p < Piece_EndTime p \<and> created_at facts \<le> Piece_StartTime p \<and>
       Piece_EndTime p \<le> end_of facts upTo)"
  using assms(1)
proof (cases rule: Expected_cases)
  case (2 raw)
  let ?sorted = "sort_pieces raw"
  note ok = revision_pieces_chained [OF 2(2) NewCalculator_sorted]
  have ch: "chained (filter (of_meter k) ?sorted)" for k
    using ok [of k] assms(2) by (simp add: sort_pieces_meter)
  note all = Expected_chained [OF assms]
  have bounds: "created_at facts \<le> Piece_StartTime p \<and> Piece_EndTime p \<le> end_of facts upTo" if p: "p \<in> set ps" for p
  proof -
    obtain s where s: "s \<in> set (foldl add_stretch [] ?sorted)" "p \<in> set (bill_stretch upTo s)"
      using applyRunThreshold_mem p 2(3) by blast
    from stretch_part [OF s(1)] obtain us vs where str: "stretch s" and part: "?sorted = us @ s @ vs" by blast
    have "hd s \<in> set ?sorted" "last s \<in> set ?sorted" using str unfolding part by (auto simp: stretch_def)
    then show ?thesis
      using bill_stretch_bounds(2) [OF str stretch_chained [OF ch s(1)] s(2)] ok assms(2) by fastforce
  qed
  have "p \<in> set (filter (of_meter (Key_Meter (Piece_Key p))) ps)" if "p \<in> set ps" for p using that by simp
  then show ?thesis using all bounds unfolding chained_def by blast
qed simp

section \<open>A second of continuous usage is billed\<close>

lemma adj_pairs_append_mem: "(x, y) \<in> set (adj_pairs (l @ x # y # r))"
  by (induction l rule: induct_list012) (auto simp: adj_pairs_def)

text \<open>In a list sorted by meter, nothing joins a stretch on either side.\<close>

lemma stretch_maximal:
  assumes chd: "\<And>n. chained (filter (of_meter n) ps)" and srt: "sorted (map (\<lambda>p. Key_Meter (Piece_Key p)) ps)"
    and s: "s \<in> set (foldl add_stretch [] ps)" and q: "q \<in> set ps"
  shows "\<not> joins (last s) q" "\<not> joins q (hd s)"
proof -
  let ?ss = "foldl add_stretch [] ps"
  have ss: "concat ?ss = ps" "\<And>s. s \<in> set ?ss \<Longrightarrow> stretch s"
    "\<And>s s'. (s, s') \<in> set (adj_pairs ?ss) \<Longrightarrow> \<not> joins (last s) (hd s')"
    using foldl_add_stretch [of ps] by (auto simp: stretches_of_def)
  from s obtain l r where lr: "?ss = l @ s # r" by (meson split_list)
  have ps: "ps = concat l @ s @ concat r" using ss(1) lr by simp
  have str: "stretch s" and chs: "chained s" using ss(2) s stretch_chained [OF chd s] by auto
  have mem: "hd s \<in> set s" "last s \<in> set s" using str by (simp_all add: stretch_def)
  note same = stretch_last_meter [OF str]
  have lt: "Piece_StartTime q < Piece_EndTime q"
    using chd [of "Key_Meter (Piece_Key q)"] q by (auto simp: chained_def)
  have lts: "Piece_StartTime (hd s) < Piece_EndTime (hd s)" "Piece_StartTime (last s) < Piece_EndTime (last s)"
    using chs mem by (auto simp: chained_def)
  show "\<not> joins (last s) q"
  proof
    assume j: "joins (last s) q"
    let ?n = "Key_Meter (Piece_Key q)"
    have c: "chained (filter (of_meter ?n) (concat l) @ filter (of_meter ?n) s @ filter (of_meter ?n) (concat r))"
      using chd [of ?n] by (simp add: ps)
    consider "q \<in> set (concat l)" | "q \<in> set s" | "q \<in> set (concat r)" using q unfolding ps by auto
    then show False
    proof cases
      case 1
      then have "Piece_EndTime q \<le> Piece_StartTime (last s)" using c j mem by (auto simp: chained_append)
      then show False using j lt lts by linarith
    next
      case 2
      then show False using chained_le_last [OF chs 2] j lt by linarith
    next
      case 3
      then obtain s' r' where r: "r = s' # r'" by (cases r) auto
      have s': "stretch s'" using ss(2) lr r by simp
      then obtain v vs where v: "s' = v # vs" by (cases s') (auto simp: stretch_def)
      have vq: "q = v \<or> q \<in> set (vs @ concat r')" using 3 r v by auto
      have srt': "sorted (map (\<lambda>p. Key_Meter (Piece_Key p)) (s @ v # vs @ concat r'))"
        using srt unfolding ps r v by (simp add: sorted_append)
      have "Key_Meter (Piece_Key (last s)) \<le> Key_Meter (Piece_Key v)" "Key_Meter (Piece_Key v) \<le> ?n"
        using srt' vq mem by (auto simp: sorted_append)
      then have vn: "Key_Meter (Piece_Key v) = ?n" using j by simp
      have "Piece_EndTime (last s) \<le> Piece_StartTime v" "Piece_StartTime v < Piece_EndTime v"
        "q \<noteq> v \<Longrightarrow> Piece_EndTime v \<le> Piece_StartTime q"
        using c j mem vn vq unfolding r v by (auto simp: chained_append chained_def sorted_wrt_append)
      then have "q = v" using j by fastforce
      moreover have "\<not> joins (last s) (hd s')" using ss(3) [of s s'] adj_pairs_append_mem lr r by metis
      ultimately show False using j v by simp
    qed
  qed
  show "\<not> joins q (hd s)"
  proof
    assume j: "joins q (hd s)"
    let ?n = "Key_Meter (Piece_Key q)"
    have c: "chained (filter (of_meter ?n) (concat l) @ filter (of_meter ?n) s @ filter (of_meter ?n) (concat r))"
      using chd [of ?n] by (simp add: ps)
    consider "q \<in> set (concat l)" | "q \<in> set s" | "q \<in> set (concat r)" using q unfolding ps by auto
    then show False
    proof cases
      case 3
      then have "Piece_EndTime (hd s) \<le> Piece_StartTime q" using c j mem by (auto simp: chained_append)
      then show False using j lt lts by linarith
    next
      case 2
      then show False using chained_hd_le [OF chs 2] j lt by linarith
    next
      case 1
      then obtain l' s' where l: "l = l' @ [s']" by (cases l rule: rev_cases) auto
      have s': "stretch s'" using ss(2) lr l by simp
      then obtain v vs where v: "s' = vs @ [v]" by (cases s' rule: rev_cases) (auto simp: stretch_def)
      have vq: "q = v \<or> q \<in> set (concat l' @ vs)" using 1 l v by auto
      have srt': "sorted (map (\<lambda>p. Key_Meter (Piece_Key p)) ((concat l' @ vs) @ v # s))"
      proof -
        have "ps = ((concat l' @ vs) @ v # s) @ concat r" unfolding ps l v by simp
        then show ?thesis using srt by (metis map_append sorted_append)
      qed
      have "Key_Meter (Piece_Key v) \<le> Key_Meter (Piece_Key (hd s))" "?n \<le> Key_Meter (Piece_Key v)"
        using srt' vq mem by (auto simp: sorted_append)
      then have vn: "Key_Meter (Piece_Key v) = ?n" using j by simp
      have "Piece_EndTime v \<le> Piece_StartTime (hd s)" "Piece_StartTime v < Piece_EndTime v"
        "q \<noteq> v \<Longrightarrow> Piece_EndTime q \<le> Piece_StartTime v"
        using c j mem vn vq unfolding l v by (auto simp: chained_append chained_def sorted_wrt_append)
      then have "q = v" using j by fastforce
      moreover have "\<not> joins (last s') (hd s)" using ss(3) [of s' s] adj_pairs_append_mem lr l by (metis append.assoc append_Cons append_Nil)
      ultimately show False using j v by simp
    qed
  qed
qed

text \<open>A meter name is charged at a moment by some meter of the revision in force then.\<close>

definition charges_name ::
  "calculator \<Rightarrow> string \<Rightarrow> (string \<Rightarrow> timeline) \<Rightarrow> root option \<Rightarrow> time \<Rightarrow> time \<Rightarrow> string \<Rightarrow> time \<Rightarrow> bool" where
  "charges_name c resourceType timelines oroot end deletion n t \<longleftrightarrow>
     (\<exists>r m. in_force (Calc_Revisions c) t = Some r \<and> m \<in> set (Revision_Meters r) \<and>
        Meter_Resource m = resourceType \<and> Meter_Meter m = n \<and> charged_at c timelines oroot end deletion r m t)"

lemma stretch_covers:
  assumes chd: "\<And>n. chained (filter (of_meter n) ps)" and srt: "sorted (map (\<lambda>p. Key_Meter (Piece_Key p)) ps)"
    and s: "s \<in> set (foldl add_stretch [] ps)" "p0 \<in> set s" "of_meter n p0" "holds_at p0 t"
    and cover: "\<And>t. a \<le> t \<Longrightarrow> t < b \<Longrightarrow> \<exists>p\<in>set ps. of_meter n p \<and> holds_at p t" and t: "a \<le> t" "t < b"
  shows "Piece_StartTime (hd s) \<le> a" "b \<le> Piece_EndTime (last s)"
proof -
  from stretch_part [OF s(1)] obtain us vs where str: "stretch s" and ps: "ps = us @ s @ vs" by blast
  have chs: "chained s" by (rule stretch_chained [OF chd s(1)])
  have mem: "hd s \<in> set s" "last s \<in> set s" using str by (simp_all add: stretch_def)
  have n: "of_meter n (hd s)" "of_meter n (last s)" using stretch_meter [OF str s(2)] stretch_last_meter [OF str] s(3) by simp_all
  have t_in: "Piece_StartTime (hd s) \<le> t" "t < Piece_EndTime (last s)"
    using chained_hd_le [OF chs s(2)] chained_le_last [OF chs s(2)] s(4) by (auto simp: holds_at_def)
  have disj: "Piece_EndTime p \<le> Piece_StartTime q \<or> Piece_EndTime q \<le> Piece_StartTime p"
    if "p \<in> set ps" "q \<in> set ps" "of_meter n p" "of_meter n q" "p \<noteq> q" for p q
  proof -
    have "p \<in> set (filter (of_meter n) ps)" "q \<in> set (filter (of_meter n) ps)" using that by auto
    then obtain i j where ij: "filter (of_meter n) ps ! i = p" "filter (of_meter n) ps ! j = q"
      "i < length (filter (of_meter n) ps)" "j < length (filter (of_meter n) ps)" by (metis in_set_conv_nth)
    with that(5) have "i < j \<or> j < i" by (metis linorder_neqE_nat)
    then show ?thesis using chd [of n] ij unfolding chained_def sorted_wrt_iff_nth_less by blast
  qed
  have lt: "Piece_StartTime (hd s) < Piece_EndTime (hd s)" "Piece_StartTime (last s) < Piece_EndTime (last s)"
    using chs mem by (auto simp: chained_def)
  have in_ps: "hd s \<in> set ps" "last s \<in> set ps" using mem ps by auto
  show "b \<le> Piece_EndTime (last s)"
  proof (rule ccontr)
    assume "\<not> b \<le> Piece_EndTime (last s)"
    with cover [of "Piece_EndTime (last s)"] t t_in obtain q
      where q: "q \<in> set ps" "of_meter n q" "holds_at q (Piece_EndTime (last s))" by auto
    then have "q \<noteq> last s" by (auto simp: holds_at_def)
    with disj [OF q(1) in_ps(2) q(2) n(2)] q(3) lt have "Piece_StartTime q = Piece_EndTime (last s)"
      by (auto simp: holds_at_def)
    then show False using stretch_maximal(1) [OF chd srt s(1) q(1)] n q(2) by auto
  qed
  show "Piece_StartTime (hd s) \<le> a"
  proof (rule ccontr)
    assume "\<not> Piece_StartTime (hd s) \<le> a"
    with cover [of "Piece_StartTime (hd s) - 1"] t t_in obtain q
      where q: "q \<in> set ps" "of_meter n q" "holds_at q (Piece_StartTime (hd s) - 1)" by auto
    then have "q \<noteq> hd s" by (auto simp: holds_at_def)
    with disj [OF q(1) in_ps(1) q(2) n(1)] q(3) lt have "Piece_EndTime q = Piece_StartTime (hd s)"
      by (auto simp: holds_at_def)
    then show False using stretch_maximal(2) [OF chd srt s(1) q(1)] n q(2) by auto
  qed
qed

lemma bill_long_stretch:
  assumes "stretch s" "chained s" "span_length s \<ge> second" "span_length s < 2 ^ 63"
  shows "bill_stretch upTo s = map (\<lambda>p. p\<lparr>Piece_Pending := False\<rparr>) s"
proof -
  have "stretch_length s = span_length s"
    using assms by (intro stretch_length_span) (auto simp: span_length_def chained_def)
  then show ?thesis using assms(3) by (simp add: bill_stretch_def MinBillableRun_def)
qed

text \<open>
  C12: usage is billed. When a meter is charged at every moment of a second or more, each of those
  moments lies in a piece of that meter that is not pending.
\<close>

theorem Expected_bills_continuous_second:
  assumes ex: "Expected c tenant resourceType resourceID facts oroot upTo = Inr ps"
    and c: "c = NewCalculator revs dep owners" and once: "\<forall>r\<in>set revs. names_meters_once r"
    and life: "created_at facts \<noteq> zero_time" "end_of facts upTo - created_at facts < 2 ^ 63"
    and ab: "b - a \<ge> second" "created_at facts \<le> a" "b \<le> end_of facts upTo"
    and charged: "\<forall>t. a \<le> t \<and> t < b \<longrightarrow>
      charges_name c resourceType (timelines_of facts) oroot (end_of facts upTo) (deleted_at facts) n t"
  shows "\<forall>t. a \<le> t \<and> t < b \<longrightarrow> (\<exists>p\<in>set ps. of_meter n p \<and> \<not> Piece_Pending p \<and> holds_at p t)"
  using ex
proof (cases rule: Expected_cases)
  case 1
  then show ?thesis using life ab by auto
next
  case (2 raw)
  let ?sp = "sort_pieces raw"
  have srt: "sorted (map Revision_EffectiveAt (Calc_Revisions c))" unfolding c by (rule NewCalculator_sorted)
  have once': "\<forall>r\<in>set (Calc_Revisions c). names_meters_once r" using once c by simp
  note ok = revision_pieces_chained [OF 2(2) srt once']
  have chd: "chained (filter (of_meter k) ?sp)" for k using ok [of k] by (simp add: sort_pieces_meter)
  have msorted: "sorted (map (\<lambda>p. Key_Meter (Piece_Key p)) ?sp)" by (simp add: sort_pieces_def)
  have cover: "\<exists>p\<in>set ?sp. of_meter n p \<and> holds_at p t" if "a \<le> t" "t < b" for t
  proof -
    from charged that obtain r m where "in_force (Calc_Revisions c) t = Some r" "m \<in> set (Revision_Meters r)"
      "Meter_Resource m = resourceType" "Meter_Meter m = n"
      "charged_at c (timelines_of facts) oroot (end_of facts upTo) (deleted_at facts) r m t"
      by (auto simp: charges_name_def)
    with revision_pieces_complete [OF 2(2) srt, of t r m] that ab show ?thesis by (auto simp: states_charge_def)
  qed
  show ?thesis
  proof (intro allI impI)
    fix t assume t: "a \<le> t \<and> t < b"
    with cover obtain p where p: "p \<in> set ?sp" "of_meter n p" "holds_at p t" by blast
    have "concat (foldl add_stretch [] ?sp) = ?sp" using foldl_add_stretch [of ?sp] by (simp add: stretches_of_def)
    with p(1) have "p \<in> set (concat (foldl add_stretch [] ?sp))" by simp
    then obtain s where s: "s \<in> set (foldl add_stretch [] ?sp)" "p \<in> set s" by auto
    from stretch_part [OF s(1)] obtain us vs where str: "stretch s" and part: "?sp = us @ s @ vs" by blast
    have "hd s \<in> set ?sp" "last s \<in> set ?sp" using str unfolding part by (auto simp: stretch_def)
    then have "created_at facts \<le> Piece_StartTime (hd s)" "Piece_EndTime (last s) \<le> end_of facts upTo"
      using ok by auto
    then have "span_length s < 2 ^ 63" using life(2) by (simp add: span_length_def)
    moreover have "Piece_StartTime (hd s) \<le> a" "b \<le> Piece_EndTime (last s)"
      by (rule stretch_covers [OF chd msorted s p(2,3), of a b]; use cover t in blast)+
    then have "span_length s \<ge> second" using ab(1) by (simp add: span_length_def)
    ultimately have "bill_stretch upTo s = map (\<lambda>p. p\<lparr>Piece_Pending := False\<rparr>) s"
      by (intro bill_long_stretch [OF str stretch_chained [OF chd s(1)]])
    then have "p\<lparr>Piece_Pending := False\<rparr> \<in> set ps"
      using s by (auto simp: 2(3) applyRunThreshold_def intro!: bexI [of _ s])
    then show "\<exists>p\<in>set ps. of_meter n p \<and> \<not> Piece_Pending p \<and> holds_at p t"
      using p by (intro bexI [of _ "p\<lparr>Piece_Pending := False\<rparr>"]) (auto simp: holds_at_def)
  qed
qed

text \<open>
  C13: every charge is due. At each moment of a piece that is not pending, some revision is in force and
  has a meter that charges the resource then, and the piece carries that meter's key and unit, that
  revision, and the rate read at that very moment.
\<close>

theorem Expected_charges_are_due:
  assumes "Expected (NewCalculator revs dep owners) tenant resourceType resourceID facts oroot upTo = Inr ps"
    and "p \<in> set ps" "\<not> Piece_Pending p" "holds_at p t"
  shows "\<exists>r m. in_force (Calc_Revisions (NewCalculator revs dep owners)) t = Some r \<and> m \<in> set (Revision_Meters r) \<and>
     Meter_Resource m = resourceType \<and>
     charged_at (NewCalculator revs dep owners) (timelines_of facts) oroot (end_of facts upTo) (deleted_at facts) r m t \<and>
     states_charge resourceType resourceID (timelines_of facts) r m t p"
  using assms(1)
proof (cases rule: Expected_cases)
  case 1
  then show ?thesis using assms(2) by simp
next
  case (2 raw)
  obtain s where s: "s \<in> set (foldl add_stretch [] (sort_pieces raw))" "p \<in> set (bill_stretch upTo s)"
    using applyRunThreshold_mem assms(2) 2(3) by blast
  from bill_stretch_billed [OF s(2) assms(3)] obtain q where q: "q \<in> set s" "p = q\<lparr>Piece_Pending := False\<rparr>" by blast
  from stretch_part(2) [OF s(1)] obtain us vs where "sort_pieces raw = us @ s @ vs" by blast
  then have "q \<in> set (sort_pieces raw)" using q(1) by simp
  then have "q \<in> set raw" by simp
  moreover have "holds_at q t" using assms(4) q(2) by (simp add: holds_at_def)
  ultimately show ?thesis
    using revision_pieces_sound [OF 2(2) NewCalculator_sorted] q(2) unfolding states_charge_def by fastforce
qed

section \<open>Boundaries fall on whole seconds\<close>

definition whole_facts :: "fact list \<Rightarrow> bool" where
  "whole_facts facts \<longleftrightarrow> (\<forall>f\<in>set facts. whole_second (Fact_Since f))"

lemma timelines_of_whole: "whole_facts facts \<Longrightarrow> (t, v) \<in> set (timelines_of facts field) \<Longrightarrow> whole_second t"
  by (auto simp: timelines_of_def whole_facts_def split: if_splits)

lemma last_since_whole: "whole_facts facts \<Longrightarrow> whole_second (last_since field facts)"
proof (induction facts rule: rev_induct)
  case Nil
  then show ?case by (simp add: last_since_def whole_second_def)
next
  case (snoc f facts)
  then show ?case by (auto simp: last_since_def whole_facts_def)
qed

lemma end_of_whole: "whole_facts facts \<Longrightarrow> whole_second upTo \<Longrightarrow> whole_second (end_of facts upTo)"
  by (simp add: end_of_def last_since_whole)

lemma whole_second_min_max: "whole_second a \<Longrightarrow> whole_second b \<Longrightarrow> whole_second (min a b) \<and> whole_second (max a b)"
  by (simp add: min_def max_def)

lemma whole_second_midnight: "day dvd t \<Longrightarrow> whole_second t"
proof -
  assume "day dvd t"
  moreover have "(second :: int) dvd day" by simp
  ultimately show ?thesis unfolding whole_second_def by (rule dvd_trans [rotated])
qed

lemma charges_whole:
  assumes "charges c m tenant resourceType resourceID number (timelines_of facts) oroot wStart wEnd upTo deletion rn p"
    and rn: "rn \<in> set (billableRuns m (timelines_of facts) end deletion)" and "whole_facts facts"
    and "whole_second wStart" "whole_second wEnd" "whole_second end"
  shows "whole_second (Piece_StartTime p) \<and> whole_second (Piece_EndTime p)"
proof -
  let ?points = "split_points m resourceType (timelines_of facts) (fst (clip rn wStart wEnd)) (snd (clip rn wStart wEnd))"
  have "whole_second t" if "t \<in> set (run_points m (timelines_of facts) end)" for t
    using that assms timelines_of_whole by (fastforce simp: run_points_set)
  then have "whole_second (Run_Start rn)" "whole_second (Run_End rn)"
    using rn billableRuns_ok [of "end" deletion m "timelines_of facts"] by (auto simp: runs_ok_def)
  then have ends: "whole_second (fst (clip rn wStart wEnd))" "whole_second (snd (clip rn wStart wEnd))"
    using assms whole_second_min_max by (auto simp: clip_def)
  have "whole_second t" if "t \<in> set ?points" for t
    using that ends timelines_of_whole [OF assms(3)] whole_second_midnight unfolding split_points_set by fastforce
  moreover have "Piece_StartTime p \<in> set ?points" "Piece_EndTime p \<in> set ?points"
    using assms(1) unfolding charges_def by (blast dest: adj_pairs_mem)+
  ultimately show ?thesis by blast
qed

lemma revision_pieces_whole:
  assumes "revision_pieces (window_pieces c tenant resourceType resourceID (timelines_of facts) oroot creation end upTo deletion) rs = Inr ps"
    and "whole_facts facts" "whole_second creation" "whole_second end" "\<forall>r\<in>set rs. whole_second (Revision_EffectiveAt r)"
    and "p \<in> set ps"
  shows "whole_second (Piece_StartTime p) \<and> whole_second (Piece_EndTime p)"
  using assms
proof (induction rs arbitrary: ps)
  case (Cons r rs)
  let ?F = "window_pieces c tenant resourceType resourceID (timelines_of facts) oroot creation end upTo deletion"
  from Cons.prems(1) obtain us vs where uv: "?F r (next_effective rs) = Inr us" "revision_pieces ?F rs = Inr vs" "ps = us @ vs"
    by (auto simp: revision_pieces_Cons ebind_Inr_iff)
  show ?case
  proof (cases "p \<in> set us")
    case True
    from window_pieces_mem [OF uv(1), THEN iffD1, OF True] obtain m rn
      where rn: "rn \<in> set (billableRuns m (timelines_of facts) end deletion)"
        and ch: "charges c m tenant resourceType resourceID (Revision_Number r) (timelines_of facts) oroot
          (max (Revision_EffectiveAt r) creation) (case next_effective rs of None \<Rightarrow> end | Some t \<Rightarrow> min t end)
          upTo deletion rn p" by blast
    have "whole_second (max (Revision_EffectiveAt r) creation)"
      "whole_second (case next_effective rs of None \<Rightarrow> end | Some t \<Rightarrow> min t end)"
      using Cons.prems(3,4,5) whole_second_min_max by (auto simp: next_effective_def split: list.splits)
    from charges_whole [OF ch rn Cons.prems(2) this Cons.prems(4)] show ?thesis .
  qed (use Cons uv in auto)
qed simp

lemma Expected_whole:
  assumes ex: "Expected (NewCalculator revs dep owners) tenant resourceType resourceID facts oroot upTo = Inr ps"
    and "whole_facts facts" "whole_second upTo" "\<forall>r\<in>set revs. whole_second (Revision_EffectiveAt r)" "p \<in> set ps"
  shows "whole_second (Piece_StartTime p) \<and> whole_second (Piece_EndTime p)"
  using ex
proof (cases rule: Expected_cases)
  case 1
  then show ?thesis using assms by simp
next
  case (2 raw)
  obtain s where s: "s \<in> set (foldl add_stretch [] (sort_pieces raw))" "p \<in> set (bill_stretch upTo s)"
    using applyRunThreshold_mem assms(5) 2(3) by blast
  from stretch_part [OF s(1)] obtain us vs where str: "stretch s" and part: "sort_pieces raw = us @ s @ vs" by blast
  have "set s \<subseteq> set (sort_pieces raw)" unfolding part by auto
  then have raw: "set s \<subseteq> set raw" by simp
  have whole: "whole_second (Piece_StartTime q) \<and> whole_second (Piece_EndTime q)" if "q \<in> set s" for q
    by (rule revision_pieces_whole [OF 2(2)]) (use assms that raw last_since_whole end_of_whole in auto)
  have "hd s \<in> set s" using str by (simp add: stretch_def)
  with whole s(2) assms(3) show ?thesis by (auto simp: bill_stretch_def split: if_splits)
qed

lemma whole_second_diff: "whole_second a \<Longrightarrow> whole_second b \<Longrightarrow> \<exists>k. b - a = second * k"
  by (auto simp: whole_second_def elim!: dvdE) (metis right_diff_distrib)

lemma revision_pieces_mem:
  assumes "revision_pieces (window_pieces c tenant resourceType resourceID timelines oroot creation end upTo deletion) rs = Inr ps"
    and "p \<in> set ps"
  shows "\<exists>r m wStart wEnd rn. r \<in> set rs \<and>
    charges c m tenant resourceType resourceID (Revision_Number r) timelines oroot wStart wEnd upTo deletion rn p"
  using assms
proof (induction rs arbitrary: ps)
  case (Cons r rs)
  let ?F = "window_pieces c tenant resourceType resourceID timelines oroot creation end upTo deletion"
  from Cons.prems(1) obtain us vs where uv: "?F r (next_effective rs) = Inr us" "revision_pieces ?F rs = Inr vs" "ps = us @ vs"
    by (auto simp: revision_pieces_Cons ebind_Inr_iff)
  then show ?case using window_pieces_mem [OF uv(1)] Cons.IH [OF uv(2)] Cons.prems(2) by (cases "p \<in> set us") fastforce+
qed simp

lemma Expected_resource:
  assumes "Expected c tenant resourceType resourceID facts oroot upTo = Inr ps" "p \<in> set ps"
  shows "Key_ResourceType (Piece_Key p) = resourceType \<and> Key_ResourceID (Piece_Key p) = resourceID"
  using assms(1)
proof (cases rule: Expected_cases)
  case (2 raw)
  obtain st where st: "st \<in> set (foldl add_stretch [] (sort_pieces raw))" "p \<in> set (bill_stretch upTo st)"
    using applyRunThreshold_mem assms(2) 2(3) by blast
  from stretch_part [OF st(1)] obtain us vs where "stretch st" "sort_pieces raw = us @ st @ vs" by blast
  then have "set st \<subseteq> set (sort_pieces raw)" "st \<noteq> []" by (auto simp: stretch_def simp del: set_sort_pieces)
  then have sub: "set st \<subseteq> set raw" "st \<noteq> []" by simp_all
  obtain q where q: "q \<in> set st" "Piece_Key p = Piece_Key q"
    using st(2) hd_in_set [OF sub(2)] by (auto simp: bill_stretch_def split: if_splits)
  with sub obtain m wStart wEnd and rn :: run and r :: revision where
    "charges c m tenant resourceType resourceID (Revision_Number r) (timelines_of facts) oroot wStart wEnd upTo (deleted_at facts) rn q"
    using revision_pieces_mem [OF 2(2)] by blast
  then have made: "mk_piece c m tenant resourceType resourceID (Revision_Number r) (timelines_of facts) (Piece_StartTime q)
      (Piece_EndTime q) (\<not> Run_Closed rn \<and> Run_End rn = upTo) = Inr q" by (simp add: charges_def)
  show ?thesis using q(2) mk_piece_Inr(8,9) [OF made] by simp
qed (use assms in simp)

lemma piece_rate_nonneg: "piece_rate m resourceType timelines t = Inr rate \<Longrightarrow> 0 \<le> rate"
proof -
  have "0 \<le> n" if "parseMicro v = Inr n" for v n
  proof -
    from that obtain q where q: "RatSetString v = Some q" "quotient_of (q * 1000000) = (n, 1)" "\<not> q * 1000000 < 0"
      by (auto simp: parseMicro_def Let_def split: option.splits prod.splits if_splits)
    have "q * 1000000 = of_int n" using quotient_of_div [OF q(2)] by simp
    with q(3) show ?thesis by simp
  qed
  then show "piece_rate m resourceType timelines t = Inr rate \<Longrightarrow> 0 \<le> rate"
    by (auto simp: piece_rate_def split: if_splits option.splits sum.splits)
qed

lemma Expected_billed:
  assumes "Expected c tenant resourceType resourceID facts oroot upTo = Inr ps" "p \<in> set ps" "\<not> Piece_Pending p"
  shows "Piece_StartTime p < Piece_EndTime p" "0 \<le> Piece_RateMicro p" "Piece_EndTime p \<le> NextMidnight (Piece_StartTime p)"
proof -
  from assms(1) have "Piece_StartTime p < Piece_EndTime p \<and> 0 \<le> Piece_RateMicro p \<and> Piece_EndTime p \<le> NextMidnight (Piece_StartTime p)"
  proof (cases rule: Expected_cases)
    case (2 raw)
    obtain s where s: "s \<in> set (foldl add_stretch [] (sort_pieces raw))" "p \<in> set (bill_stretch upTo s)"
      using applyRunThreshold_mem assms(2) 2(3) by blast
    from bill_stretch_billed [OF s(2) assms(3)] obtain q where q: "q \<in> set s" "p = q\<lparr>Piece_Pending := False\<rparr>" by blast
    from stretch_part(2) [OF s(1)] obtain us vs where "sort_pieces raw = us @ s @ vs" by blast
    then have "q \<in> set (sort_pieces raw)" using q(1) by simp
    then have "q \<in> set raw" by simp
    from revision_pieces_mem [OF 2(2) this] obtain r :: revision and m :: meter and wStart wEnd and rn :: run
      where ch: "charges c m tenant resourceType resourceID (Revision_Number r) (timelines_of facts) oroot
        wStart wEnd upTo (deleted_at facts) rn q" by blast
    then have "mk_piece c m tenant resourceType resourceID (Revision_Number r) (timelines_of facts)
        (Piece_StartTime q) (Piece_EndTime q) (\<not> Run_Closed rn \<and> Run_End rn = upTo) = Inr q"
      and lt: "fst (clip rn wStart wEnd) < snd (clip rn wStart wEnd)"
      and span: "(Piece_StartTime q, Piece_EndTime q) \<in> set (adj_pairs (split_points m resourceType
         (timelines_of facts) (fst (clip rn wStart wEnd)) (snd (clip rn wStart wEnd))))"
      by (simp_all add: charges_def)
    from piece_rate_nonneg [OF mk_piece_Inr(7) [OF this(1)]] charges_bounds(5) [OF ch] split_span_midnight [OF lt span] q(2)
    show ?thesis by simp
  qed (use assms in auto)
  then show "Piece_StartTime p < Piece_EndTime p" "0 \<le> Piece_RateMicro p" "Piece_EndTime p \<le> NextMidnight (Piece_StartTime p)"
    by simp_all
qed

lemma RationalToMicro_of_int:
  assumes "0 \<le> n"
  shows "RationalToMicro (of_int n) = (if is_int64 n then Inr n else Inl (QuantityDoesNotFit (of_int n)))"
proof -
  have "(2 * n + 1) div 2 = n" by simp
  moreover have "\<not> (of_int n :: rat) < 0" using assms by simp
  ultimately show ?thesis by (simp add: RationalToMicro_def wrap64_id)
qed

text \<open>
  C16: usage is exact. On whole-second histories, revisions and round times, every piece that is not
  pending lies within one UTC day, and its quantity is its rate times its seconds, without rounding; it
  fails only where that does not fit 64 bits.
\<close>

theorem Expected_quantities_exact:
  assumes ex: "Expected (NewCalculator revs dep owners) tenant resourceType resourceID facts oroot upTo = Inr ps"
    and whole: "whole_facts facts" "whole_second upTo" "\<forall>r\<in>set revs. whole_second (Revision_EffectiveAt r)"
    and p: "p \<in> set ps" "\<not> Piece_Pending p"
  shows "Piece_EndTime p \<le> NextMidnight (Piece_StartTime p) \<and>
    QuantityMicro p =
    (let micro = Piece_RateMicro p * ((Piece_EndTime p - Piece_StartTime p) div second)
     in if is_int64 micro then Inr micro else Inl (QuantityDoesNotFit (of_int micro)))"
proof -
  from Expected_whole [OF ex whole p(1)] whole_second_diff
  obtain k where k: "Piece_EndTime p - Piece_StartTime p = second * k" by blast
  note b = Expected_billed [OF ex p]
  have k0: "0 < k" using b(1) k by (simp add: zero_less_mult_iff)
  have "NextMidnight (Piece_StartTime p) - Piece_StartTime p \<le> day"
  proof -
    have "Piece_StartTime p div day * day + Piece_StartTime p mod day = Piece_StartTime p" "0 \<le> Piece_StartTime p mod day" by (rule div_mult_mod_eq) simp
    then show ?thesis by (simp add: NextMidnight_def distrib_right)
  qed
  with b(3) have "Piece_EndTime p - Piece_StartTime p < 2 ^ 63" by simp
  note span = b(1) this
  have "time_sub (Piece_EndTime p) (Piece_StartTime p) = second * k"
    using span k by (simp add: time_sub_def)
  then have "Microseconds (time_sub (Piece_EndTime p) (Piece_StartTime p)) = 1000000 * k"
    by (simp only: Microseconds_seconds)
  then have "QuantityMicro p = RationalToMicro (of_int (Piece_RateMicro p) / 1000000 * of_int (1000000 * k))"
    using p(2) by (simp add: QuantityMicro_def)
  also have "of_int (Piece_RateMicro p) / 1000000 * of_int (1000000 * k) = (of_int (Piece_RateMicro p * k) :: rat)"
    by simp
  finally have q: "QuantityMicro p = RationalToMicro (of_int (Piece_RateMicro p * k))" .
  have "0 \<le> Piece_RateMicro p * k" using b(2) k0 by simp
  from RationalToMicro_of_int [OF this] show ?thesis unfolding q Let_def using k b(3) by simp
qed

section \<open>The sample revision on a volume's history\<close>

definition volume_facts :: "fact list" where
  "volume_facts =
    [\<lparr>Fact_ResourceType = ''Volume'', Fact_ResourceID = ''v1'', Fact_Field = ''created'', Fact_Since = 86410000000000, Fact_Value = ''''\<rparr>,
     \<lparr>Fact_ResourceType = ''Volume'', Fact_ResourceID = ''v1'', Fact_Field = ''status.provisioned_size_gib'', Fact_Since = 86410000000000, Fact_Value = ''5''\<rparr>,
     \<lparr>Fact_ResourceType = ''Volume'', Fact_ResourceID = ''v1'', Fact_Field = ''status.state'', Fact_Since = 86420000000000, Fact_Value = ''READY''\<rparr>]"

definition volume_piece :: piece where
  "volume_piece = \<lparr>Piece_Key = \<lparr>Key_ResourceType = ''Volume'', Key_ResourceID = ''v1'', Key_Meter = ''storage'',
       Key_Component = ''storage'', Key_Dimensions = json_Marshal [(''deployment'', ''lab''), (''tenant'', ''acme''),
         (''meter_type'', ''gib_seconds'')]\<rparr>,
     Piece_StartTime = 86420000000000, Piece_EndTime = 86500000000000, Piece_RateMicro = 5000000, Piece_Pending = False,
     Piece_Unit = ''gib_seconds'', Piece_Revision = ''0001''\<rparr>"

lemma Expected_volume:
  "Expected (NewCalculator [volume_revision] ''lab'' []) ''acme'' ''Volume'' ''v1'' volume_facts None 86500000000000 = Inr [volume_piece]"
  by code_simp

lemma volume_life:
  "last_since ''created'' volume_facts = 86410000000000" "last_since ''deleted'' volume_facts = 0"
  "end_of volume_facts 86500000000000 = 86500000000000"
  by (simp_all add: volume_facts_def last_since_def end_of_def)

lemma volume_revision_once: "\<forall>r\<in>set [volume_revision]. names_meters_once r"
  by (simp add: names_meters_once_def volume_revision_def)

theorem Expected_disjoint_witness:
  "Expected (NewCalculator [volume_revision] ''lab'' []) ''acme'' ''Volume'' ''v1'' volume_facts None 86500000000000 = Inr [volume_piece] \<and>
   Piece_StartTime volume_piece < Piece_EndTime volume_piece \<and> 86410000000000 \<le> Piece_StartTime volume_piece \<and>
   Piece_EndTime volume_piece \<le> 86500000000000"
  using Expected_volume Expected_disjoint [OF Expected_volume volume_revision_once] volume_life by simp

lemma volume_charged:
  assumes "86420000000000 \<le> t" "t < 86500000000000"
  shows "charges_name (NewCalculator [volume_revision] ''lab'' []) ''Volume'' (timelines_of volume_facts) None
    (end_of volume_facts 86500000000000) (last_since ''deleted'' volume_facts) ''storage'' t"
proof -
  let ?c = "NewCalculator [volume_revision] ''lab'' []"
  have f: "in_force (Calc_Revisions ?c) t = Some volume_revision" using assms by (simp add: NewCalculator_def in_force_def volume_revision_def)
  have runs: "billableRuns volume_meter (timelines_of volume_facts) 86500000000000 0 =
    [\<lparr>Run_Start = 86420000000000, Run_End = 86500000000000, Run_Closed = False\<rparr>]" by code_simp
  have g: "gateOpen ?c volume_meter ''0001'' (timelines_of volume_facts) 0 None
     \<lparr>Run_Start = 86420000000000, Run_End = 86500000000000, Run_Closed = False\<rparr>" by code_simp
  have "charged_at ?c (timelines_of volume_facts) None 86500000000000 0 volume_revision volume_meter t"
    using assms g by (simp add: charged_at_def runs volume_revision_def)
  then show ?thesis using f by (auto simp: charges_name_def volume_life volume_revision_def volume_meter_def intro!: exI [of _ volume_revision])
qed

theorem Expected_bills_continuous_second_witness:
  "\<exists>p\<in>set [volume_piece]. Key_Meter (Piece_Key p) = ''storage'' \<and> \<not> Piece_Pending p \<and> holds_at p 86450000000000"
proof -
  have "\<forall>t. 86420000000000 \<le> t \<and> t < 86500000000000 \<longrightarrow>
     (\<exists>p\<in>set [volume_piece]. Key_Meter (Piece_Key p) = ''storage'' \<and> \<not> Piece_Pending p \<and> holds_at p t)"
    by (rule Expected_bills_continuous_second [OF Expected_volume refl volume_revision_once])
      (simp_all add: volume_life volume_charged [unfolded volume_life])
  then show ?thesis by (rule allE [of _ 86450000000000]) simp
qed

theorem Expected_charges_are_due_witness:
  "\<exists>r m. in_force (Calc_Revisions (NewCalculator [volume_revision] ''lab'' [])) 86450000000000 = Some r \<and>
     m \<in> set (Revision_Meters r) \<and> states_charge ''Volume'' ''v1'' (timelines_of volume_facts) r m 86450000000000 volume_piece"
proof -
  have "\<not> Piece_Pending volume_piece" "holds_at volume_piece 86450000000000" by (simp_all add: volume_piece_def holds_at_def)
  then show ?thesis using Expected_charges_are_due [OF Expected_volume, of volume_piece 86450000000000] by auto
qed

theorem Expected_quantities_exact_witness: "QuantityMicro volume_piece = Inr 400000000"
proof -
  have w: "whole_facts volume_facts" "whole_second 86500000000000" "\<forall>r\<in>set [volume_revision]. whole_second (Revision_EffectiveAt r)"
    by (simp_all add: whole_facts_def volume_facts_def whole_second_def volume_revision_def)
  have "\<not> Piece_Pending volume_piece" by (simp add: volume_piece_def)
  then show ?thesis using Expected_quantities_exact [OF Expected_volume w, of volume_piece]
    by (simp add: volume_piece_def is_int64_def)
qed

end
