(* ===== verification/Round_Conservation.thy ===== *)
theory Round_Conservation
  imports Round_Diff
begin

text \<open>
  What the comparison of \<open>Round_Diff\<close> promises: the heartbeats of a comparison add up to what the ledger
  gains, a comparison that finds the ledger up to date sends nothing, and no heartbeat crosses a UTC
  midnight or a revision boundary.
\<close>

section \<open>Measures over disjoint spans\<close>

lemma sum_list_zeros:
  assumes "\<And>x. x \<in> set xs \<Longrightarrow> f x = (0 :: int)"
  shows "(\<Sum>x\<leftarrow>xs. f x) = 0"
  using assms by (induction xs) auto

lemma adj_sum_within:
  assumes "sorted_wrt (<) xs" "s \<in> set xs" "e \<in> set xs" "s \<le> (e :: int)"
  shows "(\<Sum>(a, b)\<leftarrow>adj_pairs xs. if s \<le> a \<and> a < e then g b - g a else 0) = g e - (g s :: int)"
  using assms
proof (induction xs arbitrary: s rule: induct_list012)
  case (3 x y zs)
  have xy: "x < y" and srt: "sorted_wrt (<) (y # zs)" using "3.prems"(1) by auto
  have rest: "a \<ge> y" if "(a, b) \<in> set (adj_pairs (y # zs))" for a b
    using adj_pairs_mem [OF that] strict_sorted_hd_le [OF srt, of a] by simp
  show ?case
  proof (cases "s = x")
    case True
    show ?thesis
    proof (cases "e = x")
      case True
      then have "(\<Sum>(a, b)\<leftarrow>adj_pairs (y # zs). if s \<le> a \<and> a < e then g b - g a else 0) = 0"
        using rest xy by (intro sum_list_zeros) fastforce
      then show ?thesis using True \<open>s = x\<close> by simp
    next
      case False
      then have e: "e \<in> set (y # zs)" "y \<le> e" using "3.prems"(3) strict_sorted_hd_le [OF srt, of e] by auto
      have "(\<Sum>(a, b)\<leftarrow>adj_pairs (y # zs). if s \<le> a \<and> a < e then g b - g a else 0) =
          (\<Sum>(a, b)\<leftarrow>adj_pairs (y # zs). if y \<le> a \<and> a < e then g b - g a else 0)"
        using rest xy True by (intro arg_cong [where f = sum_list] map_cong) (force split: prod.splits)+
      also have "\<dots> = g e - g y" using "3.IH"(2) [OF srt _ e(1) e(2)] by simp
      finally show ?thesis using True xy e(2) by simp
    qed
  next
    case False
    then have s: "s \<in> set (y # zs)" "x < s" using "3.prems"(1,2) by auto
    moreover have "e \<in> set (y # zs)" using s "3.prems"(3,4) by auto
    ultimately show ?thesis using "3.IH"(2) [OF srt _ _ "3.prems"(4)] by simp
  qed
qed auto

text \<open>
  A family of spans, each with a quantity that accumulates from its start. Over a list of boundaries that
  contains every start and stop, the shares of the intervals of disjoint spans add up to the spans' full
  quantities.
\<close>

locale span_measure =
  fixes start :: "'p \<Rightarrow> time" and stop :: "'p \<Rightarrow> time" and cum :: "'p \<Rightarrow> time \<Rightarrow> int"
  assumes cum_start: "cum p (start p) = 0"
begin

definition disjoint_spans :: "'p list \<Rightarrow> bool" where
  "disjoint_spans ps \<longleftrightarrow> (\<forall>p\<in>set ps. start p < stop p) \<and>
     sorted_wrt (\<lambda>p q. stop p \<le> start q \<or> stop q \<le> start p) ps"

definition share :: "'p list \<Rightarrow> time \<times> time \<Rightarrow> int" where
  "share ps i = (case covering start stop ps (fst i) of None \<Rightarrow> 0 | Some p \<Rightarrow> cum p (snd i) - cum p (fst i))"

lemma share_sum:
  assumes "disjoint_spans ps"
  shows "share ps i = (\<Sum>p\<leftarrow>ps. if start p \<le> fst i \<and> fst i < stop p then cum p (snd i) - cum p (fst i) else 0)"
  using assms
proof (induction ps)
  case (Cons p ps)
  have tl: "disjoint_spans ps" using Cons.prems by (simp add: disjoint_spans_def)
  show ?case
  proof (cases "start p \<le> fst i \<and> fst i < stop p")
    case True
    have "(\<Sum>p\<leftarrow>ps. if start p \<le> fst i \<and> fst i < stop p then cum p (snd i) - cum p (fst i) else 0) = 0"
      using True Cons.prems by (intro sum_list_zeros) (force simp: disjoint_spans_def)
    then show ?thesis using True by (simp add: share_def covering_def)
  next
    case False
    then show ?thesis using Cons.IH [OF tl] by (auto simp: share_def covering_def)
  qed
qed (simp add: share_def covering_def)

lemma shares_total:
  assumes "disjoint_spans ps" "sorted_wrt (<) xs" "\<forall>p\<in>set ps. start p \<in> set xs \<and> stop p \<in> set xs"
  shows "(\<Sum>i\<leftarrow>adj_pairs xs. share ps i) = (\<Sum>p\<leftarrow>ps. cum p (stop p))"
proof -
  let ?f = "\<lambda>p i. if start p \<le> fst i \<and> fst i < stop p then cum p (snd i) - cum p (fst i) else 0"
  have "(\<Sum>i\<leftarrow>adj_pairs xs. share ps i) = (\<Sum>i\<leftarrow>adj_pairs xs. \<Sum>p\<leftarrow>ps. ?f p i)"
    by (simp add: share_sum [OF assms(1)])
  also have "\<dots> = (\<Sum>p\<leftarrow>ps. \<Sum>i\<leftarrow>adj_pairs xs. ?f p i)"
    by (induction ps) (simp_all add: sum_list_addf)
  also have "\<dots> = (\<Sum>p\<leftarrow>ps. cum p (stop p))"
  proof (rule arg_cong [where f = sum_list], rule map_cong [OF refl])
    fix p assume p: "p \<in> set ps"
    have "(\<Sum>i\<leftarrow>adj_pairs xs. ?f p i) = (\<Sum>(a, b)\<leftarrow>adj_pairs xs. if start p \<le> a \<and> a < stop p then cum p b - cum p a else 0)"
      by (rule arg_cong [where f = sum_list], rule map_cong [OF refl]) (simp add: split_beta)
    also have "\<dots> = cum p (stop p) - cum p (start p)"
      using assms p by (intro adj_sum_within) (auto simp: disjoint_spans_def)
    finally show "(\<Sum>i\<leftarrow>adj_pairs xs. ?f p i) = cum p (stop p)" by (simp add: cum_start)
  qed
  finally show ?thesis .
qed

end

section \<open>Both sides of a comparison as measures\<close>

definition piece_cum :: "piece \<Rightarrow> time \<Rightarrow> int" where
  "piece_cum p t =
     (if Piece_Pending p then 0
      else round_half_away (of_int (Piece_RateMicro p) / 1000000 * of_int (micros t (Piece_StartTime p))))"

definition row_cum :: "ledger_piece \<Rightarrow> time \<Rightarrow> int" where
  "row_cum r t =
     (let duration = micros (Row_EndTime r) (Row_StartTime r)
      in if duration \<le> 0 then 0
         else round_half_away (of_int (Row_QuantityMicro r) / of_int duration * of_int (micros t (Row_StartTime r))))"

lemma micros_self [simp]: "micros t t = 0"
  by (simp add: time_sub_def Microseconds_def)

interpretation expected_side: span_measure Piece_StartTime Piece_EndTime piece_cum
  by unfold_locales (simp add: piece_cum_def)

interpretation ledger_side: span_measure Row_StartTime Row_EndTime row_cum
  by unfold_locales (simp add: row_cum_def Let_def)

lemma cumulative_Inr:
  "cumulative rate origin a b = Inr x \<Longrightarrow>
   x = wrap64 (round_half_away (rate * of_int (micros b origin)) - round_half_away (rate * of_int (micros a origin)))"
  by (auto simp: cumulative_def RationalToMicro_eq ebind_Inr_iff split: if_splits)

lemma roundedQuantity_share:
  "roundedQuantity es a b = Inr x \<Longrightarrow> wrap64 x = wrap64 (expected_side.share es (a, b))"
  by (auto simp: roundedQuantity_def expected_side.share_def piece_cum_def dest: cumulative_Inr
      split: option.splits if_splits)

lemma committedQuantity_share:
  "committedQuantity rs a b = Inr x \<Longrightarrow> wrap64 x = wrap64 (ledger_side.share rs (a, b))"
  by (auto simp: committedQuantity_def ledger_side.share_def row_cum_def Let_def dest: cumulative_Inr
      split: option.splits if_splits)

section \<open>Equal rates carry equal quantities\<close>

text \<open>
  On whole-second boundaries a rate of whole micro units per second gives a whole quantity at every
  boundary, so nothing is rounded and the share of an interval is the rate times its length.
\<close>

definition on_seconds :: "time \<Rightarrow> time \<Rightarrow> bool" where
  "on_seconds base t \<longleftrightarrow> whole_second t \<and> in_span base t"

lemma micros_seconds:
  assumes "on_seconds base a" "on_seconds base b"
  obtains k where "micros b a = 1000000 * k" "b - a = second * k"
proof -
  obtain k where k: "b - a = second * k" using assms whole_second_diff by (auto simp: on_seconds_def)
  moreover have "time_sub b a = b - a" using assms time_sub_exact by (auto simp: on_seconds_def)
  ultimately have "micros b a = 1000000 * k" by (simp only: Microseconds_seconds)
  then show thesis using that k by blast
qed

lemma whole_rate_share:
  assumes "on_seconds base s" "on_seconds base a" "on_seconds base b" "rate = of_int k / 1000000"
  shows "of_int (round_half_away (rate * of_int (micros b s)) - round_half_away (rate * of_int (micros a s))) =
    rate * of_int (micros b a)"
proof -
  obtain i j l where *: "micros b s = 1000000 * i" "b - s = second * i" "micros a s = 1000000 * j" "a - s = second * j"
      "micros b a = 1000000 * l" "b - a = second * l"
    using micros_seconds assms(1-3) by metis
  have rnd: "round_half_away (rate * of_int (1000000 * n)) = k * n" for n
  proof -
    have "rate * of_int (1000000 * n) = of_int (k * n)" by (simp add: assms(4))
    then show ?thesis by (simp only: round_half_away_of_int)
  qed
  have "second * l = second * (i - j)" using *(2,4,6) by (simp only: right_diff_distrib)
  then have "l = i - j" by simp
  then show ?thesis unfolding *(1,3,5) rnd by (simp add: assms(4) right_diff_distrib)
qed

lemma covering_Some:
  "covering start stop ps t = Some p \<Longrightarrow> p \<in> set ps \<and> start p \<le> t \<and> t < stop p"
  by (auto simp: covering_def find_Some_iff)

lemma expected_share_rate:
  assumes "\<forall>p\<in>set es. on_seconds base (Piece_StartTime p)" "on_seconds base a" "on_seconds base b"
  shows "of_int (expected_side.share es (a, b)) = rateAt es a * of_int (micros b a)"
proof (cases "covering Piece_StartTime Piece_EndTime es a")
  case (Some p)
  have "on_seconds base (Piece_StartTime p)" using covering_Some [OF Some] assms(1) by blast
  from whole_rate_share [OF this assms(2,3) refl] Some show ?thesis
    by (simp add: expected_side.share_def rateAt_def piece_cum_def)
qed (simp add: expected_side.share_def rateAt_def)

lemma rateAt_whole: "\<exists>k. rateAt es a = of_int k / 1000000"
proof (cases "covering Piece_StartTime Piece_EndTime es a")
  case (Some p)
  then show ?thesis by (cases "Piece_Pending p") (auto simp: rateAt_def intro: exI [of _ 0])
qed (auto simp: rateAt_def intro: exI [of _ 0])

lemma row_duration:
  assumes "on_seconds base (Row_StartTime r)" "on_seconds base (Row_EndTime r)" "Row_StartTime r < Row_EndTime r"
  shows "0 < micros (Row_EndTime r) (Row_StartTime r)"
proof -
  obtain k where k: "micros (Row_EndTime r) (Row_StartTime r) = 1000000 * k" "Row_EndTime r - Row_StartTime r = second * k"
    using micros_seconds assms(1,2) by metis
  then have "0 < k" using assms(3) by (simp add: zero_less_mult_iff)
  with k(1) show ?thesis by simp
qed

definition rows_on_seconds :: "time \<Rightarrow> ledger_piece list \<Rightarrow> bool" where
  "rows_on_seconds base rs \<longleftrightarrow>
     (\<forall>r\<in>set rs. on_seconds base (Row_StartTime r) \<and> on_seconds base (Row_EndTime r) \<and> Row_StartTime r < Row_EndTime r)"

lemma actualRateAt_covering:
  assumes "rows_on_seconds base rs"
  shows "actualRateAt rs a =
    (case covering Row_StartTime Row_EndTime rs a of None \<Rightarrow> 0
     | Some r \<Rightarrow> of_int (Row_QuantityMicro r) / of_int (micros (Row_EndTime r) (Row_StartTime r)))"
proof -
  have "find (\<lambda>r. Row_StartTime r \<le> a \<and> a < Row_EndTime r \<and> micros (Row_EndTime r) (Row_StartTime r) > 0) rs =
      covering Row_StartTime Row_EndTime rs a"
    unfolding covering_def using assms row_duration by (intro find_cong) (auto simp: rows_on_seconds_def)
  then show ?thesis by (simp add: actualRateAt_def)
qed

lemma ledger_share_rate:
  assumes "rows_on_seconds base rs" "on_seconds base a" "on_seconds base b" "actualRateAt rs a = of_int k / 1000000"
  shows "of_int (ledger_side.share rs (a, b)) = actualRateAt rs a * of_int (micros b a)"
proof (cases "covering Row_StartTime Row_EndTime rs a")
  case (Some r)
  have r: "on_seconds base (Row_StartTime r)" "0 < micros (Row_EndTime r) (Row_StartTime r)"
    using covering_Some [OF Some] assms(1) row_duration by (auto simp: rows_on_seconds_def)
  have rate: "actualRateAt rs a = of_int (Row_QuantityMicro r) / of_int (micros (Row_EndTime r) (Row_StartTime r))"
    using Some by (simp add: actualRateAt_covering [OF assms(1)])
  from whole_rate_share [OF r(1) assms(2,3) assms(4)] show ?thesis
    using r(2) Some unfolding rate by (simp add: ledger_side.share_def row_cum_def Let_def)
qed (simp add: ledger_side.share_def actualRateAt_covering [OF assms(1)])

section \<open>One interval\<close>

abbreviation net :: "difference list \<Rightarrow> int" where
  "net ds \<equiv> \<Sum>d\<leftarrow>ds. Diff_QuantityMicro d"

definition counted :: "piece list \<Rightarrow> time \<Rightarrow> time \<times> time \<Rightarrow> bool" where
  "counted es clamp i \<longleftrightarrow> clamp < snd i \<or> pieceOverlaps es (fst i) (snd i)"

text \<open>What one interval adds to the differences: nothing, or a quantity to the last one or in a new one.\<close>

lemma diff_step_cases:
  assumes "diff_step key es rs splits clamp ds (a, b) = Inr ds'"
  obtains (skip) "ds' = ds" "\<not> counted es clamp (a, b)"
  | (same) "ds' = ds" "rateAt es a = actualRateAt rs a"
  | (zero) x y where "ds' = ds" "roundedQuantity es a b = Inr x" "committedQuantity rs a b = Inr y" "wrap64 (x - y) = 0"
  | (grow) x y where "counted es clamp (a, b)" "roundedQuantity es a b = Inr x" "committedQuantity rs a b = Inr y"
      "ds \<noteq> []" "Diff_End (last ds) = a" "Diff_DeltaRate (last ds) = rateAt es a - actualRateAt rs a"
      "sameBillingDay (Diff_Start (last ds)) a" "a \<notin> set splits"
      "ds' = butlast ds @ [(last ds)\<lparr>Diff_End := b, Diff_QuantityMicro := wrap64 (Diff_QuantityMicro (last ds) + wrap64 (x - y))\<rparr>]"
  | (new) x y where "counted es clamp (a, b)" "roundedQuantity es a b = Inr x" "committedQuantity rs a b = Inr y"
      "ds' = ds @ [\<lparr>Diff_Key = key, Diff_Start = a, Diff_End = b, Diff_QuantityMicro = wrap64 (x - y),
        Diff_DeltaRate = rateAt es a - actualRateAt rs a\<rparr>]"
proof (cases "\<not> counted es clamp (a, b)")
  case True
  then show thesis using assms skip by (simp add: diff_step_def counted_def)
next
  case c: False
  show thesis
  proof (cases "rateAt es a = actualRateAt rs a")
    case True
    then show thesis using assms same by (simp add: diff_step_def split: if_splits)
  next
    case False
    with assms c obtain x y where xy: "roundedQuantity es a b = Inr x" "committedQuantity rs a b = Inr y"
      by (auto simp: diff_step_def counted_def Let_def elim!: ebind_Inr_E)
    let ?joins = "ds \<noteq> [] \<and> Diff_End (last ds) = a \<and> Diff_DeltaRate (last ds) = rateAt es a - actualRateAt rs a \<and>
      sameBillingDay (Diff_Start (last ds)) a \<and> a \<notin> set splits"
    consider "wrap64 (x - y) = 0" | "wrap64 (x - y) \<noteq> 0" ?joins | "wrap64 (x - y) \<noteq> 0" "\<not> ?joins" by blast
    then show thesis
    proof cases
      case 1
      then show thesis using assms c False xy zero by (auto simp: diff_step_def counted_def Let_def)
    next
      case 2
      then show thesis using assms c False xy grow [OF _ xy] by (auto simp: diff_step_def counted_def Let_def)
    next
      case 3
      then show thesis using assms c False xy new [OF _ xy] by (auto simp: diff_step_def counted_def Let_def)
    qed
  qed
qed

lemma diff_step_net:
  assumes step: "diff_step key es rs splits clamp ds (a, b) = Inr ds'"
    and "\<forall>p\<in>set es. on_seconds base (Piece_StartTime p)" "rows_on_seconds base rs" "on_seconds base a" "on_seconds base b"
  shows "wrap64 (net ds') =
    wrap64 (net ds + (if counted es clamp (a, b) then expected_side.share es (a, b) - ledger_side.share rs (a, b) else 0))"
proof -
  let ?e = "expected_side.share es (a, b)" and ?l = "ledger_side.share rs (a, b)"
  have wr: "wrap64 (n + wrap64 (x - y)) = wrap64 (n + (?e - ?l))"
    if "roundedQuantity es a b = Inr x" "committedQuantity rs a b = Inr y" for x y n
  proof -
    have "wrap64 (x - y) = wrap64 (wrap64 x - wrap64 y)" by (simp add: int64_simps)
    also have "\<dots> = wrap64 (?e - ?l)"
      using roundedQuantity_share [OF that(1)] committedQuantity_share [OF that(2)] by (simp add: int64_simps)
    finally show ?thesis by (simp add: int64_simps)
  qed
  show ?thesis
    using step
  proof (cases rule: diff_step_cases)
    case same
    obtain k where "actualRateAt rs a = of_int k / 1000000" using rateAt_whole same(2) by metis
    from ledger_share_rate [OF assms(3-5) this] expected_share_rate [OF assms(2,4,5)] same(2)
    have "of_int ?e = (of_int ?l :: rat)" by simp
    then show ?thesis using same(1) by simp
  next
    case (zero x y)
    from wr [OF zero(2,3), of "net ds"] show ?thesis using zero(1,4) by simp
  next
    case (grow x y)
    obtain pre l where ds: "ds = pre @ [l]" using grow(4) by (metis rev_exhaust)
    have "wrap64 (net ds') = wrap64 (net ds + wrap64 (x - y))"
      using grow(9) by (simp add: ds int64_simps add.assoc [symmetric])
    then show ?thesis using wr [OF grow(2,3)] grow(1) by simp
  next
    case (new x y)
    then show ?thesis using wr [OF new(2,3)] by simp
  qed simp
qed

lemma efold_net:
  assumes "efold (diff_step key es rs splits clamp) ds is = Inr ds'"
    and "\<forall>p\<in>set es. on_seconds base (Piece_StartTime p)" "rows_on_seconds base rs"
    and "\<forall>(a, b)\<in>set is. on_seconds base a \<and> on_seconds base b"
  shows "wrap64 (net ds') = wrap64 (net ds +
    (\<Sum>i\<leftarrow>is. if counted es clamp i then expected_side.share es i - ledger_side.share rs i else 0))"
  using assms(1,4)
proof (induction "is" arbitrary: ds)
  case (Cons i "is")
  obtain a b where i: "i = (a, b)" by (cases i)
  obtain mid where mid: "diff_step key es rs splits clamp ds (a, b) = Inr mid"
      "efold (diff_step key es rs splits clamp) mid is = Inr ds'"
    using Cons.prems(1) by (auto simp: i ebind_Inr_iff)
  have ab: "on_seconds base a" "on_seconds base b" and rest: "\<forall>(a, b)\<in>set is. on_seconds base a \<and> on_seconds base b"
    using Cons.prems(2) by (auto simp: i)
  let ?f = "\<lambda>i. if counted es clamp i then expected_side.share es i - ledger_side.share rs i else 0"
  have "wrap64 (net ds') = wrap64 (net mid + (\<Sum>i\<leftarrow>is. ?f i))" by (rule Cons.IH [OF mid(2) rest])
  also have "\<dots> = wrap64 (wrap64 (net mid) + (\<Sum>i\<leftarrow>is. ?f i))" by (simp add: int64_simps)
  also have "\<dots> = wrap64 (net ds + ?f i + (\<Sum>i\<leftarrow>is. ?f i))"
    unfolding diff_step_net [OF mid(1) assms(2,3) ab] i by (simp add: int64_simps)
  finally show ?case by (simp add: add.assoc)
qed simp

section \<open>The boundaries of a comparison\<close>

definition boundaries :: "piece list \<Rightarrow> ledger_piece list \<Rightarrow> time list \<Rightarrow> time list" where
  "boundaries es rs revisionTimes =
     remdups_adj (sort (base_points es rs @ diff_splits (base_points es rs) revisionTimes))"

lemma diff_eq:
  "diff key es rs revisionTimes clamp =
     (if base_points es rs = [] then Inr []
      else efold (diff_step key es rs (diff_splits (base_points es rs) revisionTimes) clamp) []
             (adj_pairs (boundaries es rs revisionTimes)))"
  by (simp add: diff_def boundaries_def Let_def)

lemma boundaries_sorted: "sorted_wrt (<) (boundaries es rs revisionTimes)"
  unfolding boundaries_def by (rule strict_sorted_remdups_adj_sort)

lemma set_base_points:
  "set (base_points es rs) = Piece_StartTime ` set es \<union> Piece_EndTime ` set es \<union> Row_StartTime ` set rs \<union> Row_EndTime ` set rs"
  by (auto simp: base_points_def)

lemma set_boundaries:
  "set (boundaries es rs revisionTimes) = set (base_points es rs) \<union> set (diff_splits (base_points es rs) revisionTimes)"
  by (auto simp: boundaries_def)

lemma base_points_range:
  assumes "t \<in> set (base_points es rs)"
  shows "hd (base_points es rs) \<le> t \<and> t \<le> last (base_points es rs)"
proof -
  have "sorted_wrt (<) (base_points es rs)" unfolding base_points_def by (rule strict_sorted_remdups_adj_sort)
  then show ?thesis using assms strict_sorted_hd_le strict_sorted_le_last by blast
qed

lemma set_splits:
  "t \<in> set (diff_splits pts revisionTimes) \<longleftrightarrow> hd pts < t \<and> t < last pts \<and> (day dvd t \<or> t \<in> set revisionTimes)"
  by (auto simp: diff_splits_def Let_def midnights_after)

lemma boundaries_on_seconds:
  assumes "\<forall>t\<in>set (base_points es rs). on_seconds base t" "\<forall>t\<in>set revisionTimes. whole_second t"
    and "t \<in> set (boundaries es rs revisionTimes)" "base_points es rs \<noteq> []"
  shows "on_seconds base t"
proof (cases "t \<in> set (base_points es rs)")
  case False
  then have "t \<in> set (diff_splits (base_points es rs) revisionTimes)" using assms(3) by (simp add: set_boundaries)
  then have "hd (base_points es rs) < t \<and> t < last (base_points es rs) \<and> (day dvd t \<or> t \<in> set revisionTimes)"
    by (simp only: set_splits)
  moreover have "on_seconds base (hd (base_points es rs))" "on_seconds base (last (base_points es rs))"
    using assms(1,4) by simp_all
  ultimately show ?thesis
    using assms(2) whole_second_midnight by (auto simp: on_seconds_def in_span_def)
qed (use assms in simp)

section \<open>Conservation\<close>

text \<open>
  The rows a comparison revisits: those that end after the clamp and those an expected piece overlaps.
  \<open>aligned\<close> says that such a row starts at or after the clamp, or that one expected piece covers it up to
  its end or to the clamp. Every row is aligned in the full path, where the clamp is the zero time.
\<close>

definition revisited :: "piece list \<Rightarrow> time \<Rightarrow> ledger_piece \<Rightarrow> bool" where
  "revisited es clamp r \<longleftrightarrow> counted es clamp (Row_StartTime r, Row_EndTime r)"

definition aligned :: "piece list \<Rightarrow> time \<Rightarrow> ledger_piece \<Rightarrow> bool" where
  "aligned es clamp r \<longleftrightarrow>
     (revisited es clamp r \<longrightarrow> clamp \<le> Row_StartTime r \<or>
        (\<exists>p\<in>set es. Piece_StartTime p \<le> Row_StartTime r \<and> min (Row_EndTime r) clamp \<le> Piece_EndTime p))"

lemma covering_filter:
  assumes "ledger_side.disjoint_spans rs"
  shows "covering Row_StartTime Row_EndTime (filter P rs) a =
    (case covering Row_StartTime Row_EndTime rs a of None \<Rightarrow> None | Some r \<Rightarrow> if P r then Some r else None)"
  using assms
proof (induction rs)
  case (Cons r rs)
  have "ledger_side.disjoint_spans rs" using Cons.prems by (simp add: ledger_side.disjoint_spans_def)
  note IH = Cons.IH [OF this]
  show ?case
  proof (cases "Row_StartTime r \<le> a \<and> a < Row_EndTime r")
    case True
    then have "covering Row_StartTime Row_EndTime rs a = None"
      using Cons.prems by (force simp: covering_def find_None_iff ledger_side.disjoint_spans_def)
    then show ?thesis using True IH by (auto simp: covering_def)
  qed (use IH in \<open>auto simp: covering_def\<close>)
qed (simp add: covering_def)

lemma counted_share:
  assumes "ledger_side.disjoint_spans rs" "\<forall>r\<in>set rs. aligned es clamp r"
    and ab: "(a, b) \<in> set (adj_pairs (boundaries es rs revisionTimes))"
  shows "(if counted es clamp (a, b) then ledger_side.share rs (a, b) else 0) =
    ledger_side.share (filter (revisited es clamp) rs) (a, b)"
proof (cases "covering Row_StartTime Row_EndTime rs a")
  case None
  then show ?thesis by (simp add: ledger_side.share_def covering_filter [OF assms(1)])
next
  case (Some r)
  note r = covering_Some [OF Some]
  have lt: "a < b" using adj_pairs_less [OF boundaries_sorted ab] .
  have "Row_EndTime r \<in> set (boundaries es rs revisionTimes)" using r by (simp add: set_boundaries set_base_points)
  then have reach: "b \<le> Row_EndTime r" using adj_pairs_no_between [OF boundaries_sorted ab] r by fastforce
  have "counted es clamp (a, b) \<longleftrightarrow> revisited es clamp r"
  proof
    assume "counted es clamp (a, b)"
    then show "revisited es clamp r" using reach r lt by (force simp: counted_def revisited_def pieceOverlaps_def list_ex_iff)
  next
    assume rv: "revisited es clamp r"
    then consider "clamp \<le> Row_StartTime r"
      | p where "p \<in> set es" "Piece_StartTime p \<le> Row_StartTime r" "min (Row_EndTime r) clamp \<le> Piece_EndTime p"
      using assms(2) r by (auto simp: aligned_def)
    then show "counted es clamp (a, b)"
    proof cases
      case 2
      then show ?thesis using reach r lt by (fastforce simp: counted_def pieceOverlaps_def list_ex_iff)
    qed (use r lt in \<open>simp add: counted_def\<close>)
  qed
  then show ?thesis using Some by (simp add: ledger_side.share_def covering_filter [OF assms(1)])
qed

lemma counted_expected:
  assumes "(a, b) \<in> set (adj_pairs (boundaries es rs revisionTimes))"
  shows "(if counted es clamp (a, b) then expected_side.share es (a, b) else 0) = expected_side.share es (a, b)"
proof (cases "covering Piece_StartTime Piece_EndTime es a")
  case (Some p)
  then have "counted es clamp (a, b)"
    using covering_Some [OF Some] adj_pairs_less [OF boundaries_sorted assms] by (force simp: counted_def pieceOverlaps_def list_ex_iff)
  then show ?thesis by simp
qed (simp add: expected_side.share_def)

abbreviation disjoint_pieces :: "piece list \<Rightarrow> bool" where
  "disjoint_pieces \<equiv> expected_side.disjoint_spans"

abbreviation disjoint_rows :: "ledger_piece list \<Rightarrow> bool" where
  "disjoint_rows \<equiv> ledger_side.disjoint_spans"

abbreviation committed :: "ledger_piece list \<Rightarrow> int" where
  "committed rs \<equiv> \<Sum>r\<leftarrow>rs. Row_QuantityMicro r"

lemma piece_cum_end: "QuantityMicro p = Inr q \<Longrightarrow> piece_cum p (Piece_EndTime p) = q"
  by (auto simp: QuantityMicro_def piece_cum_def Let_def RationalToMicro_eq split: if_splits)

lemma row_cum_end:
  "0 < micros (Row_EndTime r) (Row_StartTime r) \<Longrightarrow> row_cum r (Row_EndTime r) = Row_QuantityMicro r"
  by (simp add: row_cum_def Let_def)

lemma expectedRows_total:
  assumes "expectedRows es key = Inr rows" "\<forall>p\<in>set es. Piece_Key p = key"
  shows "(\<Sum>p\<leftarrow>es. piece_cum p (Piece_EndTime p)) = committed rows"
proof -
  have "filter (\<lambda>p. Piece_Key p = key) es = es" using assms(2) by (simp add: filter_id_conv)
  with assms(1) have "traverse (\<lambda>p. ebind (QuantityMicro p) (\<lambda>q. Inr \<lparr>Row_Key = Piece_Key p, Row_StartTime = Piece_StartTime p,
      Row_EndTime = Piece_EndTime p, Row_QuantityMicro = q\<rparr>)) es = Inr rows"
    by (simp add: expectedRows_def)
  then show ?thesis
    by (induction es arbitrary: rows) (auto simp: ebind_Inr_iff piece_cum_end)
qed

lemma disjoint_rows_filter: "disjoint_rows rs \<Longrightarrow> disjoint_rows (filter P rs)"
  by (auto simp: ledger_side.disjoint_spans_def intro: sorted_wrt_filter)


section \<open>The shape of the differences\<close>

definition well_placed :: "ledger_key \<Rightarrow> time list \<Rightarrow> time \<Rightarrow> time \<Rightarrow> difference list \<Rightarrow> bool" where
  "well_placed key splits lo bound ds \<longleftrightarrow>
     sorted_wrt (\<lambda>d d'. Diff_End d \<le> Diff_Start d') ds \<and>
     (\<forall>d\<in>set ds. Diff_Key d = key \<and> lo \<le> Diff_Start d \<and> Diff_Start d < Diff_End d \<and> Diff_End d \<le> bound \<and>
        (\<forall>t\<in>set splits. t \<le> Diff_Start d \<or> Diff_End d \<le> t))"

lemma well_placed_later: "well_placed key splits lo a ds \<Longrightarrow> a \<le> b \<Longrightarrow> well_placed key splits lo b ds"
  by (force simp: well_placed_def)

lemma diff_step_placed:
  assumes "diff_step key es rs splits clamp ds (a, b) = Inr ds'" "well_placed key splits lo a ds" "lo \<le> a" "a < b"
    and "\<forall>t\<in>set splits. t \<le> a \<or> b \<le> t"
  shows "well_placed key splits lo b ds'"
  using assms(1)
proof (cases rule: diff_step_cases)
  case (grow x y)
  obtain pre l where ds: "ds = pre @ [l]" using grow(4) by (metis rev_exhaust)
  show ?thesis
    using assms(2-5) grow(5,8,9) by (fastforce simp: ds well_placed_def sorted_wrt_append)
next
  case (new x y)
  then show ?thesis using assms(2-5) by (fastforce simp: well_placed_def sorted_wrt_append)
qed (use assms well_placed_later [OF assms(2)] in simp_all)

lemma efold_placed:
  assumes "efold (diff_step key es rs splits clamp) ds (adj_pairs xs) = Inr ds'" "well_placed key splits lo (hd xs) ds" "lo \<le> hd xs"
    and "sorted_wrt (<) xs" "xs \<noteq> []" "\<forall>(a, b)\<in>set (adj_pairs xs). \<forall>t\<in>set splits. t \<le> a \<or> b \<le> t"
  shows "well_placed key splits lo (last xs) ds'"
  using assms
proof (induction xs arbitrary: ds rule: induct_list012)
  case (3 x y zs)
  obtain mid where mid: "diff_step key es rs splits clamp ds (x, y) = Inr mid"
      "efold (diff_step key es rs splits clamp) mid (adj_pairs (y # zs)) = Inr ds'"
    using "3.prems"(1) by (auto simp: ebind_Inr_iff)
  have "well_placed key splits lo y mid" by (rule diff_step_placed [OF mid(1)]) (use "3.prems" in auto)
  then show ?case using "3.IH"(2) [OF mid(2)] "3.prems"(3,4,6) by auto
qed auto

text \<open>
  C17: where the heartbeats of a comparison lie. The differences are in time order and do not overlap; each
  belongs to the compared key, spans time, and crosses neither a UTC midnight nor a revision boundary.
\<close>

theorem differences_never_cross:
  assumes "diff key es rs revisionTimes clamp = Inr ds"
  shows "sorted_wrt (\<lambda>d d'. Diff_End d \<le> Diff_Start d') ds \<and>
    (\<forall>d\<in>set ds. Diff_Key d = key \<and> Diff_Start d < Diff_End d \<and>
       (\<forall>t. Diff_Start d < t \<and> t < Diff_End d \<longrightarrow> \<not> day dvd t \<and> t \<notin> set revisionTimes))"
proof (cases "base_points es rs = []")
  case True
  then show ?thesis using assms by (simp add: diff_eq)
next
  case False
  let ?pts = "base_points es rs" and ?bs = "boundaries es rs revisionTimes"
  let ?sp = "diff_splits ?pts revisionTimes"
  have ne: "?bs \<noteq> []" using False set_boundaries [of es rs revisionTimes] by auto
  have ends: "hd ?bs = hd ?pts \<and> last ?bs = last ?pts"
  proof -
    have "hd ?pts \<in> set ?bs" "last ?pts \<in> set ?bs" using False by (simp_all add: set_boundaries)
    moreover have "hd ?pts \<le> t \<and> t \<le> last ?pts" if "t \<in> set ?bs" for t
      using that base_points_range [of t es rs] by (auto simp: set_boundaries set_splits)
    moreover have "hd ?bs \<in> set ?bs" "last ?bs \<in> set ?bs" using ne by simp_all
    ultimately show ?thesis
      using strict_sorted_hd_le [OF boundaries_sorted] strict_sorted_le_last [OF boundaries_sorted] by (meson order_antisym)
  qed
  have gaps: "\<forall>(a, b)\<in>set (adj_pairs ?bs). \<forall>t\<in>set ?sp. t \<le> a \<or> b \<le> t"
    using adj_pairs_no_between [OF boundaries_sorted, of _ _ es rs revisionTimes] by (fastforce simp: set_boundaries)
  have "efold (diff_step key es rs ?sp clamp) [] (adj_pairs ?bs) = Inr ds" using assms False by (simp add: diff_eq)
  then have wp: "well_placed key ?sp (hd ?bs) (last ?bs) ds"
    by (rule efold_placed [OF _ _ order_refl boundaries_sorted ne gaps]) (simp add: well_placed_def)
  have "\<not> day dvd t \<and> t \<notin> set revisionTimes" if "d \<in> set ds" "Diff_Start d < t" "t < Diff_End d" for d t
  proof -
    have "t \<notin> set ?sp" "hd ?pts < t" "t < last ?pts" using wp that ends by (fastforce simp: well_placed_def)+
    then show ?thesis unfolding set_splits by blast
  qed
  then show ?thesis using wp unfolding well_placed_def by blast
qed

section \<open>A settled ledger\<close>

definition row_for :: "piece \<Rightarrow> ledger_piece" where
  "row_for p = \<lparr>Row_Key = Piece_Key p, Row_StartTime = Piece_StartTime p, Row_EndTime = Piece_EndTime p,
     Row_QuantityMicro = piece_cum p (Piece_EndTime p)\<rparr>"

lemma expectedRows_map:
  assumes "expectedRows es key = Inr rows"
  shows "rows = map row_for (expectedPiecesOf es key)"
proof -
  have "traverse (\<lambda>p. ebind (QuantityMicro p) (\<lambda>q. Inr \<lparr>Row_Key = Piece_Key p, Row_StartTime = Piece_StartTime p,
      Row_EndTime = Piece_EndTime p, Row_QuantityMicro = q\<rparr>)) ps = Inr rows \<Longrightarrow> rows = map row_for ps" for ps
    by (induction ps arbitrary: rows) (auto simp: ebind_Inr_iff piece_cum_end row_for_def)
  then show ?thesis using assms by (simp add: expectedRows_def expectedPiecesOf_def)
qed

lemma find_map: "find P (map f xs) = map_option f (find (\<lambda>x. P (f x)) xs)"
  by (induction xs) auto

lemma row_rate:
  assumes "on_seconds base (Piece_StartTime p)" "on_seconds base (Piece_EndTime p)" "Piece_StartTime p < Piece_EndTime p"
  shows "of_int (piece_cum p (Piece_EndTime p)) / of_int (micros (Piece_EndTime p) (Piece_StartTime p)) =
    (if Piece_Pending p then 0 else of_int (Piece_RateMicro p) / (1000000 :: rat))"
proof -
  have "0 < micros (Piece_EndTime p) (Piece_StartTime p)"
    using row_duration [of base "row_for p"] assms by (simp add: row_for_def)
  moreover have "of_int (piece_cum p (Piece_EndTime p)) =
      of_int (Piece_RateMicro p) / (1000000 :: rat) * of_int (micros (Piece_EndTime p) (Piece_StartTime p))" if "\<not> Piece_Pending p"
    using whole_rate_share [OF assms(1,1,2) refl, of "Piece_RateMicro p"] that by (simp add: piece_cum_def)
  ultimately show ?thesis by (simp add: piece_cum_def [of p])
qed

lemma efold_skip: "(\<And>i. i \<in> set is \<Longrightarrow> f s i = Inr s) \<Longrightarrow> efold f s is = Inr s"
  by (induction "is") auto


section \<open>A volume billed for half a minute, then for more\<close>

definition sample_piece :: piece where
  "sample_piece = \<lparr>Piece_Key = sample_key, Piece_StartTime = 86420000000000, Piece_EndTime = 86500000000000,
     Piece_RateMicro = 5000000, Piece_Pending = False, Piece_Unit = ''gib_seconds'', Piece_Revision = ''0001''\<rparr>"

definition sample_row :: "time \<Rightarrow> int \<Rightarrow> ledger_piece" where
  "sample_row stop quantity = \<lparr>Row_Key = sample_key, Row_StartTime = 86420000000000, Row_EndTime = stop, Row_QuantityMicro = quantity\<rparr>"

definition sample_difference :: difference where
  "sample_difference = \<lparr>Diff_Key = sample_key, Diff_Start = 86450000000000, Diff_End = 86500000000000,
     Diff_QuantityMicro = 250000000, Diff_DeltaRate = 5\<rparr>"

lemma sample_points: "base_points [sample_piece] [sample_row 86450000000000 150000000] = [86420000000000, 86450000000000, 86500000000000]"
  by (simp add: base_points_def sample_piece_def sample_row_def)

lemma sample_diff: "diff sample_key [sample_piece] [sample_row 86450000000000 150000000] [86400000000000] 0 = Inr [sample_difference]"
  by code_simp

lemma sample_rows: "expectedRows [sample_piece] sample_key = Inr [sample_row 86500000000000 400000000]"
  by code_simp


theorem differences_never_cross_witness:
  "Diff_Key sample_difference = sample_key \<and> Diff_Start sample_difference < Diff_End sample_difference \<and>
   \<not> day dvd (86460000000000 :: time)"
  using differences_never_cross [OF sample_diff] by (simp add: sample_difference_def)


end
