(* ===== verification/Schema_Versions.thy ===== *)
theory Schema_Versions
  imports Heartbeat Metering_Rules
begin

text \<open>
  The published event schemas of \<^verbatim>\<open>schema/versions.go\<close>: reading and validating the version
  files, the comparison of the current version with the payload type the code sends, the add-only rule
  between versions, the version in effect at a time, and the check that a record carries the fields its
  version requires. A version file is given as its decoded JSON, \<open>None\<close> when it does not decode as one
  object of that shape; a Go type is given as what \<^verbatim>\<open>reflect\<close> reports of it.
\<close>

section \<open>Fields and versions\<close>

record field_attrs =
  Attr_Name :: string
  Attr_Type :: string
  Attr_Required :: bool
  Attr_Format :: string
  Attr_Pattern :: string
  Attr_Const :: string
  Attr_Unit :: string
  Attr_Description :: string
  Attr_Values :: string

datatype schema_field = SchemaField (field_attrs: field_attrs) (field_nested: "schema_field list")

record schema_version =
  Version_Name :: string
  Version_EffectiveAt :: time
  Version_CloudEventType :: string
  Version_Envelope :: "schema_field list"
  Version_Data :: "schema_field list"
  Version_SourcePath :: string

record file_attrs =
  File_Name :: string
  File_Type :: string
  File_Required :: "bool option"
  File_Format :: string
  File_Pattern :: string
  File_Const :: string
  File_Unit :: string
  File_Description :: string
  File_Values :: string

datatype field_file = FieldFile file_attrs "field_file list"

record version_file =
  File_Version :: string
  File_EffectiveAt :: string
  File_CloudEventType :: string
  File_Envelope :: "field_file list"
  File_Data :: "field_file list"

abbreviation field_name :: "schema_field \<Rightarrow> string" where
  "field_name f \<equiv> Attr_Name (field_attrs f)"

section \<open>Choosing a version\<close>

fun selected :: "schema_version option \<Rightarrow> schema_version list \<Rightarrow> time \<Rightarrow> schema_version option" where
  "selected sel [] moment = sel"
| "selected sel (v # vs) moment = (if Version_EffectiveAt v > moment then sel else selected (Some v) vs moment)"

definition selectVersion :: "schema_version list \<Rightarrow> time \<Rightarrow> metering_error + schema_version" where
  "selectVersion versions moment =
     (case selected None versions moment of None \<Rightarrow> Inl NoVersionInEffect | Some v \<Rightarrow> Inr v)"

definition VersionInEffect :: "(metering_error + schema_version list) \<Rightarrow> time \<Rightarrow> metering_error + schema_version" where
  "VersionInEffect published moment =
     (if moment = zero_time then Inl NoVersionInEffect else ebind published (\<lambda>versions. selectVersion versions moment))"

definition VersionForType :: "schema_version list \<Rightarrow> string \<Rightarrow> metering_error + schema_version" where
  "VersionForType versions cloudEventType =
     (case find (\<lambda>v. Version_CloudEventType v = cloudEventType) versions of
        None \<Rightarrow> Inl (NoVersionForType cloudEventType) | Some v \<Rightarrow> Inr v)"

section \<open>Parsing a version file\<close>

definition lower :: "char \<Rightarrow> bool" where
  "lower c \<longleftrightarrow> 97 \<le> (of_char c :: nat) \<and> (of_char c :: nat) \<le> 122"

definition fieldNamePattern :: "string \<Rightarrow> bool" where
  "fieldNamePattern s \<longleftrightarrow>
     (case s of [] \<Rightarrow> False | c # cs \<Rightarrow> lower c \<and> list_all (\<lambda>c. lower c \<or> is_digit c \<or> c = CHR ''_'') cs)"

definition versionPattern :: "string \<Rightarrow> bool" where
  "versionPattern s \<longleftrightarrow>
     (case s of v # d # ds \<Rightarrow> v = CHR ''v'' \<and> is_digit d \<and> d \<noteq> CHR ''0'' \<and> list_all is_digit ds | _ \<Rightarrow> False)"

abbreviation (input) "FieldTypeString \<equiv> ''string''"
abbreviation (input) "FieldTypeInteger \<equiv> ''integer''"
abbreviation (input) "FieldTypeBoolean \<equiv> ''boolean''"
abbreviation (input) "FieldTypeObject \<equiv> ''object''"

definition attrs_of_file :: "file_attrs \<Rightarrow> bool \<Rightarrow> string \<Rightarrow> field_attrs" where
  "attrs_of_file f required values =
     \<lparr>Attr_Name = File_Name f, Attr_Type = File_Type f, Attr_Required = required, Attr_Format = File_Format f,
      Attr_Pattern = File_Pattern f, Attr_Const = File_Const f, Attr_Unit = File_Unit f,
      Attr_Description = File_Description f, Attr_Values = values\<rparr>"

text \<open>The checks of one field before its nesting is looked at.\<close>

definition check_field_file :: "string list \<Rightarrow> file_attrs \<Rightarrow> metering_error + bool" where
  "check_field_file seen f =
     (if \<not> fieldNamePattern (File_Name f) then Inl (InvalidSchema ''not lower_snake_case'' (File_Name f))
      else if File_Name f \<in> set seen then Inl (InvalidSchema ''repeated'' (File_Name f))
      else case File_Required f of
        None \<Rightarrow> Inl (InvalidSchema ''no required marker'' (File_Name f))
      | Some required \<Rightarrow>
          if File_Description f = '''' then Inl (InvalidSchema ''no description'' (File_Name f))
          else if File_Type f \<notin> {FieldTypeString, FieldTypeInteger, FieldTypeBoolean, FieldTypeObject}
          then Inl (InvalidSchema ''unknown type'' (File_Name f))
          else if File_Type f \<noteq> FieldTypeString \<and> (File_Format f \<noteq> '''' \<or> File_Pattern f \<noteq> '''')
          then Inl (InvalidSchema ''format or pattern on a non-string'' (File_Name f))
          else if File_Type f \<noteq> FieldTypeString \<and> File_Const f \<noteq> ''''
          then Inl (InvalidSchema ''constant on a non-string'' (File_Name f))
          else Inr required)"

text \<open>The field itself, given the outcome \<open>parsed\<close> of its nested fields.\<close>

definition field_of_file :: "file_attrs \<Rightarrow> bool \<Rightarrow> bool \<Rightarrow> (metering_error + schema_field list) \<Rightarrow> metering_error + schema_field" where
  "field_of_file f required has_fields parsed =
     (if File_Type f \<noteq> FieldTypeObject
      then (if File_Values f \<noteq> '''' \<or> has_fields then Inl (InvalidSchema ''nesting on a non-object'' (File_Name f))
            else Inr (SchemaField (attrs_of_file f required '''') []))
      else if File_Values f \<noteq> '''' \<and> has_fields then Inl (InvalidSchema ''both a map and a fixed object'' (File_Name f))
      else if File_Values f \<noteq> ''''
      then (if File_Values f \<in> {FieldTypeString, FieldTypeInteger, FieldTypeBoolean}
            then Inr (SchemaField (attrs_of_file f required (File_Values f)) [])
            else Inl (InvalidSchema ''unknown value type'' (File_Name f)))
      else if \<not> has_fields then Inl (InvalidSchema ''neither fields nor a value type'' (File_Name f))
      else ebind parsed (\<lambda>fs. Inr (SchemaField (attrs_of_file f required '''') fs)))"

fun parse_fields :: "string list \<Rightarrow> field_file list \<Rightarrow> metering_error + schema_field list" where
  "parse_fields seen [] = Inr []"
| "parse_fields seen (FieldFile f nested # rest) =
     ebind (check_field_file seen f) (\<lambda>required.
     ebind (field_of_file f required (nested \<noteq> []) (parse_fields [] nested)) (\<lambda>field.
     ebind (parse_fields (File_Name f # seen) rest) (\<lambda>fields. Inr (field # fields))))"

definition parseFields :: "field_file list \<Rightarrow> metering_error + schema_field list" where
  "parseFields files = parse_fields [] files"

definition heartbeatTypePrefix :: string where
  "heartbeatTypePrefix = ''osac.resource.heartbeat.''"

definition parseVersion :: "string \<Rightarrow> version_file option \<Rightarrow> metering_error + schema_version" where
  "parseVersion path content =
     (case content of
        None \<Rightarrow> Inl (InvalidSchema ''not a schema file'' path)
      | Some file \<Rightarrow>
          if \<not> versionPattern (File_Version file) then Inl (InvalidSchema ''not a version'' (File_Version file))
          else if File_CloudEventType file \<noteq> heartbeatTypePrefix @ File_Version file
          then Inl (InvalidSchema ''wrong event type'' (File_CloudEventType file))
          else (case ParseRFC3339Nano (File_EffectiveAt file) of
             None \<Rightarrow> Inl (InvalidSchema ''invalid effective_at'' (File_EffectiveAt file))
           | Some effectiveAt \<Rightarrow>
               if File_EffectiveAt file \<noteq> formatTime effectiveAt
               then Inl (InvalidSchema ''effective_at is not UTC RFC 3339'' (File_EffectiveAt file))
               else ebind (parseFields (File_Envelope file)) (\<lambda>envelope.
                    ebind (parseFields (File_Data file)) (\<lambda>data.
                    if envelope = [] then Inl (InvalidSchema ''no envelope fields'' path)
                    else if data = [] then Inl (InvalidSchema ''no payload fields'' path)
                    else Inr \<lparr>Version_Name = File_Version file, Version_EffectiveAt = effectiveAt,
                              Version_CloudEventType = File_CloudEventType file, Version_Envelope = envelope,
                              Version_Data = data, Version_SourcePath = path\<rparr>))))"

text \<open>\<^verbatim>\<open>Atoi\<close> of the digits after the \<^verbatim>\<open>v\<close>, zero when they do not fit.\<close>

definition versionNumber :: "string \<Rightarrow> int" where
  "versionNumber version =
     (let n = digits_of (TrimPrefix version ''v'') in if n < 2 ^ 63 then n else 0)"

section \<open>The shape the code sends\<close>

datatype go_type =
    GoString | GoBool | GoInt
  | GoMap go_type go_type
  | GoPointer go_type
  | GoStruct "go_field list"
  | GoOther
and go_field = GoField (go_tag: string) (go_field_type: go_type)

definition plain_attrs :: "string \<Rightarrow> string \<Rightarrow> field_attrs" where
  "plain_attrs type values =
     \<lparr>Attr_Name = '''', Attr_Type = type, Attr_Required = False, Attr_Format = '''', Attr_Pattern = '''', Attr_Const = '''',
      Attr_Unit = '''', Attr_Description = '''', Attr_Values = values\<rparr>"

fun split_commas :: "string \<Rightarrow> string list" where
  "split_commas [] = [[]]"
| "split_commas (c # cs) =
     (if c = CHR '','' then [] # split_commas cs
      else (case split_commas cs of s # ss \<Rightarrow> (c # s) # ss | [] \<Rightarrow> [[c]]))"

fun shapeOf :: "go_type \<Rightarrow> metering_error + schema_field"
  and payloadShape :: "go_field list \<Rightarrow> metering_error + schema_field list" where
  "shapeOf GoString = Inr (SchemaField (plain_attrs FieldTypeString '''') [])"
| "shapeOf GoBool = Inr (SchemaField (plain_attrs FieldTypeBoolean '''') [])"
| "shapeOf GoInt = Inr (SchemaField (plain_attrs FieldTypeInteger '''') [])"
| "shapeOf (GoMap key elem) =
     (if key \<noteq> GoString then Inl (InvalidSchema ''map key'' '''')
      else ebind (shapeOf elem) (\<lambda>values.
             Inr (SchemaField (plain_attrs FieldTypeObject (Attr_Type (field_attrs values))) [])))"
| "shapeOf (GoPointer elem) = shapeOf elem"
| "shapeOf (GoStruct fs) =
     ebind (payloadShape fs) (\<lambda>nested. Inr (SchemaField (plain_attrs FieldTypeObject '''') nested))"
| "shapeOf GoOther = Inl (InvalidSchema ''no published type'' '''')"
| "payloadShape [] = Inr []"
| "payloadShape (GoField tag typ # rest) =
     (let parts = split_commas tag; name = hd parts
      in if name = '''' \<or> name = ''-'' then payloadShape rest
         else ebind (shapeOf typ) (\<lambda>f.
              ebind (payloadShape rest) (\<lambda>fs.
              Inr (SchemaField ((field_attrs f)\<lparr>Attr_Name := name, Attr_Required := ''omitempty'' \<notin> set (tl parts)\<rparr>)
                     (field_nested f) # fs))))"

text \<open>The struct types \<^verbatim>\<open>HeartbeatData\<close> and \<^verbatim>\<open>Usage\<close> with their JSON tags.\<close>

definition Usage_type :: "go_field list" where
  "Usage_type = map (\<lambda>tag. GoField tag GoString) [''semantics'', ''from'', ''to'', ''quantity'', ''unit'', ''precision'']"

definition HeartbeatData_type :: "go_field list" where
  "HeartbeatData_type =
     [GoField ''tenant_id'' GoString, GoField ''resource_type'' GoString, GoField ''resource_id'' GoString,
      GoField ''meter'' GoString, GoField ''component'' GoString,
      GoField ''billing_dimensions'' (GoMap GoString GoString), GoField ''usage'' (GoStruct Usage_type),
      GoField ''heartbeat_time'' GoString, GoField ''last_applied_offset'' GoInt, GoField ''rules_revision'' GoString,
      GoField ''external_billing_account_id,omitempty'' (GoPointer GoString)]"

definition envelope_field :: "string \<Rightarrow> string \<Rightarrow> string \<Rightarrow> string \<Rightarrow> schema_field" where
  "envelope_field name const pattern format =
     SchemaField ((plain_attrs FieldTypeString '''')\<lparr>Attr_Name := name, Attr_Required := True, Attr_Const := const,
                    Attr_Pattern := pattern, Attr_Format := format\<rparr>) []"

definition currentEnvelope :: "schema_field list" where
  "currentEnvelope =
     [envelope_field ''specversion'' ''1.0'' '''' '''', envelope_field ''id'' '''' ''^[0-9a-f]{64}$'' '''',
      envelope_field ''type'' HeartbeatType '''' '''', envelope_field ''source'' ''osac-metering'' '''' '''',
      envelope_field ''datacontenttype'' ''application/json'' '''' '''', envelope_field ''time'' '''' '''' ''date-time'',
      envelope_field ''osacresourceid'' '''' '''' '''', envelope_field ''osacresourcetype'' '''' '''' '''',
      envelope_field ''osactenant'' '''' '''' '''']"

section \<open>Comparing shapes\<close>

definition by_name :: "schema_field list \<Rightarrow> (string \<times> schema_field) list" where
  "by_name fs = foldl (\<lambda>m f. AList.update (field_name f) f m) [] fs"

definition same_where_set :: "string \<Rightarrow> string \<Rightarrow> bool" where
  "same_where_set want got \<longleftrightarrow> want = '''' \<or> got = want"

fun compare_fields :: "schema_field list \<Rightarrow> (string \<times> schema_field) list \<Rightarrow> metering_error + unit" where
  "compare_fields [] published =
     (if published = [] then Inr () else Inl (InvalidSchema ''not sent'' (fst (hd published))))"
| "compare_fields (SchemaField want nested # rest) published =
     (case map_of published (Attr_Name want) of
        None \<Rightarrow> Inl (InvalidSchema ''missing'' (Attr_Name want))
      | Some (SchemaField got got_nested) \<Rightarrow>
          if Attr_Type got \<noteq> Attr_Type want then Inl (InvalidSchema ''type'' (Attr_Name want))
          else if Attr_Values got \<noteq> Attr_Values want then Inl (InvalidSchema ''values'' (Attr_Name want))
          else if \<not> same_where_set (Attr_Const want) (Attr_Const got) then Inl (InvalidSchema ''const'' (Attr_Name want))
          else if \<not> same_where_set (Attr_Pattern want) (Attr_Pattern got) then Inl (InvalidSchema ''pattern'' (Attr_Name want))
          else if \<not> same_where_set (Attr_Format want) (Attr_Format got) then Inl (InvalidSchema ''format'' (Attr_Name want))
          else if \<not> same_where_set (Attr_Unit want) (Attr_Unit got) then Inl (InvalidSchema ''unit'' (Attr_Name want))
          else ebind (if nested \<noteq> [] \<or> got_nested \<noteq> [] then compare_fields nested (by_name got_nested) else Inr ()) (\<lambda>_.
               if Attr_Required got \<noteq> Attr_Required want then Inl (InvalidSchema ''required'' (Attr_Name want))
               else compare_fields rest (AList.delete (Attr_Name want) published)))"

definition compareShape :: "schema_field list \<Rightarrow> schema_field list \<Rightarrow> metering_error + unit" where
  "compareShape expected published = compare_fields expected (by_name published)"

abbreviation envelope_type :: string where "envelope_type \<equiv> ''the CloudEvent envelope''"

definition versionDiscriminator :: "string \<Rightarrow> string \<Rightarrow> bool" where
  "versionDiscriminator typeName field \<longleftrightarrow> typeName = envelope_type \<and> field = ''type''"

fun checkSubset :: "string \<Rightarrow> schema_field list \<Rightarrow> schema_field list \<Rightarrow> metering_error + unit" where
  "checkSubset typeName [] current = Inr ()"
| "checkSubset typeName (SchemaField old nested # rest) current =
     (case map_of (by_name current) (Attr_Name old) of
        None \<Rightarrow> Inl (InvalidSchema ''dropped'' (Attr_Name old))
      | Some (SchemaField got got_nested) \<Rightarrow>
          if Attr_Type got \<noteq> Attr_Type old then Inl (InvalidSchema ''type'' (Attr_Name old))
          else if Attr_Values got \<noteq> Attr_Values old then Inl (InvalidSchema ''values'' (Attr_Name old))
          else if Attr_Const got \<noteq> Attr_Const old \<and> \<not> versionDiscriminator typeName (Attr_Name old)
          then Inl (InvalidSchema ''const'' (Attr_Name old))
          else if Attr_Pattern got \<noteq> Attr_Pattern old then Inl (InvalidSchema ''pattern'' (Attr_Name old))
          else if Attr_Format got \<noteq> Attr_Format old then Inl (InvalidSchema ''format'' (Attr_Name old))
          else if Attr_Unit got \<noteq> Attr_Unit old then Inl (InvalidSchema ''unit'' (Attr_Name old))
          else ebind (if nested \<noteq> [] \<or> got_nested \<noteq> []
                      then checkSubset (typeName @ ''.'' @ Attr_Name old) nested got_nested else Inr ()) (\<lambda>_.
               checkSubset typeName rest current))"

definition check_older :: "schema_version \<Rightarrow> unit \<Rightarrow> schema_version \<Rightarrow> metering_error + unit" where
  "check_older current _ older =
     (if Version_Name older = Version_Name current \<or> Version_EffectiveAt older > Version_EffectiveAt current then Inr ()
      else ebind (checkSubset envelope_type (Version_Envelope older) (Version_Envelope current)) (\<lambda>_.
           checkSubset ''HeartbeatData'' (Version_Data older) (Version_Data current)))"

definition checkOlderVersions :: "schema_version list \<Rightarrow> schema_version \<Rightarrow> metering_error + unit" where
  "checkOlderVersions versions current = efold (check_older current) () versions"

definition checkVersionsAddOnly :: "schema_version list \<Rightarrow> metering_error + unit" where
  "checkVersionsAddOnly versions = checkOlderVersions versions (last versions)"

definition checkCurrentPayload :: "schema_version list \<Rightarrow> time \<Rightarrow> metering_error + unit" where
  "checkCurrentPayload versions now =
     (case find (\<lambda>v. Version_CloudEventType v = HeartbeatType) versions of
        None \<Rightarrow> Inl (NoVersionForType HeartbeatType)
      | Some current \<Rightarrow>
          ebind (compareShape currentEnvelope (Version_Envelope current)) (\<lambda>_.
          ebind (payloadShape HeartbeatData_type) (\<lambda>expected.
          ebind (compareShape expected (Version_Data current)) (\<lambda>_.
          if Version_EffectiveAt current > now then Inl (InvalidSchema ''takes effect in the future'' (Version_Name current))
          else Inr ()))))"

section \<open>Loading every version\<close>

definition path_base :: "string \<Rightarrow> string" where
  "path_base path = rev (takeWhile (\<lambda>c. c \<noteq> CHR ''/'') (rev path))"

definition load_one ::
  "schema_version list \<Rightarrow> string \<times> version_file option \<Rightarrow> metering_error + schema_version list" where
  "load_one versions entry =
     (let (path, content) = entry in
      ebind (parseVersion path content) (\<lambda>version.
        if Version_Name version \<in> set (map Version_Name versions) then Inl (InvalidSchema ''reused version'' (Version_Name version))
        else if path_base path \<noteq> Version_Name version @ ''.json'' then Inl (InvalidSchema ''file name'' path)
        else Inr (versions @ [version])))"

definition effective_in_order :: "schema_version list \<Rightarrow> bool" where
  "effective_in_order versions \<longleftrightarrow>
     list_all (\<lambda>(v, w). Version_EffectiveAt w > Version_EffectiveAt v) (adj_pairs versions)"

definition loadVersions :: "(string \<times> version_file option) list \<Rightarrow> time \<Rightarrow> metering_error + schema_version list" where
  "loadVersions files now =
     (if files = [] then Inl (InvalidSchema ''no published versions'' '''')
      else ebind (efold load_one [] (sort_key fst files)) (\<lambda>loaded.
           let versions = sort_key (\<lambda>v. versionNumber (Version_Name v)) loaded
           in if \<not> effective_in_order versions then Inl (InvalidSchema ''not after the previous version'' '''')
              else ebind (checkCurrentPayload versions now) (\<lambda>_.
                   ebind (checkVersionsAddOnly versions) (\<lambda>_. Inr versions))))"

section \<open>Required fields of a record\<close>

datatype json = JNull | JObject "(string \<times> json) list" | JValue string

fun checkRequiredFields :: "schema_field list \<Rightarrow> (string \<times> json) list \<Rightarrow> metering_error + unit" where
  "checkRequiredFields [] values = Inr ()"
| "checkRequiredFields (SchemaField f nested # rest) values =
     ebind (case map_of (rev values) (Attr_Name f) of
              None \<Rightarrow> if Attr_Required f then Inl (MissingRequiredField (Attr_Name f)) else Inr ()
            | Some JNull \<Rightarrow> if Attr_Required f then Inl (MissingRequiredField (Attr_Name f)) else Inr ()
            | Some (JObject members) \<Rightarrow> if nested = [] then Inr () else checkRequiredFields nested members
            | Some (JValue _) \<Rightarrow> if nested = [] then Inr () else Inl (FieldNotAnObject (Attr_Name f)))
       (\<lambda>_. checkRequiredFields rest values)"

definition CheckRequiredPayload :: "schema_version \<Rightarrow> json option \<Rightarrow> metering_error + unit" where
  "CheckRequiredPayload v payload =
     (case payload of
        Some (JObject members) \<Rightarrow> checkRequiredFields (Version_Data v) members
      | Some JNull \<Rightarrow> checkRequiredFields (Version_Data v) []
      | _ \<Rightarrow> Inl (UndecodablePayload (Version_Name v)))"

section \<open>The add-only rule\<close>

lemma by_name_snoc: "by_name (fs @ [f]) = AList.update (field_name f) f (by_name fs)"
  by (simp add: by_name_def)

lemma by_name_mem: "map_of (by_name fs) name = Some f \<Longrightarrow> f \<in> set fs \<and> field_name f = name"
proof (induction fs rule: rev_induct)
  case (snoc g fs)
  then show ?case by (auto simp: by_name_snoc update_conv' split: if_splits)
qed (simp add: by_name_def)

lemma by_name_distinct:
  "distinct (map field_name fs) \<Longrightarrow> f \<in> set fs \<Longrightarrow> map_of (by_name fs) (field_name f) = Some f"
proof (induction fs rule: rev_induct)
  case (snoc g fs)
  then show ?case by (auto simp: by_name_snoc update_conv' image_iff)
qed simp

text \<open>What the add-only check demands of one field of an earlier version.\<close>

definition field_kept :: "string \<Rightarrow> schema_field \<Rightarrow> schema_field \<Rightarrow> bool" where
  "field_kept typeName old got \<longleftrightarrow>
     (let was = field_attrs old; g = field_attrs got in
      Attr_Type g = Attr_Type was \<and> Attr_Values g = Attr_Values was \<and> Attr_Pattern g = Attr_Pattern was \<and>
      Attr_Format g = Attr_Format was \<and> Attr_Unit g = Attr_Unit was \<and>
      (Attr_Const g = Attr_Const was \<or> versionDiscriminator typeName (Attr_Name was)) \<and>
      checkSubset (typeName @ ''.'' @ Attr_Name was) (field_nested old) (field_nested got) = Inr ())"

lemma checkSubset_iff:
  "checkSubset typeName older current = Inr () \<longleftrightarrow>
   (\<forall>old\<in>set older. \<exists>got. map_of (by_name current) (field_name old) = Some got \<and> field_kept typeName old got)"
proof (induction older)
  case (Cons old older)
  obtain a ns where old: "old = SchemaField a ns" by (cases old)
  show ?case
  proof (cases "map_of (by_name current) (Attr_Name a)")
    case (Some got)
    obtain b ms where got: "got = SchemaField b ms" by (cases got)
    have "(if ns \<noteq> [] \<or> ms \<noteq> [] then checkSubset (typeName @ ''.'' @ Attr_Name a) ns ms else Inr ()) =
        checkSubset (typeName @ ''.'' @ Attr_Name a) ns ms" by (cases ns) auto
    then show ?thesis using Some Cons by (auto simp: old got field_kept_def ebind_Inr_iff)
  qed (simp add: old)
qed simp

lemma field_kept_trans:
  "field_kept typeName old got \<Longrightarrow> field_kept typeName got now \<Longrightarrow> field_name got = field_name old \<Longrightarrow>
   field_kept typeName old now"
proof (induction old arbitrary: typeName got now)
  case (SchemaField a ns)
  let ?tn = "typeName @ ''.'' @ Attr_Name a"
  have ab: "checkSubset ?tn ns (field_nested got) = Inr ()" and bc: "checkSubset ?tn (field_nested got) (field_nested now) = Inr ()"
    using SchemaField.prems by (auto simp: field_kept_def Let_def)
  have "checkSubset ?tn ns (field_nested now) = Inr ()"
    unfolding checkSubset_iff
  proof
    fix f assume f: "f \<in> set ns"
    with ab obtain g where g: "map_of (by_name (field_nested got)) (field_name f) = Some g" "field_kept ?tn f g"
      unfolding checkSubset_iff by blast
    note mem = by_name_mem [OF g(1)]
    with bc obtain h where h: "map_of (by_name (field_nested now)) (field_name f) = Some h" "field_kept ?tn g h"
      unfolding checkSubset_iff by metis
    then show "\<exists>h. map_of (by_name (field_nested now)) (field_name f) = Some h \<and> field_kept ?tn f h"
      using SchemaField.IH [OF f g(2) h(2)] mem by blast
  qed
  then show ?case using SchemaField.prems by (auto simp: field_kept_def Let_def)
qed

text \<open>
  Adding fields is the only change between versions, however many there are. If every field of one
  field list survives in a second, and every field of the second in a third, then every field of the first
  survives in the third.
\<close>

lemma checkSubset_transitive:
  assumes "checkSubset typeName a b = Inr ()" "checkSubset typeName b c = Inr ()"
  shows "checkSubset typeName a c = Inr ()"
  unfolding checkSubset_iff
proof
  fix f assume "f \<in> set a"
  with assms(1) obtain g where g: "map_of (by_name b) (field_name f) = Some g" "field_kept typeName f g"
    unfolding checkSubset_iff by blast
  note mem = by_name_mem [OF g(1)]
  with assms(2) obtain h where h: "map_of (by_name c) (field_name f) = Some h" "field_kept typeName g h"
    unfolding checkSubset_iff by metis
  then show "\<exists>h. map_of (by_name c) (field_name f) = Some h \<and> field_kept typeName f h"
    using field_kept_trans [OF g(2) h(2)] mem by blast
qed

section \<open>What loading guarantees\<close>

fun distinct_fields :: "schema_field list \<Rightarrow> bool" where
  "distinct_fields [] = True"
| "distinct_fields (SchemaField a ns # rest) \<longleftrightarrow>
     Attr_Name a \<notin> set (map field_name rest) \<and> distinct_fields ns \<and> distinct_fields rest"

lemma distinct_fields_names: "distinct_fields fs \<Longrightarrow> distinct (map field_name fs)"
  by (induction fs rule: distinct_fields.induct) auto

lemma distinct_fields_nested: "distinct_fields fs \<Longrightarrow> f \<in> set fs \<Longrightarrow> distinct_fields (field_nested f)"
  by (induction fs rule: distinct_fields.induct) auto

lemma parse_fields_distinct:
  "parse_fields seen files = Inr fs \<Longrightarrow> distinct_fields fs \<and> set (map field_name fs) \<inter> set seen = {}"
proof (induction seen files arbitrary: fs rule: parse_fields.induct)
  case (2 seen f nested rest)
  from "2.prems" obtain required field fields where parts: "check_field_file seen f = Inr required"
      "field_of_file f required (nested \<noteq> []) (parse_fields [] nested) = Inr field"
      "parse_fields (File_Name f # seen) rest = Inr fields" "fs = field # fields"
    by (auto simp: ebind_Inr_iff)
  have rest: "distinct_fields fields" "set (map field_name fields) \<inter> set (File_Name f # seen) = {}"
    using "2.IH"(2) [OF parts(3)] by auto
  have new: "File_Name f \<notin> set seen" using parts(1) by (auto simp: check_field_file_def split: if_splits)
  have "distinct_fields ns" if "parse_fields [] nested = Inr ns" for ns using "2.IH"(1) [OF that] by simp
  then have "field_name field = File_Name f \<and> distinct_fields (field_nested field)"
    using parts(2) by (auto simp: field_of_file_def attrs_of_file_def ebind_Inr_iff split: if_splits)
  then show ?case using rest new parts(4) by (cases field) auto
qed simp

lemma parseVersion_distinct:
  "parseVersion path content = Inr v \<Longrightarrow> distinct_fields (Version_Data v)"
  by (auto simp: parseVersion_def ebind_Inr_iff parseFields_def split: option.splits if_splits dest!: parse_fields_distinct)

lemma load_all:
  assumes "efold load_one [] files = Inr versions"
  shows "distinct (map Version_Name versions) \<and> (\<forall>v\<in>set versions. distinct_fields (Version_Data v))"
  using assms
  by (rule efold_invariant)
     (auto simp: load_one_def ebind_Inr_iff split: prod.splits if_splits dest: parseVersion_distinct)

lemma effective_sorted: "effective_in_order vs \<Longrightarrow> sorted_wrt (\<lambda>v w. Version_EffectiveAt v < Version_EffectiveAt w) vs"
proof (induction vs rule: induct_list012)
  case (3 v w vs)
  then have "sorted_wrt (\<lambda>v w. Version_EffectiveAt v < Version_EffectiveAt w) (w # vs)"
    by (simp add: effective_in_order_def)
  moreover have "Version_EffectiveAt v < Version_EffectiveAt w" using "3.prems" by (simp add: effective_in_order_def)
  ultimately show ?case by (auto dest: less_trans)
qed simp_all

lemma loadVersions_parts:
  assumes "loadVersions files now = Inr versions"
  shows "distinct (map Version_Name versions)" "\<forall>v\<in>set versions. distinct_fields (Version_Data v)"
    "sorted_wrt (\<lambda>v w. Version_EffectiveAt v < Version_EffectiveAt w) versions"
    "checkCurrentPayload versions now = Inr ()" "checkVersionsAddOnly versions = Inr ()"
proof -
  from assms obtain loaded where l: "efold load_one [] (sort_key fst files) = Inr loaded"
      "versions = sort_key (\<lambda>v. versionNumber (Version_Name v)) loaded" "effective_in_order versions"
      "checkCurrentPayload versions now = Inr ()" "checkVersionsAddOnly versions = Inr ()"
    by (auto simp: loadVersions_def Let_def ebind_Inr_iff split: if_splits)
  show "distinct (map Version_Name versions)" "\<forall>v\<in>set versions. distinct_fields (Version_Data v)"
    using load_all [OF l(1)] unfolding l(2) by (simp_all add: distinct_map)
qed (use assms in \<open>auto simp: loadVersions_def Let_def ebind_Inr_iff effective_sorted split: if_splits\<close>)

lemma latest_is_last:
  "sorted_wrt (\<lambda>v w. Version_EffectiveAt v < Version_EffectiveAt w) vs \<Longrightarrow> v \<in> set vs \<Longrightarrow>
   Version_EffectiveAt v \<le> Version_EffectiveAt (last vs)"
  by (induction vs) (auto intro: less_imp_le)

text \<open>
  The versions a process runs with. When loading succeeds, version names are distinct and effective
  times increase; the version the code sends is among them and already in effect; and every version that
  took effect by then keeps all its envelope and payload fields in the newest one.
\<close>

lemma loadVersions_sound:
  assumes "loadVersions files now = Inr versions"
  shows "distinct (map Version_Name versions) \<and>
    sorted_wrt (\<lambda>v w. Version_EffectiveAt v < Version_EffectiveAt w) versions \<and>
    (\<exists>v\<in>set versions. Version_CloudEventType v = HeartbeatType \<and> Version_EffectiveAt v \<le> now) \<and>
    (\<forall>v\<in>set versions. Version_Name v = Version_Name (last versions) \<or>
       (checkSubset envelope_type (Version_Envelope v) (Version_Envelope (last versions)) = Inr () \<and>
        checkSubset ''HeartbeatData'' (Version_Data v) (Version_Data (last versions)) = Inr ()))"
proof -
  note parts = loadVersions_parts [OF assms]
  have "\<exists>v\<in>set versions. Version_CloudEventType v = HeartbeatType \<and> Version_EffectiveAt v \<le> now"
    using parts(4) by (auto simp: checkCurrentPayload_def ebind_Inr_iff find_Some_iff not_less split: option.splits if_splits)
  moreover have "Version_EffectiveAt v \<le> Version_EffectiveAt (last versions)" if "v \<in> set versions" for v
    by (rule latest_is_last [OF parts(3) that])
  moreover have "check_older (last versions) () v = Inr ()" if "v \<in> set versions" for v
  proof -
    have "efold (check_older c) () vs = Inr () \<Longrightarrow> v \<in> set vs \<Longrightarrow> check_older c () v = Inr ()" for c vs
      by (induction vs) (auto simp: ebind_Inr_iff)
    then show ?thesis using parts(5) that by (simp add: checkVersionsAddOnly_def checkOlderVersions_def)
  qed
  ultimately show ?thesis using parts(1,3) by (fastforce simp: check_older_def ebind_Inr_iff split: if_splits)
qed

lemma selected_spec:
  assumes "sorted_wrt (\<lambda>v w. Version_EffectiveAt v < Version_EffectiveAt w) vs"
  shows "selected sel vs moment =
    (case filter (\<lambda>v. Version_EffectiveAt v \<le> moment) vs of [] \<Rightarrow> sel | ws \<Rightarrow> Some (last ws))"
  using assms
proof (induction vs arbitrary: sel)
  case (Cons v vs)
  show ?case
  proof (cases "Version_EffectiveAt v > moment")
    case True
    then have "filter (\<lambda>v. Version_EffectiveAt v \<le> moment) vs = []"
      using Cons.prems by (fastforce simp: filter_empty_conv)
    then show ?thesis using True by simp
  next
    case False
    then show ?thesis using Cons by (cases "filter (\<lambda>v. Version_EffectiveAt v \<le> moment) vs") auto
  qed
qed simp

text \<open>
  The version in effect. Among loaded versions the one in effect at a moment is the latest whose
  effective time is not after it, and there is none exactly when every version takes effect later.
\<close>

lemma version_in_effect_is_latest:
  assumes "loadVersions files now = Inr versions" "moment \<noteq> zero_time"
  shows "(case VersionInEffect (Inr versions) moment of
      Inr v \<Rightarrow> v \<in> set versions \<and> Version_EffectiveAt v \<le> moment \<and>
        (\<forall>w\<in>set versions. Version_EffectiveAt w \<le> moment \<longrightarrow> Version_EffectiveAt w \<le> Version_EffectiveAt v)
    | Inl e \<Rightarrow> e = NoVersionInEffect \<and> (\<forall>w\<in>set versions. moment < Version_EffectiveAt w))"
proof -
  note srt = loadVersions_parts(3) [OF assms(1)]
  let ?ws = "filter (\<lambda>v. Version_EffectiveAt v \<le> moment) versions"
  have sel: "selected None versions moment = (case ?ws of [] \<Rightarrow> None | ws \<Rightarrow> Some (last ws))" by (rule selected_spec [OF srt])
  show ?thesis
  proof (cases "?ws = []")
    case True
    then show ?thesis using sel assms(2) by (auto simp: VersionInEffect_def selectVersion_def filter_empty_conv not_le)
  next
    case False
    then have "last ?ws \<in> set ?ws" by (rule last_in_set)
    moreover have "Version_EffectiveAt w \<le> Version_EffectiveAt (last ?ws)" if "w \<in> set ?ws" for w
      by (rule latest_is_last [OF sorted_wrt_filter [OF srt] that])
    moreover have "VersionInEffect (Inr versions) moment = Inr (last ?ws)"
      using sel False assms(2) by (auto simp: VersionInEffect_def selectVersion_def split: list.splits)
    ultimately show ?thesis by simp
  qed
qed

section \<open>Records carry what their version requires\<close>

lemma compare_fields_mem:
  "compare_fields es published = Inr () \<Longrightarrow> map_of published n = Some f \<Longrightarrow>
   \<exists>w\<in>set es. field_name w = n \<and> Attr_Required (field_attrs f) = Attr_Required (field_attrs w) \<and>
     compare_fields (field_nested w) (by_name (field_nested f)) = Inr ()"
proof (induction es arbitrary: published)
  case (Cons e rest)
  obtain want nested where e: "e = SchemaField want nested" by (cases e)
  from Cons.prems(1) obtain got ms where got: "map_of published (Attr_Name want) = Some (SchemaField got ms)"
      "compare_fields rest (AList.delete (Attr_Name want) published) = Inr ()" "Attr_Required got = Attr_Required want"
      "(if nested \<noteq> [] \<or> ms \<noteq> [] then compare_fields nested (by_name ms) else Inr ()) = Inr ()"
    by (auto simp: e ebind_Inr_iff split: option.splits schema_field.splits if_splits)
  show ?case
  proof (cases "n = Attr_Name want")
    case True
    have "compare_fields nested (by_name ms) = Inr ()" using got(4) by (cases "nested = [] \<and> ms = []") (auto simp: by_name_def)
    then show ?thesis using True got Cons.prems(2) by (intro bexI [of _ e]) (auto simp: e)
  next
    case False
    then have "map_of (AList.delete (Attr_Name want) published) n = Some f" using Cons.prems(2) by (simp add: delete_conv')
    from Cons.IH [OF got(2) this] show ?thesis by auto
  qed
qed (simp split: if_splits)

definition carries :: "schema_field \<Rightarrow> ((string \<times> json) list \<Rightarrow> bool) \<Rightarrow> (string \<times> json) list \<Rightarrow> bool" where
  "carries f nested_ok members =
     (case map_of (rev members) (field_name f) of
        None \<Rightarrow> \<not> Attr_Required (field_attrs f)
      | Some JNull \<Rightarrow> \<not> Attr_Required (field_attrs f)
      | Some (JObject inner) \<Rightarrow> field_nested f = [] \<or> nested_ok inner
      | Some (JValue _) \<Rightarrow> field_nested f = [])"

lemma checkRequiredFields_iff:
  "checkRequiredFields fs members = Inr () \<longleftrightarrow>
   (\<forall>f\<in>set fs. carries f (\<lambda>inner. checkRequiredFields (field_nested f) inner = Inr ()) members)"
proof (induction fs)
  case (Cons f fs)
  obtain a ns where f: "f = SchemaField a ns" by (cases f)
  show ?case using Cons
    by (cases "map_of (rev members) (Attr_Name a)")
       (auto simp: f carries_def ebind_Inr_iff split: json.splits)
qed simp

fun conforms :: "schema_field list \<Rightarrow> (string \<times> json) list \<Rightarrow> bool" where
  "conforms [] members = True"
| "conforms (SchemaField a ns # rest) members \<longleftrightarrow>
     carries (SchemaField a ns) (conforms ns) members \<and> conforms rest members"

lemma conforms_iff: "conforms es members \<longleftrightarrow> (\<forall>w\<in>set es. carries w (conforms (field_nested w)) members)"
  by (induction es members rule: conforms.induct) auto

lemma field_present:
  assumes "compare_fields es (by_name fs) = Inr ()" "distinct_fields fs" "conforms es members" "f \<in> set fs"
  shows "carries f (\<lambda>inner. checkRequiredFields (field_nested f) inner = Inr ()) members"
  using assms
proof (induction f arbitrary: es fs members)
  case (SchemaField a ns)
  let ?f = "SchemaField a ns"
  have "map_of (by_name fs) (field_name ?f) = Some ?f"
    by (rule by_name_distinct [OF distinct_fields_names [OF SchemaField.prems(2)] SchemaField.prems(4)])
  from compare_fields_mem [OF SchemaField.prems(1) this] obtain w where w: "w \<in> set es" "field_name w = Attr_Name a"
      "Attr_Required a = Attr_Required (field_attrs w)" "compare_fields (field_nested w) (by_name ns) = Inr ()"
    by auto
  have cw: "carries w (conforms (field_nested w)) members" using SchemaField.prems(3) w(1) by (simp add: conforms_iff)
  have dn: "distinct_fields ns" using distinct_fields_nested [OF SchemaField.prems(2,4)] by simp
  have empty: "ns = []" if "field_nested w = []"
  proof (rule ccontr)
    assume "ns \<noteq> []"
    then obtain g where "g \<in> set ns" by (meson list.set_sel(1))
    then have "map_of (by_name ns) (field_name g) = Some g" by (rule by_name_distinct [OF distinct_fields_names [OF dn]])
    with compare_fields_mem [OF w(4)] that show False by fastforce
  qed
  have "checkRequiredFields ns inner = Inr ()" if "conforms (field_nested w) inner" for inner
    by (rule checkRequiredFields_iff [THEN iffD2], intro ballI SchemaField.IH [OF _ w(4) dn that])
  then show ?case using cw w(2,3) empty by (auto simp: carries_def split: option.splits json.splits)
qed

text \<open>
  The JSON of a payload, as its members: every field of the struct under its tag, the omitted one only
  when it is set. A value that is not an object is given as its text.
\<close>

definition payload_json :: "heartbeat_data \<Rightarrow> json" where
  "payload_json d = JObject
     ([(''tenant_id'', JValue (Data_TenantID d)), (''resource_type'', JValue (Data_ResourceType d)),
       (''resource_id'', JValue (Data_ResourceID d)), (''meter'', JValue (Data_Meter d)),
       (''component'', JValue (Data_Component d)),
       (''billing_dimensions'', JObject (map (\<lambda>(k, v). (k, JValue v)) (Data_BillingDimensions d))),
       (''usage'', JObject
          [(''semantics'', JValue (Usage_Semantics (Data_Usage d))), (''from'', JValue (Usage_From (Data_Usage d))),
           (''to'', JValue (Usage_To (Data_Usage d))), (''quantity'', JValue (Usage_Quantity (Data_Usage d))),
           (''unit'', JValue (Usage_Unit (Data_Usage d))), (''precision'', JValue (Usage_Precision (Data_Usage d)))]),
       (''heartbeat_time'', JValue (Data_HeartbeatTime d)),
       (''last_applied_offset'', JValue (int_text (Data_LastAppliedOffset d))),
       (''rules_revision'', JValue (Data_RulesRevision d))] @
      (case Data_ExternalBillingAccountID d of None \<Rightarrow> [] | Some i \<Rightarrow> [(''external_billing_account_id'', JValue i)]))"

lemma payload_conforms:
  assumes "payloadShape HeartbeatData_type = Inr es"
  shows "conforms es (case payload_json d of JObject members \<Rightarrow> members)"
proof -
  have "es = (case payloadShape HeartbeatData_type of Inr x \<Rightarrow> x)" using assms by simp
  then show ?thesis
    by (simp add: HeartbeatData_type_def Usage_type_def payload_json_def plain_attrs_def carries_def split: option.splits)
qed

text \<open>
  C32: what metering sends, replay accepts. With versions that loaded, the record of any heartbeat the code
  builds carries every field the version it names requires.
\<close>

theorem sent_payload_has_required_fields:
  assumes "loadVersions files now = Inr versions" "VersionForType versions HeartbeatType = Inr v"
  shows "CheckRequiredPayload v (Some (payload_json d)) = Inr ()"
proof -
  note parts = loadVersions_parts [OF assms(1)]
  have v: "find (\<lambda>v. Version_CloudEventType v = HeartbeatType) versions = Some v"
    using assms(2) by (auto simp: VersionForType_def split: option.splits)
  then have mem: "v \<in> set versions" by (auto simp: find_Some_iff)
  from parts(4) v obtain es where es: "payloadShape HeartbeatData_type = Inr es" "compareShape es (Version_Data v) = Inr ()"
    by (auto simp: checkCurrentPayload_def ebind_Inr_iff)
  obtain members where m: "payload_json d = JObject members" by (simp add: payload_json_def)
  have "checkRequiredFields (Version_Data v) members = Inr ()"
  proof (rule checkRequiredFields_iff [THEN iffD2], intro ballI)
    have "conforms es members" using payload_conforms [OF es(1), of d] m by simp
    then show "carries f (\<lambda>inner. checkRequiredFields (field_nested f) inner = Inr ()) members" if "f \<in> set (Version_Data v)" for f
      using field_present [OF es(2) [unfolded compareShape_def]] parts(2) mem that by blast
  qed
  then show ?thesis by (simp add: CheckRequiredPayload_def m)
qed

section \<open>The published version\<close>

text \<open>
  The fields of \<^verbatim>\<open>schema/versions/v1.json\<close>; the prose of a description is left out.
\<close>

definition published_field ::
  "string \<Rightarrow> string \<Rightarrow> bool \<Rightarrow> string \<Rightarrow> string \<Rightarrow> string \<Rightarrow> string \<Rightarrow> string \<Rightarrow> field_file list \<Rightarrow> field_file" where
  "published_field name type required format pattern const unit values nested =
     FieldFile \<lparr>File_Name = name, File_Type = type, File_Required = Some required, File_Format = format,
        File_Pattern = pattern, File_Const = const, File_Unit = unit, File_Description = ''prose'', File_Values = values\<rparr> nested"

definition v1_file :: version_file where
  "v1_file = \<lparr>File_Version = ''v1'', File_EffectiveAt = ''1970-01-01T00:00:00Z'', File_CloudEventType = ''osac.resource.heartbeat.v1'',
    File_Envelope =
     [published_field ''specversion'' ''string'' True '''' '''' ''1.0'' '''' '''' [],
      published_field ''id'' ''string'' True '''' ''^[0-9a-f]{64}$'' '''' '''' '''' [],
      published_field ''type'' ''string'' True '''' '''' ''osac.resource.heartbeat.v1'' '''' '''' [],
      published_field ''source'' ''string'' True '''' '''' ''osac-metering'' '''' '''' [],
      published_field ''datacontenttype'' ''string'' True '''' '''' ''application/json'' '''' '''' [],
      published_field ''time'' ''string'' True ''date-time'' '''' '''' ''UTC, whole seconds'' '''' [],
      published_field ''osacresourceid'' ''string'' True '''' '''' '''' '''' '''' [],
      published_field ''osacresourcetype'' ''string'' True '''' '''' '''' '''' '''' [],
      published_field ''osactenant'' ''string'' True '''' '''' '''' '''' '''' []],
    File_Data =
     [published_field ''tenant_id'' ''string'' True '''' '''' '''' '''' '''' [],
      published_field ''resource_type'' ''string'' True '''' '''' '''' '''' '''' [],
      published_field ''resource_id'' ''string'' True '''' '''' '''' '''' '''' [],
      published_field ''meter'' ''string'' True '''' '''' '''' '''' '''' [],
      published_field ''component'' ''string'' True '''' '''' '''' '''' '''' [],
      published_field ''billing_dimensions'' ''object'' True '''' '''' '''' '''' ''string'' [],
      published_field ''usage'' ''object'' True '''' '''' '''' '''' '''' [published_field ''semantics'' ''string'' True '''' '''' ''interval'' '''' '''' [],
         published_field ''from'' ''string'' True ''date-time'' '''' '''' ''UTC, whole seconds'' '''' [],
         published_field ''to'' ''string'' True ''date-time'' '''' '''' ''UTC, whole seconds'' '''' [],
         published_field ''quantity'' ''string'' True '''' (''^-?[0-9]+'' @ CHR 0x5C # ''.[0-9]{6}$'') '''' (''the meter'' @ CHR 0x27 # ''s unit'') '''' [],
         published_field ''unit'' ''string'' True '''' '''' '''' '''' '''' [],
         published_field ''precision'' ''string'' True '''' '''' ''second'' '''' '''' []],
      published_field ''heartbeat_time'' ''string'' True ''date-time'' '''' '''' ''UTC, whole seconds'' '''' [],
      published_field ''last_applied_offset'' ''integer'' True '''' '''' '''' ''event-log offset'' '''' [],
      published_field ''rules_revision'' ''string'' True '''' '''' '''' '''' '''' [],
      published_field ''external_billing_account_id'' ''string'' False '''' '''' '''' '''' '''' []]\<rparr>"

definition v1_version :: schema_version where
  "v1_version = projr (parseVersion ''versions/v1.json'' (Some v1_file))"

lemma v1_parses: "parseVersion ''versions/v1.json'' (Some v1_file) = Inr v1_version"
proof -
  have "\<not> isl (parseVersion ''versions/v1.json'' (Some v1_file))" by code_simp
  then show ?thesis by (simp add: v1_version_def sum.collapse(2))
qed

lemma v1_loads: "loadVersions [(''versions/v1.json'', Some v1_file)] 62135596800000000000 = Inr [v1_version]"
proof -
  let ?checks = "ebind (checkCurrentPayload [v1_version] 62135596800000000000)
      (\<lambda>_. ebind (checkVersionsAddOnly [v1_version]) (\<lambda>_. Inr [v1_version]))"
  have "path_base ''versions/v1.json'' = Version_Name v1_version @ ''.json''" by code_simp
  then have load: "loadVersions [(''versions/v1.json'', Some v1_file)] 62135596800000000000 = ?checks"
    by (simp add: loadVersions_def load_one_def v1_parses effective_in_order_def Let_def)
  have "\<not> isl ?checks" by code_simp
  then have "?checks = Inr [v1_version]"
    by (cases "checkCurrentPayload [v1_version] 62135596800000000000"; cases "checkVersionsAddOnly [v1_version]") auto
  with load show ?thesis by simp
qed

theorem sent_payload_has_required_fields_witness:
  "CheckRequiredPayload v1_version (Some (payload_json
     \<lparr>Data_TenantID = ''acme'', Data_ResourceType = ''volume'', Data_ResourceID = ''v1'', Data_Meter = ''storage'',
      Data_Component = ''storage'', Data_BillingDimensions = [], Data_Usage = \<lparr>Usage_Semantics = ''interval'',
        Usage_From = ''2026-01-01T00:00:00Z'', Usage_To = ''2026-01-01T00:01:00Z'', Usage_Quantity = ''60.000000'',
        Usage_Unit = ''gib_seconds'', Usage_Precision = ''second''\<rparr>,
      Data_HeartbeatTime = ''2026-01-01T00:01:00Z'', Data_LastAppliedOffset = 7, Data_RulesRevision = ''0001'',
      Data_ExternalBillingAccountID = None\<rparr>)) = Inr ()"
proof -
  have "Version_CloudEventType v1_version = HeartbeatType" by code_simp
  then have "VersionForType [v1_version] HeartbeatType = Inr v1_version" by (simp add: VersionForType_def)
  then show ?thesis by (rule sent_payload_has_required_fields [OF v1_loads])
qed
end
