(* ===== verification/Round.thy ===== *)
theory Round
  imports Catch_Up
begin

text \<open>
  The round of \<^verbatim>\<open>internal/round/round.go\<close>: the clock and fold guards, the ownership walk, the
  choice of the resources to recompute or extend, the comparison of each, and one whole tick. A tick
  begins with catch-up and ends, when nothing fails or waits, with the comparison's transaction. The
  Kafka watermarks, the pod's and the database's clocks are arguments.
\<close>

section \<open>Guards\<close>

definition ClockSkewLimit :: duration where
  "ClockSkewLimit = 5 * 60 * second"

definition clockSkewTooLarge :: "time \<Rightarrow> time \<Rightarrow> bool" where
  "clockSkewTooLarge pod database =
     (let delta = time_sub pod database in delta > ClockSkewLimit \<or> wrap64 (- delta) > ClockSkewLimit)"

definition roundAlreadyRan :: "time \<Rightarrow> time option \<Rightarrow> bool" where
  "roundAlreadyRan roundTime lastRound = (case lastRound of None \<Rightarrow> False | Some t \<Rightarrow> \<not> roundTime > t)"

text \<open>
  \<open>high\<close> is the end of the event topic, \<open>None\<close> when it cannot be read; the result carries the
  tenants' wait targets after the check.
\<close>

definition eventsFolded ::
  "int option \<Rightarrow> string \<Rightarrow> int \<Rightarrow> (string \<rightharpoonup> int) \<Rightarrow> (metering_error + bool) \<times> (string \<rightharpoonup> int)" where
  "eventsFolded high tenant offset targets =
     (case high of
        None \<Rightarrow> (Inl TopicEndUnreadable, targets)
      | Some high \<Rightarrow>
          if high \<le> 0 then (Inr True, targets)
          else (case targets tenant of
                  Some target \<Rightarrow>
                    if high < target
                    then (if offset \<ge> high then (Inr True, targets(tenant := None)) else (Inr False, targets(tenant \<mapsto> high)))
                    else if offset \<ge> target then (Inr True, targets(tenant := None))
                    else (Inr False, targets)
                | None \<Rightarrow>
                    if offset \<ge> high then (Inr True, targets(tenant := None)) else (Inr False, targets(tenant \<mapsto> high))))"

section \<open>Ownership roots\<close>

definition ownerChainLimit :: nat where
  "ownerChainLimit = 8"

fun root_walk ::
  "calculator \<Rightarrow> store \<Rightarrow> string \<Rightarrow> metering_error \<Rightarrow> nat \<Rightarrow> string \<Rightarrow> fact list \<Rightarrow> root option \<Rightarrow> metering_error + root option" where
  "root_walk c s tenant err 0 resourceType facts oroot = Inl err"
| "root_walk c s tenant err (Suc n) resourceType facts oroot =
     (case OwnerOf c resourceType facts of
        None \<Rightarrow> Inr oroot
      | Some (ownerType, ownerID) \<Rightarrow>
          (let ownerFacts = ResourceFacts s tenant ownerType ownerID
           in if ownerFacts = [] then Inr (Some \<lparr>Root_Type = ownerType, Root_ID = ownerID, Root_Facts = []\<rparr>)
              else root_walk c s tenant err n ownerType ownerFacts
                     (Some \<lparr>Root_Type = ownerType, Root_ID = ownerID, Root_Facts = ownerFacts\<rparr>)))"

definition rootOf :: "calculator \<Rightarrow> store \<Rightarrow> string \<Rightarrow> string \<Rightarrow> fact list \<Rightarrow> metering_error + root option" where
  "rootOf c s tenant resourceType facts =
     root_walk c s tenant (OwnerChainExceeded resourceType (if facts = [] then '''' else Fact_ResourceID (hd facts)))
       ownerChainLimit resourceType facts None"

section \<open>The resources of a round\<close>

definition metered :: "resource_ref \<Rightarrow> bool" where
  "metered key \<longleftrightarrow> fst key \<noteq> BillingResourceType"

definition tenantResources :: "store \<Rightarrow> string \<Rightarrow> (string \<Rightarrow> bool) \<Rightarrow> resource_ref list" where
  "tenantResources s tenant types = filter (\<lambda>key. metered key \<and> types (fst key)) (TenantResources s tenant)"

definition add_resource :: "resource_ref \<Rightarrow> resource_ref list \<Rightarrow> resource_ref list \<Rightarrow> resource_ref list" where
  "add_resource entry seen to = (if entry \<in> set seen then to else to @ [entry])"

definition owned_by :: "calculator \<Rightarrow> store \<Rightarrow> string \<Rightarrow> resource_ref \<Rightarrow> resource_ref list" where
  "owned_by c s tenant key =
     (case OwnedFieldOf c (fst key) of
        None \<Rightarrow> []
      | Some field \<Rightarrow> filter metered (ResourcesOwnedBy s tenant field (snd key)))"

lemma owned_by_history: "set (owned_by c s tenant key) \<subseteq> set (TenantResources s tenant)"
  by (auto simp: owned_by_def ResourcesOwnedBy_def TenantResources_def split: option.splits)

text \<open>
  The drag queue. An entry that was seen already is dequeued again when the queue holds it twice, and
  enqueues its owned resources again; the loop still ends, because the entries it adds were not seen.
\<close>

function drag :: "calculator \<Rightarrow> store \<Rightarrow> string \<Rightarrow> resource_ref list \<Rightarrow> resource_ref list \<Rightarrow> resource_ref list" where
  "drag c s tenant [] full = full"
| "drag c s tenant (key # queue) full =
     (let full' = add_resource key full full
      in drag c s tenant (queue @ filter (\<lambda>entry. entry \<notin> set full') (owned_by c s tenant key)) full')"
  by pat_completeness auto
termination
proof (relation "measures [\<lambda>(c, s, tenant, queue, full). card ((set queue \<union> set (TenantResources s tenant)) - set full),
      \<lambda>(c, s, tenant, queue, full). length (filter (\<lambda>e. e \<in> set full) queue)]", goal_cases)
  case (2 c s tenant key queue full full')
  let ?new = "filter (\<lambda>entry. entry \<notin> set full') (owned_by c s tenant key)"
  let ?H = "set (TenantResources s tenant)"
  have sub: "set (queue @ ?new) \<union> ?H \<subseteq> set (key # queue) \<union> ?H" using owned_by_history [of c s tenant key] by auto
  show ?case
  proof (cases "key \<in> set full")
    case True
    then have full': "full' = full" using 2 by (simp add: add_resource_def)
    have "card ((set (queue @ ?new) \<union> ?H) - set full) \<le> card ((set (key # queue) \<union> ?H) - set full)"
      by (rule card_mono) (use sub in auto)
    then show ?thesis using True full' by auto
  next
    case False
    then have full': "full' = full @ [key]" using 2 by (simp add: add_resource_def)
    have "(set (queue @ ?new) \<union> ?H) - set full' \<subset> (set (key # queue) \<union> ?H) - set full" using sub False full' by auto
    then have "card ((set (queue @ ?new) \<union> ?H) - set full') < card ((set (key # queue) \<union> ?H) - set full)"
      by (rule psubset_card_mono [rotated]) auto
    then show ?thesis by simp
  qed
qed simp

definition scanResources ::
  "calculator \<Rightarrow> store \<Rightarrow> string \<Rightarrow> progress \<Rightarrow> time \<Rightarrow> resource_ref list \<times> resource_ref list" where
  "scanResources c s tenant prog roundTime =
     (case LastRoundTime prog of
        None \<Rightarrow> (filter metered (AllTenantResources s tenant), [])
      | Some lastRound \<Rightarrow>
          (let newFacts = filter metered (ResourcesWithNewFacts s tenant (LastRoundEventOffset prog) lastRound);
               affected = map Meter_Resource (concat (map Revision_Meters
                 (filter (\<lambda>r. Revision_EffectiveAt r > lastRound \<and> \<not> Revision_EffectiveAt r > roundTime) (Calc_Revisions c))));
               affectedResources = (if affected = [] then [] else tenantResources s tenant (\<lambda>t. t \<in> set affected));
               full = drag c s tenant (newFacts @ affectedResources) [];
               opened = map (\<lambda>p. (Key_ResourceType (Row_Key p), Key_ResourceID (Row_Key p)))
                 (LedgerPiecesWhere s tenant (\<lambda>p. Row_EndTime p = lastRound));
               tail = foldl (\<lambda>tail entry. add_resource entry (full @ tail) tail) [] opened
           in (full, tail)))"

section \<open>Comparing resources\<close>

definition resourceSnapshot ::
  "calculator \<Rightarrow> string \<Rightarrow> resource_ref \<Rightarrow> store \<Rightarrow> metering_error + fact list \<times> root option \<times> ledger_piece list" where
  "resourceSnapshot c tenant res s =
     (let facts = ResourceFacts s tenant (fst res) (snd res)
      in ebind (rootOf c s tenant (fst res) facts) (\<lambda>oroot.
           Inr (facts, oroot, LedgerPiecesWhere s tenant
             (\<lambda>p. Key_ResourceType (Row_Key p) = fst res \<and> Key_ResourceID (Row_Key p) = snd res))))"

definition recomputeWhole ::
  "calculator \<Rightarrow> (string \<Rightarrow> string) \<Rightarrow> string \<Rightarrow> progress \<Rightarrow> time \<Rightarrow> string \<Rightarrow> resource_ref
     \<Rightarrow> fact list \<times> root option \<times> ledger_piece list \<Rightarrow> store \<Rightarrow> metering_error + store" where
  "recomputeWhole c sha256 tenant prog roundTime billing res snapshot s =
     (let (facts, oroot, rows) = snapshot in
      ebind (Expected c tenant (fst res) (snd res) facts oroot roundTime) (\<lambda>pieces.
        diffAndCommit c sha256 tenant prog roundTime pieces rows True zero_time billing s))"

definition compare_full ::
  "calculator \<Rightarrow> (string \<Rightarrow> string) \<Rightarrow> string \<Rightarrow> progress \<Rightarrow> time \<Rightarrow> string \<Rightarrow> store \<Rightarrow> resource_ref \<Rightarrow> metering_error + store" where
  "compare_full c sha256 tenant prog roundTime billing s res =
     ebind (resourceSnapshot c tenant res s) (\<lambda>snapshot.
       recomputeWhole c sha256 tenant prog roundTime billing res snapshot s)"

definition compare_tail ::
  "calculator \<Rightarrow> (string \<Rightarrow> string) \<Rightarrow> string \<Rightarrow> progress \<Rightarrow> time \<Rightarrow> time \<Rightarrow> string \<Rightarrow> store \<Rightarrow> resource_ref \<Rightarrow> metering_error + store" where
  "compare_tail c sha256 tenant prog lastRound roundTime billing s res =
     ebind (resourceSnapshot c tenant res s) (\<lambda>snapshot.
       let (facts, oroot, rows) = snapshot in
       ebind (Since c tenant (fst res) (snd res) facts oroot lastRound roundTime rows) (\<lambda>pieces.
         if pieces = [] \<or> \<not> openKeysJustified pieces rows lastRound
         then recomputeWhole c sha256 tenant prog roundTime billing res snapshot s
         else diffAndCommit c sha256 tenant prog roundTime pieces rows False lastRound billing s))"

definition compare ::
  "calculator \<Rightarrow> (string \<Rightarrow> string) \<Rightarrow> string \<Rightarrow> progress \<Rightarrow> time \<Rightarrow> string \<Rightarrow> store \<Rightarrow> metering_error + store" where
  "compare c sha256 tenant prog roundTime billing s =
     (let (full, tail) = scanResources c s tenant prog roundTime in
      ebind (efold (compare_full c sha256 tenant prog roundTime billing) s full) (\<lambda>s'.
        case LastRoundTime prog of
          None \<Rightarrow> Inr s'
        | Some lastRound \<Rightarrow> efold (compare_tail c sha256 tenant prog lastRound roundTime billing) s' tail))"

section \<open>One tick\<close>

record round_env =
  Env_Versions :: "schema_version list"
  Env_CatchUpBatch :: nat
  Env_CrashAfterGroups :: nat
  Env_Heartbeats :: heartbeat_topic
  Env_EventsHigh :: "int option"

record round_state =
  Round_Store :: store
  Round_Targets :: "string \<rightharpoonup> int"

text \<open>The comparison's transaction, after catch-up reached the topic's end.\<close>

definition compare_transaction ::
  "calculator \<Rightarrow> (string \<Rightarrow> string) \<Rightarrow> round_env \<Rightarrow> string \<Rightarrow> time \<Rightarrow> round_state \<Rightarrow> (metering_error + unit) \<times> round_state" where
  "compare_transaction c sha256 env tenant roundTime st =
     (let s = Round_Store st in
      case GetProgress s tenant of
        None \<Rightarrow> (Inl (NoProgress tenant), st)
      | Some prog \<Rightarrow>
          if roundAlreadyRan roundTime (LastRoundTime prog) then (Inr (), st)
          else (case eventsFolded (Env_EventsHigh env) tenant (EventOffset prog) (Round_Targets st) of
                  (Inl e, targets) \<Rightarrow> (Inl e, st\<lparr>Round_Targets := targets\<rparr>)
                | (Inr False, targets) \<Rightarrow> (Inr (), st\<lparr>Round_Targets := targets\<rparr>)
                | (Inr True, targets) \<Rightarrow>
                    (let st' = st\<lparr>Round_Targets := targets\<rparr>;
                         billing = (case LatestFactValue s tenant BillingResourceType tenant BillingField of None \<Rightarrow> '''' | Some v \<Rightarrow> v)
                     in case compare c sha256 tenant prog roundTime billing s of
                          Inl e \<Rightarrow> (Inl e, st')
                        | Inr s' \<Rightarrow> (Inr (), st'\<lparr>Round_Store := PruneReplayedHeartbeats tenant
                            (SetLastRound tenant roundTime (EventOffset prog) s')\<rparr>))))"

definition Once ::
  "calculator \<Rightarrow> (string \<Rightarrow> string) \<Rightarrow> round_env \<Rightarrow> string \<Rightarrow> time \<Rightarrow> round_state \<Rightarrow> (metering_error + unit) \<times> round_state" where
  "Once c sha256 env tenant roundTime st =
     (case catchUp (Env_Versions env) (Env_CatchUpBatch env) (Env_CrashAfterGroups env) (Env_Heartbeats env) tenant
             (EnsureProgress tenant (Round_Store st)) of
        (Inl e, s) \<Rightarrow> (Inl e, st\<lparr>Round_Store := s\<rparr>)
      | (Inr False, s) \<Rightarrow> (Inr (), st\<lparr>Round_Store := s\<rparr>)
      | (Inr True, s) \<Rightarrow> compare_transaction c sha256 env tenant roundTime (st\<lparr>Round_Store := s\<rparr>))"

text \<open>One turn of the loop of \<^verbatim>\<open>RunTenant\<close>: the ticker fired; \<open>dbClock\<close> is \<open>None\<close> when it cannot be read.\<close>

definition round_tick ::
  "calculator \<Rightarrow> (string \<Rightarrow> string) \<Rightarrow> round_env \<Rightarrow> string \<Rightarrow> time \<Rightarrow> time option \<Rightarrow> round_state \<Rightarrow> round_state" where
  "round_tick c sha256 env tenant podClock dbClock st =
     (case dbClock of
        None \<Rightarrow> st
      | Some clock \<Rightarrow>
          (let roundTime = truncate_second clock in
           if clockSkewTooLarge podClock roundTime
           then st\<lparr>Round_Store := snd (catchUp (Env_Versions env) (Env_CatchUpBatch env) (Env_CrashAfterGroups env)
                     (Env_Heartbeats env) tenant (Round_Store st))\<rparr>
           else snd (Once c sha256 env tenant roundTime st)))"

end
