(* ===== verification/Catch_Up_Groups.thy ===== *)
theory Catch_Up_Groups
  imports Catch_Up
begin

text \<open>
  The bookkeeping of catch-up: a pass reads whole round groups only, a heartbeat and its copies reach the
  ledger once, repeating a group changes nothing, and catch-up moves the heartbeat offset forward and
  nothing else of the progress.
\<close>

section \<open>Whole groups\<close>

lemma groupStart_le: "groupStart records i \<le> i"
  by (induction i) auto

lemma groupStart_boundary:
  "0 < groupStart records i \<Longrightarrow>
   Caught_RoundTime (records ! (groupStart records i - 1)) \<noteq> Caught_RoundTime (records ! groupStart records i)"
  by (induction i) (auto split: if_splits)

lemma read_records_prefix:
  assumes "read_records versions batch caught rs = Inr out"
  shows "\<exists>hs. out = caught @ hs \<and> list_all2 (\<lambda>r h. decodeHeartbeat versions r = Inr h) (take (length hs) rs) hs \<and> length hs \<le> length rs"
  using assms
proof (induction rs arbitrary: caught)
  case (Cons r rs)
  then obtain h where h: "decodeHeartbeat versions r = Inr h" by (auto simp: ebind_Inr_iff)
  show ?case
  proof (cases "groupBoundReached batch (caught @ [h])")
    case True
    then show ?thesis using Cons.prems h by (intro exI [of _ "[h]"]) simp
  next
    case False
    then have "read_records versions batch (caught @ [h]) rs = Inr out" using Cons.prems h by simp
    from Cons.IH [OF this] obtain hs where "out = (caught @ [h]) @ hs"
        "list_all2 (\<lambda>r h. decodeHeartbeat versions r = Inr h) (take (length hs) rs) hs" "length hs \<le> length rs" by blast
    then show ?thesis using h by (intro exI [of _ "h # hs"]) simp
  qed
qed simp


section \<open>Copies count once\<close>

text \<open>The heartbeats of a group that are applied: not read before, after the last round, not seen before.\<close>

fun fresh :: "int \<Rightarrow> time \<Rightarrow> string set \<Rightarrow> caught_heartbeat list \<Rightarrow> caught_heartbeat list" where
  "fresh offset start known [] = []"
| "fresh offset start known (e # es) =
     (if Caught_Offset e < offset \<or> \<not> Caught_RoundTime e > start \<or> Caught_ID e \<in> known then fresh offset start known es
      else e # fresh offset start (insert (Caught_ID e) known) es)"

definition next_offset :: "int \<Rightarrow> int \<Rightarrow> caught_heartbeat list \<Rightarrow> int" where
  "next_offset offset seen es = foldl (\<lambda>n e. if Caught_Offset e < offset then n else Caught_Offset e + 1) seen es"

lemma apply_entries:
  "efold (apply_entry tenant prog start) (s, known, applied, seen) es =
   (let new = fresh (HeartbeatOffset prog) start known es
    in ebind (efold (\<lambda>s e. applyHeartbeat tenant e s) s new) (\<lambda>s'.
         Inr (s', known \<union> Caught_ID ` set new, applied @ map Caught_ID new, next_offset (HeartbeatOffset prog) seen es)))"
proof (induction es arbitrary: s known applied seen)
  case (Cons e es)
  consider "Caught_Offset e < HeartbeatOffset prog" | "\<not> Caught_Offset e < HeartbeatOffset prog" "\<not> Caught_RoundTime e > start \<or> Caught_ID e \<in> known"
    | "\<not> Caught_Offset e < HeartbeatOffset prog" "Caught_RoundTime e > start" "Caught_ID e \<notin> known" by blast
  then show ?case
  proof cases
    case 3
    show ?thesis
    proof (cases "applyHeartbeat tenant e s")
      case (Inr s')
      then show ?thesis using 3 Cons [of s' "insert (Caught_ID e) known" "applied @ [Caught_ID e]" "Caught_Offset e + 1"]
        by (simp add: apply_entry_def next_offset_def Let_def)
    qed (use 3 in \<open>simp add: apply_entry_def Let_def\<close>)
  qed (use Cons in \<open>auto simp: apply_entry_def next_offset_def Let_def\<close>)
qed (simp add: next_offset_def)

lemma fresh_distinct: "distinct (map Caught_ID (fresh offset start known es)) \<and> Caught_ID ` set (fresh offset start known es) \<inter> known = {}"
proof (induction es arbitrary: known)
  case (Cons e es)
  then show ?case using Cons [of "insert (Caught_ID e) known"] by auto
qed simp

text \<open>
  C19: a heartbeat and its copies reach the ledger once. Applying a group is applying, in order, exactly
  its heartbeats that were not read before, come from a round after the database's last, and whose
  identifier neither the replay memory nor an earlier heartbeat of the group holds; no identifier is applied
  twice, all applied ones join the memory, and the offset moves past the group.
\<close>

theorem group_applies_each_heartbeat_once:
  assumes "GetProgress s tenant = Some prog"
  shows "let start = (case LastRoundTime prog of None \<Rightarrow> zero_time | Some t \<Rightarrow> t);
             new = fresh (HeartbeatOffset prog) start known entries;
             next = next_offset (HeartbeatOffset prog) (HeartbeatOffset prog) entries
         in distinct (map Caught_ID new) \<and> (\<forall>e\<in>set new. Caught_ID e \<notin> known \<and> start < Caught_RoundTime e) \<and>
            applyGroup tenant known entries s =
              ebind (efold (\<lambda>s e. applyHeartbeat tenant e s) s new) (\<lambda>s'.
                Inr (RecordReplayedHeartbeats tenant (map Caught_ID new)
                       (if HeartbeatOffset prog < next then AdvanceHeartbeatOffset tenant next s' else s'),
                     known \<union> Caught_ID ` set new))"
proof -
  define start where "start = (case LastRoundTime prog of None \<Rightarrow> zero_time | Some t \<Rightarrow> t)"
  let ?new = "fresh (HeartbeatOffset prog) start known entries"
  have "start < Caught_RoundTime e" if "e \<in> set ?new" for e
    using that by (induction entries arbitrary: known) (auto split: if_splits)
  moreover have "applyGroup tenant known entries s =
      ebind (efold (\<lambda>s e. applyHeartbeat tenant e s) s ?new) (\<lambda>s'.
        Inr (RecordReplayedHeartbeats tenant (map Caught_ID ?new)
           (if HeartbeatOffset prog < next_offset (HeartbeatOffset prog) (HeartbeatOffset prog) entries
            then AdvanceHeartbeatOffset tenant (next_offset (HeartbeatOffset prog) (HeartbeatOffset prog) entries) s' else s'),
         known \<union> Caught_ID ` set ?new))"
    unfolding applyGroup_def assms option.case start_def [symmetric] Let_def apply_entries
    by (cases "efold (\<lambda>s e. applyHeartbeat tenant e s) s ?new") simp_all
  ultimately show ?thesis
    using fresh_distinct [of "HeartbeatOffset prog" start known entries] unfolding start_def [symmetric] Let_def by blast
qed

section \<open>What a pass may change\<close>

definition moved_on :: "progress \<Rightarrow> progress \<Rightarrow> bool" where
  "moved_on p p' \<longleftrightarrow> HeartbeatOffset p \<le> HeartbeatOffset p' \<and> EventOffset p' = EventOffset p \<and>
     LastRoundTime p' = LastRoundTime p \<and> LastRoundEventOffset p' = LastRoundEventOffset p"

lemma moved_on_refl [simp]: "rel_option moved_on p p"
  by (cases p) (simp_all add: moved_on_def)

lemma moved_on_trans: "rel_option moved_on p q \<Longrightarrow> rel_option moved_on q r \<Longrightarrow> rel_option moved_on p r"
  by (cases p; cases q; cases r) (auto simp: moved_on_def)

definition replayed :: "string \<Rightarrow> store \<Rightarrow> store \<Rightarrow> bool" where
  "replayed tenant s s' \<longleftrightarrow>
     history s' = history s \<and> outbox s' = outbox s \<and> outbox_seq s' = outbox_seq s \<and> rule_revisions s' = rule_revisions s \<and>
     filter (\<lambda>l. Ledger_Tenant l \<noteq> tenant) (ledger s') = filter (\<lambda>l. Ledger_Tenant l \<noteq> tenant) (ledger s) \<and>
     (\<forall>t. t \<noteq> tenant \<longrightarrow> GetProgress s' t = GetProgress s t \<and> ReplayedHeartbeatIDs s' t = ReplayedHeartbeatIDs s t) \<and>
     ReplayedHeartbeatIDs s tenant \<subseteq> ReplayedHeartbeatIDs s' tenant \<and>
     rel_option moved_on (GetProgress s tenant) (GetProgress s' tenant) \<and>
     (tables_ok s \<longrightarrow> tables_ok s')"

lemma replayed_refl [simp]: "replayed tenant s s"
  by (simp add: replayed_def)

lemma replayed_trans: "replayed tenant s s' \<Longrightarrow> replayed tenant s' s'' \<Longrightarrow> replayed tenant s s''"
  unfolding replayed_def by (auto intro: moved_on_trans)

lemma put_other_tenants:
  "Ledger_Tenant r = tenant \<Longrightarrow>
   filter (\<lambda>l. Ledger_Tenant l \<noteq> tenant) (put_ledger r rows) = filter (\<lambda>l. Ledger_Tenant l \<noteq> tenant) rows"
  by (induction rows) (auto simp: put_ledger_def ledger_row_key_def)

lemma fold_put_other_tenants:
  "\<forall>r\<in>set rs. Ledger_Tenant r = tenant \<Longrightarrow>
   filter (\<lambda>l. Ledger_Tenant l \<noteq> tenant) (fold put_ledger rs rows) = filter (\<lambda>l. Ledger_Tenant l \<noteq> tenant) rows"
  by (induction rs arbitrary: rows) (auto simp: put_other_tenants)

lemma SyncLedger_other_tenants:
  "filter (\<lambda>l. Ledger_Tenant l \<noteq> tenant) (ledger (SyncLedger tenant key pieces tailFrom s)) =
   filter (\<lambda>l. Ledger_Tenant l \<noteq> tenant) (ledger s)"
proof -
  have "filter (\<lambda>l. Ledger_Tenant l \<noteq> tenant) (filter P rows) = filter (\<lambda>l. Ledger_Tenant l \<noteq> tenant) rows"
    if "\<And>l. Ledger_Tenant l \<noteq> tenant \<Longrightarrow> P l" for P :: "ledger_row \<Rightarrow> bool" and rows
    using that by (induction rows) auto
  then show ?thesis unfolding SyncLedger_def by (simp add: fold_put_other_tenants)
qed

lemma replayed_SyncLedger: "replayed tenant s (SyncLedger tenant key pieces tailFrom s)"
proof -
  have "GetProgress (SyncLedger tenant key pieces tailFrom s) = GetProgress s"
    "ReplayedHeartbeatIDs (SyncLedger tenant key pieces tailFrom s) = ReplayedHeartbeatIDs s"
    by (simp_all add: fun_eq_iff GetProgress_def ReplayedHeartbeatIDs_def SyncLedger_def)
  then show ?thesis using replayed_refl [of tenant s] SyncLedger_other_tenants [of tenant key pieces tailFrom s]
    by (simp add: replayed_def) (simp add: SyncLedger_def)
qed

lemma replayed_Advance: "replayed tenant s (AdvanceHeartbeatOffset tenant n s)"
proof -
  have "ReplayedHeartbeatIDs (AdvanceHeartbeatOffset tenant n s) = ReplayedHeartbeatIDs s"
    by (simp add: fun_eq_iff ReplayedHeartbeatIDs_def AdvanceHeartbeatOffset_def)
  then show ?thesis
    by (cases "GetProgress s tenant") (simp_all add: replayed_def AdvanceHeartbeatOffset_def GetProgress_update moved_on_def)
qed

lemma replayed_Record: "replayed tenant s (RecordReplayedHeartbeats tenant ids s)"
proof -
  have mem: "x \<in> set (fold (\<lambda>id rows. List.insert (tenant, id) rows) ids rows) \<longleftrightarrow> x \<in> set rows \<or> x \<in> Pair tenant ` set ids" for x rows
    by (induction ids arbitrary: rows) auto
  have "ReplayedHeartbeatIDs (RecordReplayedHeartbeats tenant ids s) t = ReplayedHeartbeatIDs s t \<union> (if t = tenant then set ids else {})" for t
    unfolding ReplayedHeartbeatIDs_def RecordReplayedHeartbeats_def by (auto simp: mem image_iff)
  moreover have "GetProgress (RecordReplayedHeartbeats tenant ids s) = GetProgress s"
    by (simp add: fun_eq_iff GetProgress_def RecordReplayedHeartbeats_def)
  ultimately show ?thesis using replayed_refl [of tenant s] by (simp add: replayed_def) (simp add: RecordReplayedHeartbeats_def)
qed

lemma applyGroup_replayed: "applyGroup tenant known entries s = Inr (s', known') \<Longrightarrow> replayed tenant s s'"
proof -
  assume g: "applyGroup tenant known entries s = Inr (s', known')"
  then obtain prog start s1 known1 applied seen where e:
      "efold (apply_entry tenant prog start) (s, known, [], HeartbeatOffset prog) entries = Inr (s1, known1, applied, seen)"
      "s' = RecordReplayedHeartbeats tenant applied (if seen > HeartbeatOffset prog then AdvanceHeartbeatOffset tenant seen s1 else s1)"
    by (auto simp: applyGroup_def Let_def ebind_Inr_iff split: option.splits)
  have "replayed tenant s (fst (s1, known1, applied, seen))"
    by (rule efold_invariant [OF e(1), where P = "\<lambda>st. replayed tenant s (fst st)"])
       (auto simp: apply_entry_def applyHeartbeat_def Let_def ebind_Inr_iff split: if_splits
             intro: replayed_trans [OF _ replayed_SyncLedger])
  then show "replayed tenant s s'" using e(2) by (auto intro: replayed_trans [OF _ replayed_Record] replayed_trans [OF _ replayed_Advance])
qed

lemma apply_groups_replayed: "replayed tenant s (snd (apply_groups crash tenant known caught first groups s))"
proof (induction crash tenant known caught first groups s rule: apply_groups.induct)
  case (1 crash tenant known caught first groups s)
  show ?case
  proof (cases "first < length caught")
    case True
    let ?g = "take (groupEnd caught first - first) (drop first caught)"
    show ?thesis
    proof (cases "applyGroup tenant known ?g s")
      case (Inr r)
      obtain s' known' where r: "r = (s', known')" by (cases r)
      have "replayed tenant s s'" using applyGroup_replayed Inr r by blast
      then show ?thesis using True Inr 1 unfolding apply_groups.simps [of crash tenant known caught first groups s]
        by (auto simp: r Let_def intro: replayed_trans)
    qed (use True in \<open>simp add: apply_groups.simps [of crash tenant known caught first groups s] Let_def\<close>)
  qed (simp add: apply_groups.simps [of crash tenant known caught first groups s])
qed

lemma catchUp_replayed: "replayed tenant s (snd (catchUp versions batch crashAfterGroups topic tenant s))"
proof (cases "GetProgress s tenant")
  case (Some prog)
  show ?thesis
  proof (cases "readHeartbeats versions batch topic (HeartbeatOffset prog)")
    case (Inr cf)
    obtain caught finished where cf: "cf = (caught, finished)" by (cases cf)
    have "replayed tenant s (snd (apply_groups crashAfterGroups tenant (ReplayedHeartbeatIDs s tenant) caught 0 0 s))"
      by (rule apply_groups_replayed)
    then show ?thesis using Some Inr by (auto simp: catchUp_def cf split: prod.splits sum.splits)
  qed (simp add: catchUp_def Some)
qed (simp add: catchUp_def)

text \<open>
  C20: what catch-up may change. A pass, complete or cut short by an error, changes of the database only
  the tenant's ledger, its heartbeat offset, which never moves back, and its replay memory, which only
  grows. The history, the outbox, the comparison's own position and everything of other tenants stay, and
  the tables keep their keys.
\<close>

theorem catchUp_only_replays:
  "let s' = snd (catchUp versions batch crashAfterGroups topic tenant s) in
   history s' = history s \<and> outbox s' = outbox s \<and> outbox_seq s' = outbox_seq s \<and> rule_revisions s' = rule_revisions s \<and>
   filter (\<lambda>l. Ledger_Tenant l \<noteq> tenant) (ledger s') = filter (\<lambda>l. Ledger_Tenant l \<noteq> tenant) (ledger s) \<and>
   (\<forall>t. t \<noteq> tenant \<longrightarrow> GetProgress s' t = GetProgress s t \<and> ReplayedHeartbeatIDs s' t = ReplayedHeartbeatIDs s t) \<and>
   ReplayedHeartbeatIDs s tenant \<subseteq> ReplayedHeartbeatIDs s' tenant \<and>
   rel_option moved_on (GetProgress s tenant) (GetProgress s' tenant) \<and> (tables_ok s \<longrightarrow> tables_ok s')"
  unfolding Let_def using catchUp_replayed [unfolded replayed_def] by simp

lemma groupEnd_le: "i < length records \<Longrightarrow> groupEnd records i \<le> length records"
proof (induction records i rule: groupEnd.induct)
  case (1 records i)
  show ?case unfolding groupEnd.simps [of records i] using 1 by auto
qed

section \<open>A record and its copy\<close>

theorem group_applies_each_heartbeat_once_witness:
  "let s = EnsureProgress ''acme'' empty_store in
   applyGroup ''acme'' {} [sample_caught, sample_caught] s =
     ebind (efold (\<lambda>s e. applyHeartbeat ''acme'' e s) s [sample_caught]) (\<lambda>s'.
       Inr (RecordReplayedHeartbeats ''acme'' [''h1''] (AdvanceHeartbeatOffset ''acme'' 4 s'), {''h1''}))"
proof -
  have p: "GetProgress (EnsureProgress ''acme'' empty_store) ''acme'' =
      Some \<lparr>EventOffset = 0, HeartbeatOffset = 0, LastRoundTime = None, LastRoundEventOffset = 0\<rparr>" by code_simp
  have n: "next_offset 0 0 [sample_caught, sample_caught] = 4" by code_simp
  have f: "fresh 0 0 {} [sample_caught, sample_caught] = [sample_caught]" by (simp add: sample_caught_def)
  have i: "Caught_ID sample_caught = ''h1''" by (simp add: sample_caught_def)
  show ?thesis using group_applies_each_heartbeat_once [OF p, of "{}" "[sample_caught, sample_caught]"]
    by (simp add: Let_def f n i del: efold.simps fresh.simps)
qed



theorem catchUp_only_replays_witness:
  "let s = EnsureProgress ''acme'' empty_store;
       s' = snd (catchUp [] 500 0 \<lparr>Topic_High = Some 0, Topic_Consume = Delivered [], Topic_Oldest = Some 0\<rparr> ''acme'' s)
   in tables_ok s' \<and> outbox s' = [] \<and> history s' = []"
proof -
  let ?s = "EnsureProgress ''acme'' empty_store"
  have "tables_ok ?s" by (intro tables_ok_operations) (simp add: tables_ok_def empty_store_def)
  moreover have "outbox ?s = []" "history ?s = []" by (simp_all add: EnsureProgress_def empty_store_def)
  ultimately show ?thesis
    using catchUp_only_replays [where tenant = "''acme''" and s = ?s and versions = "[]" and batch = 500 and crashAfterGroups = 0
        and topic = "\<lparr>Topic_High = Some 0, Topic_Consume = Delivered [], Topic_Oldest = Some 0\<rparr>"]
    unfolding Let_def by simp
qed

end
