(* ===== verification/Round_Correctness.thy ===== *)
theory Round_Correctness
  imports Round Catch_Up_Groups
begin

text \<open>
  What a round guarantees: its clock guard, that waiting for the fold ends, which owner gates a resource,
  which resources a round looks at, that a recomputed resource leaves the ledger at its expected usage, and
  what one tick may change.
\<close>

section \<open>Guards\<close>

text \<open>
  The clock guard. A pod's clock is refused exactly when it is more than five minutes away from the
  database's, except that a database clock 292 years or more ahead saturates the difference at the least
  duration, whose negation is itself, and passes.
\<close>

lemma clockSkewTooLarge_iff:
  "clockSkewTooLarge pod database \<longleftrightarrow> ClockSkewLimit < \<bar>pod - database\<bar> \<and> database - pod < 2 ^ 63"
proof -
  consider "database - pod \<ge> 2 ^ 63" | "pod - database \<ge> 2 ^ 63" | "- (2 ^ 63) < pod - database" "pod - database < 2 ^ 63" by linarith
  then show ?thesis
  proof cases
    case 1
    then have "time_sub pod database = - (2 ^ 63)" by (simp add: time_sub_def)
    then show ?thesis using 1 by (simp add: clockSkewTooLarge_def ClockSkewLimit_def wrap64_def)
  next
    case 2
    then have "time_sub pod database = 2 ^ 63 - 1" by (simp add: time_sub_def)
    then show ?thesis using 2 by (simp add: clockSkewTooLarge_def ClockSkewLimit_def)
  next
    case 3
    then have "time_sub pod database = pod - database" "wrap64 (database - pod) = database - pod"
      by (simp_all add: time_sub_def wrap64_id is_int64_def)
    then show ?thesis using 3 by (auto simp: clockSkewTooLarge_def ClockSkewLimit_def)
  qed
qed


text \<open>
  A round never computes from half-folded facts. A check goes ahead only when the fold has reached the
  end of the event topic, or the end captured when the tenant's wait began; other tenants' waits are not
  touched.
\<close>

lemma folded_means_reached:
  assumes "eventsFolded (Some high) tenant offset targets = (Inr True, targets')"
  shows "(high \<le> 0 \<or> high \<le> offset \<or> (\<exists>target. targets tenant = Some target \<and> target \<le> offset)) \<and>
    (0 < high \<longrightarrow> targets' = targets(tenant := None))"
  using assms by (auto simp: eventsFolded_def split: option.splits if_splits)

section \<open>Ownership roots\<close>

inductive climbs ::
  "calculator \<Rightarrow> store \<Rightarrow> string \<Rightarrow> nat \<Rightarrow> string \<times> fact list \<Rightarrow> string \<times> fact list \<Rightarrow> bool"
  for c s tenant where
  stay: "climbs c s tenant 0 p p"
| climb: "\<lbrakk>OwnerOf c resourceType facts = Some (ownerType, ownerID); ResourceFacts s tenant ownerType ownerID \<noteq> [];
     climbs c s tenant n (ownerType, ResourceFacts s tenant ownerType ownerID) q\<rbrakk>
    \<Longrightarrow> climbs c s tenant (Suc n) (resourceType, facts) q"

inductive_cases climbs_zeroE: "climbs c s tenant 0 p q"
inductive_cases climbs_SucE: "climbs c s tenant (Suc n) p q"

definition loaded :: "store \<Rightarrow> string \<Rightarrow> string \<Rightarrow> string \<Rightarrow> root" where
  "loaded s tenant ownerType ownerID =
     \<lparr>Root_Type = ownerType, Root_ID = ownerID, Root_Facts = ResourceFacts s tenant ownerType ownerID\<rparr>"

lemma root_walk_spec:
  "case root_walk c s tenant err n resourceType facts oroot of
     Inl e \<Rightarrow> e = err \<and> (\<exists>q. climbs c s tenant n (resourceType, facts) q)
   | Inr None \<Rightarrow> oroot = None \<and> OwnerOf c resourceType facts = None
   | Inr (Some r) \<Rightarrow>
       (oroot = Some r \<and> OwnerOf c resourceType facts = None) \<or>
       (\<exists>k < n. \<exists>t fs. climbs c s tenant k (resourceType, facts) (t, fs) \<and>
          OwnerOf c t fs = Some (Root_Type r, Root_ID r) \<and> r = loaded s tenant (Root_Type r) (Root_ID r) \<and>
          (Root_Facts r = [] \<or> OwnerOf c (Root_Type r) (Root_Facts r) = None))"
proof (induction n arbitrary: resourceType facts oroot)
  case 0
  then show ?case by (auto intro: climbs.stay)
next
  case (Suc n)
  show ?case
  proof (cases "OwnerOf c resourceType facts")
    case None
    then show ?thesis by (cases oroot) auto
  next
    case (Some o')
    obtain ot oid where ow: "OwnerOf c resourceType facts = Some (ot, oid)" using Some by (cases o') auto
    let ?fs = "ResourceFacts s tenant ot oid"
    show ?thesis
    proof (cases "?fs = []")
      case True
      have "\<exists>k < Suc n. \<exists>t fs. climbs c s tenant k (resourceType, facts) (t, fs) \<and> OwnerOf c t fs = Some (ot, oid)"
        using ow climbs.stay by blast
      then show ?thesis using ow True by (simp add: loaded_def)
    next
      case False
      have up: "climbs c s tenant (Suc k) (resourceType, facts) q" if "climbs c s tenant k (ot, ?fs) q" for k q
        using climbs.climb [OF ow False that] .
      have walk: "root_walk c s tenant err (Suc n) resourceType facts oroot =
          root_walk c s tenant err n ot ?fs (Some (loaded s tenant ot oid))" using ow False by (simp add: loaded_def Let_def)
      show ?thesis
      proof (cases "root_walk c s tenant err n ot ?fs (Some (loaded s tenant ot oid))")
        case (Inl e)
        then show ?thesis using Suc.IH [of ot ?fs "Some (loaded s tenant ot oid)"] up by (auto simp only: walk sum.case)
      next
        case (Inr res)
        then obtain r where r: "res = Some r" using Suc.IH [of ot ?fs "Some (loaded s tenant ot oid)"] by (cases res) auto
        consider "loaded s tenant ot oid = r" "OwnerOf c ot ?fs = None"
          | k t fs where "k < n" "climbs c s tenant k (ot, ?fs) (t, fs)" "OwnerOf c t fs = Some (Root_Type r, Root_ID r)"
            "r = loaded s tenant (Root_Type r) (Root_ID r)" "Root_Facts r = [] \<or> OwnerOf c (Root_Type r) (Root_Facts r) = None"
          using Suc.IH [of ot ?fs "Some (loaded s tenant ot oid)"] by (auto simp: Inr r)
        then have "\<exists>k < Suc n. \<exists>t fs. climbs c s tenant k (resourceType, facts) (t, fs) \<and>
          OwnerOf c t fs = Some (Root_Type r, Root_ID r) \<and> r = loaded s tenant (Root_Type r) (Root_ID r) \<and>
          (Root_Facts r = [] \<or> OwnerOf c (Root_Type r) (Root_Facts r) = None)"
        proof cases
          case 1
          then have "Root_Type r = ot" "Root_ID r = oid" "Root_Facts r = ?fs" by (auto simp: loaded_def)
          then show ?thesis using 1 ow climbs.stay [of c s tenant "(resourceType, facts)"]
            by (intro exI [of _ 0] conjI exI [of _ resourceType] exI [of _ facts]) simp_all
        next
          case 2
          then show ?thesis using up by (intro exI [of _ "Suc k"]) blast
        qed
        then show ?thesis unfolding walk Inr r sum.case option.case by (rule disjI2)
      qed
    qed
  qed
qed



section \<open>The resources of a round\<close>

lemma drag_spec:
  assumes "distinct full" "\<forall>k\<in>set full. set (owned_by c s tenant k) \<subseteq> set full \<union> set queue"
  shows "distinct (drag c s tenant queue full) \<and> set full \<union> set queue \<subseteq> set (drag c s tenant queue full) \<and>
    (\<forall>k\<in>set (drag c s tenant queue full). set (owned_by c s tenant k) \<subseteq> set (drag c s tenant queue full))"
  using assms
proof (induction c s tenant queue full rule: drag.induct)
  case (2 c s tenant key queue full)
  let ?full = "add_resource key full full"
  let ?queue = "queue @ filter (\<lambda>entry. entry \<notin> set ?full) (owned_by c s tenant key)"
  have set: "set ?full = insert key (set full)" by (auto simp: add_resource_def)
  have "distinct ?full" using "2.prems" by (simp add: add_resource_def)
  moreover have "\<forall>k\<in>set ?full. set (owned_by c s tenant k) \<subseteq> set ?full \<union> set ?queue"
    using "2.prems"(2) unfolding set by auto
  ultimately have "distinct (drag c s tenant ?queue ?full) \<and> set ?full \<union> set ?queue \<subseteq> set (drag c s tenant ?queue ?full) \<and>
    (\<forall>k\<in>set (drag c s tenant ?queue ?full). set (owned_by c s tenant k) \<subseteq> set (drag c s tenant ?queue ?full))"
    by (rule "2.IH" [OF refl])
  then show ?case using set by (auto simp: Let_def)
qed simp

lemma tail_spec:
  "distinct full \<Longrightarrow> distinct tail \<Longrightarrow> set full \<inter> set tail = {} \<Longrightarrow>
   let t = foldl (\<lambda>tail entry. add_resource entry (full @ tail) tail) tail es
   in distinct t \<and> set full \<inter> set t = {} \<and> set tail \<union> set es \<subseteq> set full \<union> set t \<and> set tail \<subseteq> set t"
proof (induction es arbitrary: tail)
  case (Cons e es)
  let ?tail = "add_resource e (full @ tail) tail"
  have "distinct ?tail" "set full \<inter> set ?tail = {}" "insert e (set tail) \<subseteq> set full \<union> set ?tail" "set tail \<subseteq> set ?tail"
    using Cons.prems by (auto simp: add_resource_def)
  with Cons.IH [of ?tail] Cons.prems(1) show ?case unfolding Let_def by auto
qed simp

text \<open>
  C14: a round looks at everything that can have changed. After the first round no resource is taken twice;
  recomputed are every billed resource with a fact at or after the last round's offset or time and every one
  of a type whose meters a newly effective revision defines, together with all they own, transitively; and
  every ledger row open at the last round belongs to a resource that is recomputed or extended.
\<close>

theorem scan_misses_nothing:
  assumes "LastRoundTime prog = Some lastRound" "scanResources c s tenant prog roundTime = (full, tail)"
  shows "distinct (full @ tail) \<and>
    (\<forall>h\<in>set (history s). History_Tenant h = tenant \<and> metered (resource_of h) \<and>
       (LastRoundEventOffset prog \<le> History_EventOffset h \<or> lastRound \<le> Fact_Since (History_Fact h) \<or>
        (\<exists>r\<in>set (Calc_Revisions c). lastRound < Revision_EffectiveAt r \<and> Revision_EffectiveAt r \<le> roundTime \<and>
           fst (resource_of h) \<in> Meter_Resource ` set (Revision_Meters r)))
       \<longrightarrow> resource_of h \<in> set full) \<and>
    (\<forall>k\<in>set full. set (owned_by c s tenant k) \<subseteq> set full) \<and>
    (\<forall>p\<in>set (LedgerPiecesWhere s tenant (\<lambda>p. Row_EndTime p = lastRound)).
       (Key_ResourceType (Row_Key p), Key_ResourceID (Row_Key p)) \<in> set full \<union> set tail)"
proof -
  define affected where "affected = map Meter_Resource (concat (map Revision_Meters
      (filter (\<lambda>r. Revision_EffectiveAt r > lastRound \<and> \<not> Revision_EffectiveAt r > roundTime) (Calc_Revisions c))))"
  define queue where "queue = filter metered (ResourcesWithNewFacts s tenant (LastRoundEventOffset prog) lastRound) @
      (if affected = [] then [] else tenantResources s tenant (\<lambda>t. t \<in> set affected))"
  define opened where "opened = map (\<lambda>p. (Key_ResourceType (Row_Key p), Key_ResourceID (Row_Key p)))
      (LedgerPiecesWhere s tenant (\<lambda>p. Row_EndTime p = lastRound))"
  have "scanResources c s tenant prog roundTime = (drag c s tenant queue [],
      foldl (\<lambda>tail entry. add_resource entry (drag c s tenant queue [] @ tail) tail) [] opened)"
    unfolding scanResources_def assms(1) option.case Let_def affected_def queue_def opened_def by (rule refl)
  then have full: "full = drag c s tenant queue []"
    and tail: "tail = foldl (\<lambda>tail entry. add_resource entry (full @ tail) tail) [] opened"
    using assms(2) by auto
  note d = drag_spec [of "[]" c s tenant queue, folded full, simplified]
  note t = tail_spec [of full "[]" opened, folded tail, unfolded Let_def, simplified]
  have new: "resource_of h \<in> set queue"
    if "h \<in> set (history s)" "History_Tenant h = tenant" "metered (resource_of h)"
      "LastRoundEventOffset prog \<le> History_EventOffset h \<or> lastRound \<le> Fact_Since (History_Fact h)" for h
    using that by (auto simp: queue_def ResourcesWithNewFacts_def)
  have aff: "resource_of h \<in> set queue"
    if "h \<in> set (history s)" "History_Tenant h = tenant" "metered (resource_of h)" "r \<in> set (Calc_Revisions c)"
      "lastRound < Revision_EffectiveAt r" "Revision_EffectiveAt r \<le> roundTime"
      "fst (resource_of h) \<in> Meter_Resource ` set (Revision_Meters r)" for h r
  proof -
    have a: "fst (resource_of h) \<in> set affected" using that(4-7) by (force simp: affected_def)
    then have "affected \<noteq> []" by auto
    then show ?thesis using that(1-3) a by (auto simp: queue_def tenantResources_def TenantResources_def)
  qed
  have "distinct (full @ tail)" using d t by auto
  moreover have "resource_of h \<in> set full" if "resource_of h \<in> set queue" for h using that d by blast
  moreover have "set opened \<subseteq> set full \<union> set tail" using d t by blast
  then have "(Key_ResourceType (Row_Key p), Key_ResourceID (Row_Key p)) \<in> set full \<union> set tail"
    if "p \<in> set (LedgerPiecesWhere s tenant (\<lambda>p. Row_EndTime p = lastRound))" for p using that by (auto simp: opened_def)
  moreover have "\<forall>k\<in>set full. set (owned_by c s tenant k) \<subseteq> set full" using d by blast
  ultimately show ?thesis using new aff by meson
qed

section \<open>What a comparison may change\<close>

definition billed :: "string \<Rightarrow> store \<Rightarrow> store \<Rightarrow> bool" where
  "billed tenant s s' \<longleftrightarrow>
     history s' = history s \<and> rule_revisions s' = rule_revisions s \<and> progress_rows s' = progress_rows s \<and>
     replayed_heartbeats s' = replayed_heartbeats s \<and>
     filter (\<lambda>l. Ledger_Tenant l \<noteq> tenant) (ledger s') = filter (\<lambda>l. Ledger_Tenant l \<noteq> tenant) (ledger s) \<and>
     (\<exists>sent. outbox s' = outbox s @ sent \<and> (\<forall>r\<in>set sent. Outbox_Tenant r = tenant)) \<and>
     (tables_ok s \<longrightarrow> tables_ok s')"

lemma billed_refl [simp]: "billed tenant s s"
  by (simp add: billed_def)

lemma billed_trans: "billed tenant s s' \<Longrightarrow> billed tenant s' s'' \<Longrightarrow> billed tenant s s''"
  unfolding billed_def by auto

lemma billed_SyncLedger: "billed tenant s (SyncLedger tenant key pieces tailFrom s)"
  using SyncLedger_other_tenants [of tenant key pieces tailFrom s] tables_ok_operations(6) [of s]
  by (simp add: billed_def) (simp add: SyncLedger_def)

lemma billed_Enqueue: "billed tenant s (EnqueueHeartbeats tenant rows s)"
  unfolding EnqueueHeartbeats_def
proof (induction rows arbitrary: s)
  case (Cons row rows)
  have "billed tenant s (enqueue_one tenant row s)"
    using tables_ok_enqueue_one [of s tenant row] by (auto simp: billed_def enqueue_one_def Let_def split: prod.splits)
  then show ?case using Cons.IH billed_trans by auto
qed simp

lemma billed_commit_key:
  "commit_key c sha256 tenant prog roundTime expected rows tailFrom billing s key = Inr s' \<Longrightarrow> billed tenant s s'"
  by (auto simp: commit_key_def ebind_Inr_iff intro: billed_trans [OF billed_Enqueue billed_SyncLedger])

lemma billed_efold:
  assumes "efold f s xs = Inr s'" "\<And>s x s'. f s x = Inr s' \<Longrightarrow> billed tenant s s'"
  shows "billed tenant s s'"
  by (rule efold_invariant [OF assms(1), where P = "billed tenant s"]) (auto intro: billed_trans dest: assms(2))

lemma billed_diffAndCommit:
  "diffAndCommit c sha256 tenant prog roundTime expected rows include tailFrom billing s = Inr s' \<Longrightarrow> billed tenant s s'"
  unfolding diffAndCommit_def by (rule billed_efold) (auto dest: billed_commit_key)

lemma billed_recomputeWhole:
  "recomputeWhole c sha256 tenant prog roundTime billing res snapshot s = Inr s' \<Longrightarrow> billed tenant s s'"
  by (auto simp: recomputeWhole_def ebind_Inr_iff split: prod.splits dest: billed_diffAndCommit)

lemma billed_compare:
  assumes "compare c sha256 tenant prog roundTime billing s = Inr s'"
  shows "billed tenant s s'"
proof -
  have full: "billed tenant s s'" if "compare_full c sha256 tenant prog roundTime billing s res = Inr s'" for s s' res
    using that by (auto simp: compare_full_def ebind_Inr_iff dest: billed_recomputeWhole)
  have tail: "billed tenant s s'" if "compare_tail c sha256 tenant prog lastRound roundTime billing s res = Inr s'" for s s' res lastRound
    using that by (auto simp: compare_tail_def ebind_Inr_iff split: prod.splits if_splits dest: billed_recomputeWhole billed_diffAndCommit)
  obtain fs ts s1 where s1: "efold (compare_full c sha256 tenant prog roundTime billing) s fs = Inr s1"
    and s2: "case LastRoundTime prog of None \<Rightarrow> s' = s1
      | Some lastRound \<Rightarrow> efold (compare_tail c sha256 tenant prog lastRound roundTime billing) s1 ts = Inr s'"
    using assms by (auto simp: compare_def ebind_Inr_iff split: prod.splits option.splits)
  have "billed tenant s s1" using s1 full by (rule billed_efold)
  moreover have "billed tenant s1 s'"
  proof (cases "LastRoundTime prog")
    case (Some lastRound)
    then show ?thesis using s2 tail by (auto intro: billed_efold)
  qed (use s2 in simp)
  ultimately show ?thesis by (rule billed_trans)
qed

section \<open>What a tick may change\<close>

definition round_moved :: "progress \<Rightarrow> progress \<Rightarrow> bool" where
  "round_moved p p' \<longleftrightarrow> EventOffset p' = EventOffset p \<and> HeartbeatOffset p \<le> HeartbeatOffset p' \<and>
     LastRoundEventOffset p \<le> LastRoundEventOffset p' \<and>
     (LastRoundTime p' = LastRoundTime p \<or> (\<exists>t. LastRoundTime p' = Some t \<and> (\<forall>t0. LastRoundTime p = Some t0 \<longrightarrow> t0 < t)))"

definition ticked :: "string \<Rightarrow> time \<Rightarrow> store \<Rightarrow> store \<Rightarrow> bool" where
  "ticked tenant roundTime s s' \<longleftrightarrow>
     history s' = history s \<and> rule_revisions s' = rule_revisions s \<and>
     filter (\<lambda>l. Ledger_Tenant l \<noteq> tenant) (ledger s') = filter (\<lambda>l. Ledger_Tenant l \<noteq> tenant) (ledger s) \<and>
     (\<forall>t. t \<noteq> tenant \<longrightarrow> GetProgress s' t = GetProgress s t \<and> ReplayedHeartbeatIDs s' t = ReplayedHeartbeatIDs s t) \<and>
     (\<exists>sent. outbox s' = outbox s @ sent \<and> (\<forall>r\<in>set sent. Outbox_Tenant r = tenant) \<and>
        (sent \<noteq> [] \<longrightarrow> map_option LastRoundTime (GetProgress s' tenant) = Some (Some roundTime))) \<and>
     (\<forall>p. GetProgress s tenant = Some p \<longrightarrow> (\<exists>p'. GetProgress s' tenant = Some p' \<and> round_moved p p')) \<and>
     (tables_ok s \<longrightarrow> tables_ok s')"

lemma round_moved_refl [simp]: "round_moved p p"
  by (simp add: round_moved_def)

lemma ticked_refl [simp]: "ticked tenant roundTime s s"
  by (simp add: ticked_def)

lemma replayed_ticked: "replayed tenant s s' \<Longrightarrow> ticked tenant roundTime s s'"
  unfolding replayed_def ticked_def round_moved_def
  by (cases "GetProgress s tenant"; cases "GetProgress s' tenant") (auto simp: moved_on_def)

lemma EnsureProgress_GetProgress:
  "GetProgress (EnsureProgress tenant s) t = (if t = tenant \<and> GetProgress s t = None then Some new_progress else GetProgress s t)"
  by (auto simp: EnsureProgress_def GetProgress_def map_add_def split: option.splits)

lemma ticked_Ensure: "ticked tenant roundTime (EnsureProgress tenant s) s' \<Longrightarrow> ticked tenant roundTime s s'"
  unfolding ticked_def EnsureProgress_GetProgress using tables_ok_operations(1) [of s tenant]
  by (auto simp: ReplayedHeartbeatIDs_def EnsureProgress_def split: if_splits)

lemma replayed_then_ticked: "replayed tenant s s' \<Longrightarrow> ticked tenant roundTime s' s'' \<Longrightarrow> ticked tenant roundTime s s''"
proof -
  assume r: "replayed tenant s s'" and t: "ticked tenant roundTime s' s''"
  have "\<exists>p''. GetProgress s'' tenant = Some p'' \<and> round_moved p p''" if p: "GetProgress s tenant = Some p" for p
  proof -
    obtain p' where p': "GetProgress s' tenant = Some p'" "moved_on p p'"
      using r p by (cases "GetProgress s' tenant") (auto simp: replayed_def)
    then obtain p'' where "GetProgress s'' tenant = Some p''" "round_moved p' p''" using t by (auto simp: ticked_def)
    then show ?thesis using p'(2) by (auto simp: round_moved_def moved_on_def)
  qed
  then show ?thesis using r t unfolding replayed_def ticked_def by auto
qed

lemma compare_transaction_cases:
  fixes st :: round_state
  obtains (same) "Round_Store (snd (compare_transaction c sha256 env tenant roundTime st)) = Round_Store st"
  | (ran) prog billing s' where "GetProgress (Round_Store st) tenant = Some prog"
      "\<not> roundAlreadyRan roundTime (LastRoundTime prog)"
      "compare c sha256 tenant prog roundTime billing (Round_Store st) = Inr s'"
      "Round_Store (snd (compare_transaction c sha256 env tenant roundTime st)) =
         PruneReplayedHeartbeats tenant (SetLastRound tenant roundTime (EventOffset prog) s')"
proof (cases "GetProgress (Round_Store st) tenant")
  case (Some prog)
  let ?billing = "case LatestFactValue (Round_Store st) tenant BillingResourceType tenant BillingField of None \<Rightarrow> '''' | Some v \<Rightarrow> v"
  obtain r targets where folded: "eventsFolded (Env_EventsHigh env) tenant (EventOffset prog) (Round_Targets st) = (r, targets)" by fastforce
  show ?thesis
  proof (cases "\<not> roundAlreadyRan roundTime (LastRoundTime prog) \<and> r = Inr True")
    case True
    then show ?thesis
    proof (cases "compare c sha256 tenant prog roundTime ?billing (Round_Store st)")
      case (Inl e)
      then show ?thesis using True by (intro same) (simp add: compare_transaction_def Some folded Let_def)
    next
      case (Inr s')
      then show ?thesis using True by (intro ran [OF Some _ Inr]) (simp_all add: compare_transaction_def Some folded Let_def)
    qed
  next
    case False
    show ?thesis
    proof (rule same)
      show "Round_Store (snd (compare_transaction c sha256 env tenant roundTime st)) = Round_Store st"
        using False by (cases r) (auto simp: compare_transaction_def Some folded Let_def split: bool.splits)
    qed
  qed
qed (rule same, simp add: compare_transaction_def)

lemma compare_transaction_ticked:
  "ticked tenant roundTime (Round_Store st) (Round_Store (snd (compare_transaction c sha256 env tenant roundTime st)))"
proof (cases rule: compare_transaction_cases [where c = c and ?sha256.0 = sha256 and env = env and tenant = tenant and roundTime = roundTime and st = st])
  case (ran prog billing s')
  let ?s = "Round_Store st"
  let ?s2 = "PruneReplayedHeartbeats tenant (SetLastRound tenant roundTime (EventOffset prog) s')"
  note prog = ran(1,2) and out = ran(4)
  have b: "billed tenant ?s s'" using ran(3) by (rule billed_compare)
  have get: "GetProgress s' = GetProgress ?s" "ReplayedHeartbeatIDs s' = ReplayedHeartbeatIDs ?s"
    using b by (simp_all add: billed_def fun_eq_iff GetProgress_def ReplayedHeartbeatIDs_def)
  have prune: "GetProgress (PruneReplayedHeartbeats tenant x) = GetProgress x" for x
    by (simp add: fun_eq_iff GetProgress_def PruneReplayedHeartbeats_def)
  have p2: "GetProgress ?s2 t = (if t = tenant then Some (prog\<lparr>LastRoundTime := Some roundTime,
      LastRoundEventOffset := max (LastRoundEventOffset prog) (EventOffset prog)\<rparr>) else GetProgress ?s t)" for t
    using prog(1) by (simp add: prune SetLastRound_def GetProgress_update get)
  have i2: "ReplayedHeartbeatIDs ?s2 t = ReplayedHeartbeatIDs ?s t" if "t \<noteq> tenant" for t
  proof -
    have "filter (\<lambda>(t', _). t' = t) (filter (\<lambda>(t', _). t' \<noteq> tenant) rows) = filter (\<lambda>(t', _). t' = t) rows"
      for rows :: "(string \<times> string) list" using that by (induction rows) auto
    then show ?thesis using b by (simp add: billed_def ReplayedHeartbeatIDs_def PruneReplayedHeartbeats_def SetLastRound_def)
  qed
  have same: "history ?s2 = history s'" "rule_revisions ?s2 = rule_revisions s'" "ledger ?s2 = ledger s'" "outbox ?s2 = outbox s'"
    by (simp_all add: PruneReplayedHeartbeats_def SetLastRound_def)
  have "round_moved prog (prog\<lparr>LastRoundTime := Some roundTime,
      LastRoundEventOffset := max (LastRoundEventOffset prog) (EventOffset prog)\<rparr>)"
    using prog(2) by (auto simp: round_moved_def roundAlreadyRan_def)
  moreover have "tables_ok ?s2" if "tables_ok ?s" using that b by (simp add: billed_def)
  ultimately show ?thesis unfolding out using b prog(1) i2 unfolding ticked_def same p2 billed_def by auto
qed simp

text \<open>
  C4: one tick. Whatever the clocks, the topics and the calculator answer, a tick leaves the history, the rule
  revisions and everything of other tenants as they are. It only appends to the outbox, rows of its own tenant,
  and only together with recording its round time; the tenant's event offset stays, its heartbeat offset and
  last round never move back, and the tables keep their keys.
\<close>

theorem tick_changes_its_tenant_only:
  assumes "s = Round_Store st" "s' = Round_Store (round_tick c sha256 env tenant podClock dbClock st)"
  shows "history s' = history s \<and> rule_revisions s' = rule_revisions s \<and>
    filter (\<lambda>l. Ledger_Tenant l \<noteq> tenant) (ledger s') = filter (\<lambda>l. Ledger_Tenant l \<noteq> tenant) (ledger s) \<and>
    (\<forall>t. t \<noteq> tenant \<longrightarrow> GetProgress s' t = GetProgress s t \<and> ReplayedHeartbeatIDs s' t = ReplayedHeartbeatIDs s t) \<and>
    (\<exists>sent. outbox s' = outbox s @ sent \<and> (\<forall>r\<in>set sent. Outbox_Tenant r = tenant) \<and>
       (sent \<noteq> [] \<longrightarrow> (\<exists>clock p. dbClock = Some clock \<and> GetProgress s' tenant = Some p \<and>
          LastRoundTime p = Some (truncate_second clock)))) \<and>
    (\<forall>p. GetProgress s tenant = Some p \<longrightarrow> (\<exists>p'. GetProgress s' tenant = Some p' \<and> round_moved p p')) \<and>
    (tables_ok s \<longrightarrow> tables_ok s')"
proof (cases dbClock)
  case (Some clock)
  let ?t = "truncate_second clock"
  have once: "ticked tenant ?t (Round_Store st) (Round_Store (snd (Once c sha256 env tenant ?t st)))"
  proof (rule ticked_Ensure)
    let ?e = "EnsureProgress tenant (Round_Store st)"
    let ?up = "catchUp (Env_Versions env) (Env_CatchUpBatch env) (Env_CrashAfterGroups env) (Env_Heartbeats env) tenant ?e"
    have r: "replayed tenant ?e (snd ?up)" by (rule catchUp_replayed)
    have "ticked tenant ?t (snd ?up) (Round_Store (snd (compare_transaction c sha256 env tenant ?t (st\<lparr>Round_Store := snd ?up\<rparr>))))"
      using compare_transaction_ticked [of tenant ?t "st\<lparr>Round_Store := snd ?up\<rparr>" c sha256 env] by simp
    then show "ticked tenant ?t ?e (Round_Store (snd (Once c sha256 env tenant ?t st)))"
      using r replayed_ticked [OF r, of ?t] replayed_then_ticked [OF r]
      by (auto simp: Once_def split: prod.splits sum.splits bool.splits)
  qed
  have "ticked tenant ?t s s'"
    using once replayed_ticked [OF catchUp_replayed] by (simp add: assms round_tick_def Some Let_def)
  then show ?thesis unfolding ticked_def using Some by (auto simp: map_option_case split: option.splits)
qed (simp add: assms round_tick_def)

section \<open>A recomputed resource is settled\<close>

abbreviation rows_of :: "store \<Rightarrow> string \<Rightarrow> ledger_key \<Rightarrow> ledger_piece set" where
  "rows_of s tenant key \<equiv> set (LedgerPiecesWhere s tenant (\<lambda>p. Row_Key p = key))"

lemma Enqueue_ledger [simp]: "ledger (EnqueueHeartbeats tenant rows s) = ledger s"
  unfolding EnqueueHeartbeats_def by (induction rows arbitrary: s) (auto simp: enqueue_one_def Let_def split: prod.splits)

lemma commit_key_rows:
  assumes "commit_key c sha256 tenant prog roundTime expected rows tailFrom billing s key = Inr s'" "tables_ok s"
    and "distinct (map Piece_StartTime (expectedPiecesOf expected key))"
  shows "tables_ok s' \<and> rows_of s' tenant key' =
    (if key' = key then row_for ` set (expectedPiecesOf expected key) \<union> {p \<in> rows_of s tenant key. Row_EndTime p \<le> tailFrom \<and>
        Row_StartTime p \<notin> Piece_StartTime ` set (expectedPiecesOf expected key)}
     else rows_of s tenant key')"
proof -
  obtain out new where s': "s' = SyncLedger tenant key new tailFrom (EnqueueHeartbeats tenant out s)" and new: "expectedRows expected key = Inr new"
    using assms(1) by (auto simp: commit_key_def ebind_Inr_iff)
  have new_eq: "new = map row_for (expectedPiecesOf expected key)" using new by (rule expectedRows_map)
  have starts: "map Row_StartTime new = map Piece_StartTime (expectedPiecesOf expected key)" by (simp add: new_eq row_for_def)
  have "\<forall>p\<in>set new. Row_Key p = key" by (auto simp: new_eq row_for_def expectedPiecesOf_def)
  moreover have "distinct (map Row_StartTime new)" using assms(3) starts by simp
  moreover have "tables_ok (EnqueueHeartbeats tenant out s)" using assms(2) by simp
  moreover have "LedgerPiecesWhere (EnqueueHeartbeats tenant out s) = LedgerPiecesWhere s" by (simp add: fun_eq_iff LedgerPiecesWhere_def)
  ultimately show ?thesis
    using SyncLedger_replaces [of "EnqueueHeartbeats tenant out s" new key tenant tailFrom tenant key'] starts
    by (simp add: s') (simp add: new_eq)
qed

lemma commit_keys_rows:
  assumes "efold (commit_key c sha256 tenant prog roundTime expected rows tailFrom billing) s keys = Inr s'" "tables_ok s" "distinct keys"
    and "\<And>key. distinct (map Piece_StartTime (expectedPiecesOf expected key))"
  shows "rows_of s' tenant key =
    (if key \<in> set keys then row_for ` set (expectedPiecesOf expected key) \<union> {p \<in> rows_of s tenant key. Row_EndTime p \<le> tailFrom \<and>
        Row_StartTime p \<notin> Piece_StartTime ` set (expectedPiecesOf expected key)}
     else rows_of s tenant key)"
  using assms(1-3)
proof (induction keys arbitrary: s)
  case (Cons k keys)
  obtain s1 where s1: "commit_key c sha256 tenant prog roundTime expected rows tailFrom billing s k = Inr s1"
      "efold (commit_key c sha256 tenant prog roundTime expected rows tailFrom billing) s1 keys = Inr s'"
    using Cons.prems(1) by (auto simp: ebind_Inr_iff)
  note one = commit_key_rows [OF s1(1) Cons.prems(2) assms(4)]
  have "tables_ok s1" using one by blast
  then have rest: "rows_of s' tenant key = (if key \<in> set keys then row_for ` set (expectedPiecesOf expected key) \<union>
      {p \<in> rows_of s1 tenant key. Row_EndTime p \<le> tailFrom \<and> Row_StartTime p \<notin> Piece_StartTime ` set (expectedPiecesOf expected key)}
      else rows_of s1 tenant key)" using Cons.IH [OF s1(2)] Cons.prems(3) by simp
  show ?case
  proof (cases "key = k")
    case True
    then show ?thesis using rest one [of key] Cons.prems(3) by simp
  next
    case False
    then show ?thesis using rest one [of key] by simp
  qed
qed simp

lemma chained_distinct_starts: "chained ps \<Longrightarrow> distinct (map Piece_StartTime ps)"
  by (induction ps) (auto simp: chained_def)

lemma set_ordered_keys: "set (ordered_keys keys) = set keys" "distinct (ordered_keys keys)"
  by (simp_all add: ordered_keys_def)

text \<open>
  C3: a recomputed resource is settled. When the full comparison of a resource commits, the ledger holds, for
  every key of the resource, exactly the rows of the pieces that history and rules justify up to the round's
  time, pending ones with quantity zero, and nothing else; rows of other resources are as they were.
\<close>

theorem recomputed_resource_is_settled:
  assumes ok: "tables_ok s" "\<forall>p\<in>set (LedgerPiecesWhere s tenant (\<lambda>_. True)). zero_time < Row_EndTime p"
    and c: "c = NewCalculator revs dep owners" "\<forall>r\<in>set revs. names_meters_once r"
    and run: "compare_full c sha256 tenant prog roundTime billing s res = Inr s'"
  shows "\<exists>oroot pieces. rootOf c s tenant (fst res) (ResourceFacts s tenant (fst res) (snd res)) = Inr oroot \<and>
    Expected c tenant (fst res) (snd res) (ResourceFacts s tenant (fst res) (snd res)) oroot roundTime = Inr pieces \<and>
    (\<forall>key. rows_of s' tenant key = (if (Key_ResourceType key, Key_ResourceID key) = res
       then row_for ` {p \<in> set pieces. Piece_Key p = key} else rows_of s tenant key))"
proof -
  let ?facts = "ResourceFacts s tenant (fst res) (snd res)"
  let ?rows = "LedgerPiecesWhere s tenant (\<lambda>p. Key_ResourceType (Row_Key p) = fst res \<and> Key_ResourceID (Row_Key p) = snd res)"
  obtain oroot pieces where root: "rootOf c s tenant (fst res) ?facts = Inr oroot"
    and ex: "Expected c tenant (fst res) (snd res) ?facts oroot roundTime = Inr pieces"
    and com: "diffAndCommit c sha256 tenant prog roundTime pieces ?rows True zero_time billing s = Inr s'"
    using run by (auto simp: compare_full_def resourceSnapshot_def recomputeWhole_def ebind_Inr_iff Let_def)
  have starts: "distinct (map Piece_StartTime (expectedPiecesOf pieces key))" for key
  proof -
    have "expectedPiecesOf pieces key = filter (\<lambda>p. Piece_Key p = key) (filter (of_meter (Key_Meter key)) pieces)"
      by (auto simp: expectedPiecesOf_def intro: filter_cong)
    then show ?thesis
      using distinct_map_filter [OF chained_distinct_starts [OF Expected_chained [OF ex [unfolded c(1)] c(2)]], where P = "\<lambda>p. Piece_Key p = key"]
      by (simp only:)
  qed
  have keys: "key \<in> set (ordered_keys (map Piece_Key pieces @ map Row_Key ?rows)) \<longleftrightarrow>
      key \<in> Piece_Key ` set pieces \<or> ((Key_ResourceType key, Key_ResourceID key) = res \<and> rows_of s tenant key \<noteq> {})" for key
    by (cases res) (auto simp: set_ordered_keys LedgerPiecesWhere_def image_iff)
  have mine: "(Key_ResourceType key, Key_ResourceID key) = res" if "key \<in> Piece_Key ` set pieces" for key
    using that Expected_resource [OF ex] by auto
  have none: "{p \<in> rows_of s tenant key. Row_EndTime p \<le> zero_time \<and> P p} = {}" for key P
    using ok(2) by (fastforce simp: LedgerPiecesWhere_def)
  have "rows_of s' tenant key = (if (Key_ResourceType key, Key_ResourceID key) = res
       then row_for ` {p \<in> set pieces. Piece_Key p = key} else rows_of s tenant key)" for key
    using commit_keys_rows [OF com [unfolded diffAndCommit_def if_True] ok(1) set_ordered_keys(2) starts, of key] mine [of key]
    unfolding keys none by (auto simp: expectedPiecesOf_def)
  then show ?thesis using root ex by blast
qed


section \<open>The sample volume in a round\<close>


definition volume_store :: store where
  "volume_store = InsertFacts ''acme'' volume_facts 1 (EnsureProgress ''acme'' empty_store)"

definition volume_calculator :: calculator where
  "volume_calculator = NewCalculator [volume_revision] ''lab'' []"

definition volume_progress :: progress where
  "volume_progress = \<lparr>EventOffset = 1, HeartbeatOffset = 0, LastRoundTime = Some 86400000000000, LastRoundEventOffset = 0\<rparr>"

theorem scan_misses_nothing_witness:
  "scanResources volume_calculator volume_store ''acme'' volume_progress 86500000000000 = ([(''Volume'', ''v1'')], []) \<and>
   distinct ([(''Volume'', ''v1'')] @ [])"
proof -
  have l: "LastRoundTime volume_progress = Some 86400000000000" by (simp add: volume_progress_def)
  have s: "scanResources volume_calculator volume_store ''acme'' volume_progress 86500000000000 = ([(''Volume'', ''v1'')], [])"
    by code_simp
  show ?thesis using s scan_misses_nothing [OF l s] by simp
qed

theorem tick_changes_its_tenant_only_witness:
  "tables_ok (Round_Store (round_tick volume_calculator (\<lambda>s. s)
     \<lparr>Env_Versions = [], Env_CatchUpBatch = 500, Env_CrashAfterGroups = 0,
      Env_Heartbeats = \<lparr>Topic_High = Some 0, Topic_Consume = Delivered [], Topic_Oldest = Some 0\<rparr>, Env_EventsHigh = Some 1\<rparr>
     ''acme'' 86500000000000 (Some 86500000000000) \<lparr>Round_Store = volume_store, Round_Targets = Map.empty\<rparr>))"
proof -
  have "tables_ok volume_store" unfolding volume_store_def
    by (intro tables_ok_operations) (simp add: tables_ok_def empty_store_def)
  then show ?thesis using tick_changes_its_tenant_only [OF refl refl,
      where st = "\<lparr>Round_Store = volume_store, Round_Targets = Map.empty\<rparr>" and c = volume_calculator and ?sha256.0 = "\<lambda>s. s"]
    by simp
qed

lemma volume_store_reads:
  "ResourceFacts volume_store ''acme'' ''Volume'' ''v1'' = volume_facts"
  "rootOf volume_calculator volume_store ''acme'' ''Volume'' volume_facts = Inr None"
  "ledger volume_store = []"
  by code_simp+

theorem recomputed_resource_is_settled_witness:
  "\<exists>s'. compare_full volume_calculator (\<lambda>s. s) ''acme'' volume_progress 86500000000000 '''' volume_store (''Volume'', ''v1'') = Inr s' \<and>
     rows_of s' ''acme'' (Piece_Key volume_piece) = {row_for volume_piece}"
proof -
  note ex = Expected_volume [folded volume_calculator_def]
  have none: "LedgerPiecesWhere volume_store ''acme'' P = []" for P by (simp add: LedgerPiecesWhere_def volume_store_reads)
  have full: "compare_full volume_calculator (\<lambda>s. s) ''acme'' volume_progress 86500000000000 '''' volume_store (''Volume'', ''v1'') =
      diffAndCommit volume_calculator (\<lambda>s. s) ''acme'' volume_progress 86500000000000 [volume_piece] [] True 0 '''' volume_store"
    by (simp add: compare_full_def resourceSnapshot_def recomputeWhole_def volume_store_reads none ex)
  have "\<not> isl (diffAndCommit volume_calculator (\<lambda>s. s) ''acme'' volume_progress 86500000000000 [volume_piece] [] True 0 '''' volume_store)"
    by code_simp
  then obtain s' where s': "compare_full volume_calculator (\<lambda>s. s) ''acme'' volume_progress 86500000000000 '''' volume_store (''Volume'', ''v1'') = Inr s'"
    unfolding full by (cases "diffAndCommit volume_calculator (\<lambda>s. s) ''acme'' volume_progress 86500000000000 [volume_piece] [] True 0 '''' volume_store") auto
  have ok: "tables_ok volume_store" unfolding volume_store_def
    by (intro tables_ok_operations) (simp add: tables_ok_def empty_store_def)
  have k: "Key_ResourceType (Piece_Key volume_piece) = ''Volume''" "Key_ResourceID (Piece_Key volume_piece) = ''v1''"
    by (simp_all add: volume_piece_def)
  have set: "{p \<in> set [volume_piece]. Piece_Key p = Piece_Key volume_piece} = {volume_piece}" by auto
  show ?thesis
    using recomputed_resource_is_settled [OF ok _ volume_calculator_def volume_revision_once s'] s'
    by (auto simp: none volume_store_reads ex k set)
qed
end
