(* ===== verification/Catch_Up_Merge.thy ===== *)
theory Catch_Up_Merge
  imports Catch_Up
begin

text \<open>
  The ledger as a rate function. Merging a caught heartbeat adds its rate over its interval and changes
  nothing else; the differences of a comparison are exactly the difference of the two rate functions; so
  replaying the heartbeats of a round onto the ledger the round started from gives a ledger with the rates
  the round expected. All of it on whole seconds and rates of whole micro units per second, which the
  usage engine guarantees, and within 64 bits.
\<close>

section \<open>Rates of rows\<close>

definition whole_rate :: "rat \<Rightarrow> bool" where
  "whole_rate r \<longleftrightarrow> (\<exists>k. r = of_int k / 1000000)"

lemma whole_rate_add: "whole_rate r \<Longrightarrow> whole_rate q \<Longrightarrow> whole_rate (r + q)"
  unfolding whole_rate_def by (metis add_divide_distrib of_int_add)

lemma whole_rate_diff: "whole_rate r \<Longrightarrow> whole_rate q \<Longrightarrow> whole_rate (r - q)"
  unfolding whole_rate_def by (metis diff_divide_distrib of_int_diff)

lemma whole_rate_0 [simp]: "whole_rate 0"
  unfolding whole_rate_def by (auto intro: exI [of _ 0])

definition covers :: "ledger_piece \<Rightarrow> time \<Rightarrow> bool" where
  "covers r t \<longleftrightarrow> Row_StartTime r \<le> t \<and> t < Row_EndTime r"

definition unique_cover :: "ledger_piece list \<Rightarrow> bool" where
  "unique_cover rs \<longleftrightarrow> (\<forall>r\<in>set rs. \<forall>r'\<in>set rs. \<forall>t. covers r t \<and> covers r' t \<longrightarrow> r = r')"

definition rows_ok :: "time \<Rightarrow> ledger_piece list \<Rightarrow> bool" where
  "rows_ok base rs \<longleftrightarrow> rows_on_seconds base rs \<and> disjoint_rows rs \<and> (\<forall>r\<in>set rs. whole_rate (pieceRate r))"

lemma disjoint_rows_unique: "disjoint_rows rs \<Longrightarrow> unique_cover rs"
proof (induction rs)
  case (Cons r rs)
  then have "unique_cover rs" by (simp add: ledger_side.disjoint_spans_def)
  moreover have "\<not> (covers r t \<and> covers r' t)" if "r' \<in> set rs" for r' t
    using Cons.prems that by (fastforce simp: ledger_side.disjoint_spans_def covers_def)
  ultimately show ?case by (auto simp: unique_cover_def)
qed (simp add: unique_cover_def)

lemma actualRateAt_row:
  assumes "rows_on_seconds base rs" "unique_cover rs" "r \<in> set rs" "covers r t"
  shows "actualRateAt rs t = pieceRate r"
proof -
  have "covering Row_StartTime Row_EndTime rs t = Some r"
  proof (cases "covering Row_StartTime Row_EndTime rs t")
    case None
    then show ?thesis using assms(3,4) by (auto simp: covering_def find_None_iff covers_def)
  next
    case (Some r')
    then show ?thesis using assms(2-4) covering_Some [OF Some] by (auto simp: unique_cover_def covers_def)
  qed
  moreover have "0 < micros (Row_EndTime r) (Row_StartTime r)"
    using assms(1,3) by (auto simp: rows_on_seconds_def intro: row_duration)
  ultimately show ?thesis by (simp add: actualRateAt_covering [OF assms(1)] pieceRate_def)
qed

lemma actualRateAt_none:
  assumes "rows_on_seconds base rs" "\<forall>r\<in>set rs. \<not> covers r t"
  shows "actualRateAt rs t = 0"
proof -
  have "covering Row_StartTime Row_EndTime rs t = None" using assms(2) by (auto simp: covering_def find_None_iff covers_def)
  then show ?thesis by (simp add: actualRateAt_covering [OF assms(1)])
qed

lemma actualRateAt_cong:
  assumes "rows_on_seconds base rs" "unique_cover rs" "set rs' = set rs"
  shows "actualRateAt rs' t = actualRateAt rs t"
proof -
  have rs': "rows_on_seconds base rs'" "unique_cover rs'" using assms by (simp_all add: rows_on_seconds_def unique_cover_def)
  show ?thesis
  proof (cases "\<exists>r\<in>set rs. covers r t")
    case True
    then obtain r where r: "r \<in> set rs" "covers r t" by blast
    then have "r \<in> set rs'" using assms(3) by simp
    from actualRateAt_row [OF rs' this r(2)] actualRateAt_row [OF assms(1,2) r] show ?thesis by simp
  next
    case False
    then show ?thesis using actualRateAt_none [OF assms(1)] actualRateAt_none [OF rs'(1)] assms(3) by simp
  qed
qed

lemma actualRateAt_whole:
  assumes "rows_ok base rs"
  shows "whole_rate (actualRateAt rs t)"
proof (cases "\<exists>r\<in>set rs. covers r t")
  case True
  then show ?thesis using assms actualRateAt_row disjoint_rows_unique by (fastforce simp: rows_ok_def)
next
  case False
  then show ?thesis using assms actualRateAt_none [of base rs t] by (simp add: rows_ok_def)
qed

text \<open>A whole rate over whole seconds is a whole quantity, and a quantity within bounds is not rounded.\<close>

lemma whole_quantity:
  assumes "on_seconds base a" "on_seconds base b" "whole_rate rate"
  obtains q where "rate * of_int (micros b a) = of_int q"
proof -
  obtain k where k: "rate = of_int k / 1000000" using assms(3) by (auto simp: whole_rate_def)
  obtain l where l: "micros b a = 1000000 * l" using micros_seconds [OF assms(1,2)] by metis
  have "rate * of_int (micros b a) = of_int (k * l)" by (simp add: k l)
  then show thesis by (rule that)
qed

lemma RationalToMicro_whole: "\<bar>q\<bar> < 2 ^ 63 \<Longrightarrow> RationalToMicro (of_int q) = Inr q"
  by (simp add: RationalToMicro_eq)

lemma wrap64_small: "\<bar>q\<bar> < 2 ^ 63 \<Longrightarrow> wrap64 q = q"
  by (rule wrap64_id) (auto simp: is_int64_def)

lemma micros_sub:
  assumes "on_seconds base a" "on_seconds base b" "on_seconds base c"
  shows "micros c a = micros c b + micros b a"
proof -
  obtain i j l where *: "micros c a = 1000000 * i" "c - a = second * i" "micros c b = 1000000 * j" "c - b = second * j"
      "micros b a = 1000000 * l" "b - a = second * l"
    using micros_seconds assms by metis
  then have "second * i = second * (j + l)" by (simp only: distrib_left)
  then have "i = j + l" by simp
  then show ?thesis using * by simp
qed

lemma micros_mono:
  assumes "on_seconds base a" "on_seconds base b" "on_seconds base lo" "on_seconds base hi" "lo \<le> a" "a \<le> b" "b \<le> hi"
  shows "0 \<le> micros b a \<and> micros b a \<le> micros hi lo"
proof -
  have nn: "0 \<le> micros y x" if "on_seconds base x" "on_seconds base y" "x \<le> y" for x y
  proof -
    have "time_sub y x = y - x" using that time_sub_exact by (auto simp: on_seconds_def)
    then show ?thesis using that(3) Microseconds_nonneg by simp
  qed
  have "micros hi lo = micros hi b + (micros b a + micros a lo)"
    using micros_sub [OF assms(3,2,4)] micros_sub [OF assms(3,1,2)] by simp
  then show ?thesis using nn assms by (simp add: add_nonneg_nonneg)
qed

section \<open>Merging adds a rate\<close>

definition merged_ok :: "time \<Rightarrow> ledger_key \<Rightarrow> (time \<Rightarrow> rat) \<Rightarrow> time \<Rightarrow> time \<Rightarrow> ledger_piece list \<Rightarrow> bool" where
  "merged_ok base key rate lo bound m \<longleftrightarrow>
     sorted_wrt (\<lambda>r r'. Row_EndTime r \<le> Row_StartTime r') m \<and>
     (\<forall>r\<in>set m. on_seconds base (Row_StartTime r) \<and> on_seconds base (Row_EndTime r) \<and> Row_StartTime r < Row_EndTime r \<and>
        lo \<le> Row_StartTime r \<and> Row_EndTime r \<le> bound \<and> Row_Key r = key \<and>
        (\<forall>t. covers r t \<longrightarrow> rate t = pieceRate r)) \<and>
     (\<forall>t. lo \<le> t \<and> t < bound \<longrightarrow> (\<exists>r\<in>set m. covers r t))"

lemma quantity_bound:
  assumes "rate * of_int (micros b a) = rat_of_int q" "\<bar>rate\<bar> * of_int (micros hi lo) < 2 ^ 63"
    and "0 \<le> micros b a" "micros b a \<le> micros hi lo"
  shows "\<bar>q\<bar> < 2 ^ 63"
proof -
  have "rat_of_int \<bar>q\<bar> = \<bar>rate * of_int (micros b a)\<bar>" unfolding assms(1) by simp
  also have "\<dots> = \<bar>rate\<bar> * of_int (micros b a)" unfolding abs_mult using assms(3) by simp
  also have "\<dots> \<le> \<bar>rate\<bar> * of_int (micros hi lo)" using assms(4) by (simp add: mult_left_mono)
  also have "\<dots> < of_int (2 ^ 63)" using assms(2) by simp
  finally show ?thesis by (simp only: of_int_less_iff)
qed

lemma merged_ok_snoc:
  assumes m: "merged_ok base key rate lo a m" and b: "lo \<le> a" "a < b" "on_seconds base a" "on_seconds base b"
    and n: "Row_StartTime n = a" "Row_EndTime n = b" "Row_Key n = key" "pieceRate n = rate a"
    and r: "\<forall>t. a \<le> t \<and> t < b \<longrightarrow> rate t = rate a"
  shows "merged_ok base key rate lo b (m @ [n])"
proof -
  have srt: "sorted_wrt (\<lambda>r r'. Row_EndTime r \<le> Row_StartTime r') (m @ [n])"
    using m n(1) by (auto simp: merged_ok_def sorted_wrt_append)
  have new: "covers n t \<longleftrightarrow> a \<le> t \<and> t < b" for t using n by (simp add: covers_def)
  have newrate: "\<forall>t. covers n t \<longrightarrow> rate t = pieceRate n" using r n(4) new by metis
  have rows: "\<forall>r\<in>set (m @ [n]). on_seconds base (Row_StartTime r) \<and> on_seconds base (Row_EndTime r) \<and> Row_StartTime r < Row_EndTime r \<and>
      lo \<le> Row_StartTime r \<and> Row_EndTime r \<le> b \<and> Row_Key r = key \<and> (\<forall>t. covers r t \<longrightarrow> rate t = pieceRate r)"
  proof
    fix r' assume "r' \<in> set (m @ [n])"
    then consider "r' \<in> set m" | "r' = n" by auto
    then show "on_seconds base (Row_StartTime r') \<and> on_seconds base (Row_EndTime r') \<and> Row_StartTime r' < Row_EndTime r' \<and>
      lo \<le> Row_StartTime r' \<and> Row_EndTime r' \<le> b \<and> Row_Key r' = key \<and> (\<forall>t. covers r' t \<longrightarrow> rate t = pieceRate r')"
    proof cases
      case 1
      then have "Row_EndTime r' \<le> a" using m by (auto simp: merged_ok_def)
      then show ?thesis using m 1 b(2) by (auto simp: merged_ok_def)
    qed (use b n newrate in simp)
  qed
  have "\<exists>r\<in>set (m @ [n]). covers r t" if "lo \<le> t" "t < b" for t
    using m that new by (cases "t < a") (auto simp: merged_ok_def)
  then show ?thesis using srt rows unfolding merged_ok_def by blast
qed

lemma merged_ok_butlast:
  "merged_ok base key rate lo a (pre @ [l]) \<Longrightarrow> merged_ok base key rate lo (Row_StartTime l) pre"
proof -
  assume m: "merged_ok base key rate lo a (pre @ [l])"
  have "\<exists>r\<in>set pre. covers r t" if "lo \<le> t" "t < Row_StartTime l" for t
  proof -
    have "Row_StartTime l < a" using m by (auto simp: merged_ok_def intro: less_le_trans)
    then obtain r where "r \<in> set (pre @ [l])" "covers r t" using m \<open>lo \<le> t\<close> \<open>t < _\<close> unfolding merged_ok_def by (meson less_trans)
    then show ?thesis using \<open>t < _\<close> by (auto simp: covers_def)
  qed
  then show ?thesis using m by (auto simp: merged_ok_def sorted_wrt_append)
qed

lemma merge_step_ok:
  assumes m: "merged_ok base (Caught_Key c) rate lo a m" and "whole_rate (rate a)"
    and r: "rate a = actualRateAt st a + caught_rate_at c a" "\<forall>t. a \<le> t \<and> t < b \<longrightarrow> rate t = rate a"
    and secs: "on_seconds base lo" "on_seconds base a" "on_seconds base b" "on_seconds base hi" "lo \<le> a" "a < b" "b \<le> hi"
    and fits: "\<forall>t. \<bar>rate t\<bar> * of_int (micros hi lo) < 2 ^ 63"
  shows "\<exists>m'. merge_step st c m (a, b) = Inr m' \<and> merged_ok base (Caught_Key c) rate lo b m'"
proof -
  note bnd = micros_mono [OF secs(2,3,1,4,5) less_imp_le [OF secs(6)] secs(7)]
  obtain q where q: "rate a * of_int (micros b a) = of_int q" using whole_quantity [OF secs(2,3) assms(2)] by metis
  have fit: "\<bar>q\<bar> < 2 ^ 63" by (rule quantity_bound [OF q]) (use fits bnd in blast)+
  have pos: "0 < micros b a" using row_duration [of base "\<lparr>Row_Key = k, Row_StartTime = a, Row_EndTime = b, Row_QuantityMicro = 0\<rparr>"] secs by simp
  define joins where "joins \<longleftrightarrow> m \<noteq> [] \<and> Row_EndTime (last m) = a \<and> pieceRate (last m) = rate a"
  show ?thesis
  proof (cases joins)
    case False
    let ?new = "\<lparr>Row_Key = Caught_Key c, Row_StartTime = a, Row_EndTime = b, Row_QuantityMicro = q\<rparr>"
    have "pieceRate ?new = rate a" using q pos by (simp add: pieceRate_def Let_def field_simps)
    then have "merged_ok base (Caught_Key c) rate lo b (m @ [?new])"
      by (intro merged_ok_snoc [OF m secs(5,6,2,3) _ _ _ _ r(2)]) simp_all
    moreover have "merge_step st c m (a, b) = Inr (m @ [?new])"
      using False q fit r(1) by (auto simp: merge_step_def joins_def RationalToMicro_whole)
    ultimately show ?thesis by blast
  next
    case True
    then obtain pre l where ml: "m = pre @ [l]" unfolding joins_def by (metis rev_exhaust)
    have l: "Row_EndTime l = a" "pieceRate l = rate a" "on_seconds base (Row_StartTime l)" "Row_StartTime l < a" "lo \<le> Row_StartTime l"
      using True m by (auto simp: joins_def ml merged_ok_def)
    have posl: "0 < micros a (Row_StartTime l)" using row_duration [of base l] l secs by simp
    have ql: "rate a * of_int (micros a (Row_StartTime l)) = of_int (Row_QuantityMicro l)"
      using l(1,2) posl by (simp add: pieceRate_def Let_def field_simps)
    have sum: "rate a * of_int (micros b (Row_StartTime l)) = of_int (Row_QuantityMicro l + q)"
      using micros_sub [OF l(3) secs(2,3)] q ql by (simp add: distrib_left)
    have "\<bar>Row_QuantityMicro l + q\<bar> < 2 ^ 63"
      by (rule quantity_bound [OF sum]) (use fits micros_mono [OF l(3) secs(3,1,4) l(5) _ secs(7)] less_trans [OF l(4) secs(6)] in \<open>auto simp: less_imp_le\<close>)
    then have w: "wrap64 (Row_QuantityMicro l + q) = Row_QuantityMicro l + q" by (rule wrap64_small)
    let ?new = "l\<lparr>Row_EndTime := b, Row_QuantityMicro := Row_QuantityMicro l + q\<rparr>"
    have newrate: "pieceRate ?new = rate a" using sum posl pos micros_sub [OF l(3) secs(2,3)] by (simp add: pieceRate_def Let_def field_simps)
    have key: "Row_Key l = Caught_Key c" "\<forall>t. covers l t \<longrightarrow> rate t = rate a"
      using m l(2) by (auto simp: ml merged_ok_def)
    have const: "\<forall>t. Row_StartTime l \<le> t \<and> t < b \<longrightarrow> rate t = rate (Row_StartTime l)" "rate (Row_StartTime l) = rate a"
    proof -
      have "rate t = rate a" if "Row_StartTime l \<le> t" "t < b" for t
      proof (cases "t < a")
        case True
        then show ?thesis using key(2) l(1) that by (simp add: covers_def)
      next
        case False
        then have "a \<le> t" by simp
        then show ?thesis using r(2) that by blast
      qed
      then show "\<forall>t. Row_StartTime l \<le> t \<and> t < b \<longrightarrow> rate t = rate (Row_StartTime l)" "rate (Row_StartTime l) = rate a"
        using l(4) secs(6) by (metis order_refl less_trans)+
    qed
    have "merged_ok base (Caught_Key c) rate lo b (pre @ [?new])"
      by (intro merged_ok_snoc [OF merged_ok_butlast [OF m [unfolded ml]] l(5) _ l(3) secs(3) _ _ _ _ const(1)])
         (use l(4) secs(6) const(2) key(1) newrate in simp_all)
    moreover have "merge_step st c m (a, b) = Inr (pre @ [?new])"
      using True q fit r(1) w by (auto simp: merge_step_def joins_def RationalToMicro_whole ml)
    ultimately show ?thesis by blast
  qed
qed

lemma merge_fold_ok:
  assumes "sorted_wrt (<) xs" "xs \<noteq> []" "\<forall>x\<in>set xs. on_seconds base x" "merged_ok base (Caught_Key c) rate lo (hd xs) m"
    and "on_seconds base lo" "on_seconds base hi" "lo \<le> hd xs" "last xs \<le> hi"
    and "\<forall>t. rate t = actualRateAt st t + caught_rate_at c t" "\<forall>t. whole_rate (rate t)"
    and "\<forall>(a, b)\<in>set (adj_pairs xs). \<forall>t. a \<le> t \<and> t < b \<longrightarrow> rate t = rate a"
    and "\<forall>t. \<bar>rate t\<bar> * of_int (micros hi lo) < 2 ^ 63"
  shows "\<exists>m'. efold (merge_step st c) m (adj_pairs xs) = Inr m' \<and> merged_ok base (Caught_Key c) rate lo (last xs) m'"
  using assms(1-4,7,8,11)
proof (induction xs arbitrary: m rule: induct_list012)
  case (3 x y zs)
  have xy: "x < y" "y \<le> hi" using "3.prems"(1,6) strict_sorted_le_last [of "y # zs" y] by auto
  have const: "\<forall>t. x \<le> t \<and> t < y \<longrightarrow> rate t = rate x"
    using "3.prems"(7) list.set_intros(1) [of "(x, y)" "adj_pairs (y # zs)"] unfolding adj_pairs_simps(3) by blast
  have secs: "on_seconds base x" "on_seconds base y" and lo: "lo \<le> x" using "3.prems"(3,5) by simp_all
  have rx: "whole_rate (rate x)" "rate x = actualRateAt st x + caught_rate_at c x" using assms(9,10) by blast+
  obtain mid where mid: "merge_step st c m (x, y) = Inr mid" "merged_ok base (Caught_Key c) rate lo y mid"
    using merge_step_ok [OF "3.prems"(4) [unfolded list.sel] rx const assms(5) secs assms(6) lo xy assms(12)] by blast
  have "\<exists>m'. efold (merge_step st c) mid (adj_pairs (y # zs)) = Inr m' \<and> merged_ok base (Caught_Key c) rate lo (last (y # zs)) m'"
  proof (rule "3.IH"(2))
    show "\<forall>(a, b)\<in>set (adj_pairs (y # zs)). \<forall>t. a \<le> t \<and> t < b \<longrightarrow> rate t = rate a"
      using "3.prems"(7) unfolding adj_pairs_simps(3) list.set(2) by blast
  qed (use "3.prems"(1-3,5,6) mid(2) xy in simp_all)
  then show ?case using mid(1) by simp
qed auto

lemma between_boundaries:
  assumes "sorted_wrt (<) xs" "(a, b) \<in> set (adj_pairs xs)" "s \<in> set xs" "e \<in> set xs" "a \<le> t" "t < (b :: int)"
  shows "s \<le> t \<and> t < e \<longleftrightarrow> s \<le> a \<and> a < e"
  using adj_pairs_no_between [OF assms(1,2,3)] adj_pairs_no_between [OF assms(1,2,4)] assms(5,6) by auto

lemma outside_boundaries:
  assumes "sorted_wrt (<) xs" "\<not> (hd xs \<le> t \<and> t < last xs)" "s \<in> set xs" "e \<in> set xs"
  shows "\<not> (s \<le> t \<and> t < (e :: int))"
  using strict_sorted_hd_le [OF assms(1,3)] strict_sorted_le_last [OF assms(1,4)] assms(2) by auto

lemma actualRateAt_constant:
  assumes "rows_on_seconds base rs" "unique_cover rs" "\<forall>r\<in>set rs. covers r t \<longleftrightarrow> covers r a"
  shows "actualRateAt rs t = actualRateAt rs a"
proof (cases "\<exists>r\<in>set rs. covers r t")
  case True
  then show ?thesis using actualRateAt_row [OF assms(1,2)] assms(3) by metis
next
  case False
  then show ?thesis using actualRateAt_none [OF assms(1)] assms(3) by metis
qed

lemma merged_ok_rows:
  assumes "merged_ok base key rate lo bound m" "\<forall>t. whole_rate (rate t)"
  shows "rows_ok base m" "lo \<le> t \<Longrightarrow> t < bound \<Longrightarrow> actualRateAt m t = rate t" "t < lo \<or> bound \<le> t \<Longrightarrow> actualRateAt m t = 0"
proof -
  have rs: "rows_on_seconds base m" using assms(1) by (auto simp: merged_ok_def rows_on_seconds_def)
  have "sorted_wrt (\<lambda>r r'. Row_EndTime r \<le> Row_StartTime r') m" using assms(1) by (simp add: merged_ok_def)
  then have dj: "disjoint_rows m"
    using rs by (auto simp: ledger_side.disjoint_spans_def rows_on_seconds_def elim!: sorted_wrt_mono_rel [rotated])
  have rate: "\<forall>r\<in>set m. \<forall>t. covers r t \<longrightarrow> rate t = pieceRate r" using assms(1) by (auto simp: merged_ok_def)
  have "whole_rate (pieceRate r)" if "r \<in> set m" for r
  proof -
    have "covers r (Row_StartTime r)" using rs that by (auto simp: rows_on_seconds_def covers_def)
    then show ?thesis using rate assms(2) that by metis
  qed
  then show "rows_ok base m" using rs dj by (simp add: rows_ok_def)
  show "actualRateAt m t = rate t" if t: "lo \<le> t" "t < bound"
  proof -
    obtain r where "r \<in> set m" "covers r t" using assms(1) t unfolding merged_ok_def by blast
    then show ?thesis using actualRateAt_row [OF rs disjoint_rows_unique [OF dj]] rate by metis
  qed
  show "actualRateAt m t = 0" if "t < lo \<or> bound \<le> t"
    by (rule actualRateAt_none [OF rs]) (use assms(1) that in \<open>fastforce simp: merged_ok_def covers_def\<close>)
qed

lemma set_merge_points:
  "set (merge_points rs c) = {Caught_Start c, Caught_End c} \<union> Row_StartTime ` set rs \<union> Row_EndTime ` set rs"
  unfolding merge_points_def remdups_adj_set set_sort by auto

text \<open>
  \<open>fits_in\<close>: over the whole horizon from \<open>lo\<close> to \<open>hi\<close> no rate of the function exceeds 64 bits.
\<close>

definition fits_in :: "time \<Rightarrow> time \<Rightarrow> (time \<Rightarrow> rat) \<Rightarrow> bool" where
  "fits_in lo hi rate \<longleftrightarrow> (\<forall>t. \<bar>rate t\<bar> * of_int (micros hi lo) < 2 ^ 63)"

definition caught_ok :: "time \<Rightarrow> caught_heartbeat \<Rightarrow> bool" where
  "caught_ok base c \<longleftrightarrow> on_seconds base (Caught_Start c) \<and> on_seconds base (Caught_End c) \<and> Caught_Start c < Caught_End c \<and>
     whole_rate (of_int (Caught_QuantityMicro c) / of_int (micros (Caught_End c) (Caught_Start c)))"

lemma merge_adds_rate:
  assumes rs: "rows_ok base rs" and c: "caught_ok base c"
    and hor: "on_seconds base lo" "on_seconds base hi" "\<forall>p\<in>set (merge_points rs c). lo \<le> p \<and> p \<le> hi"
    and fits: "fits_in lo hi (\<lambda>t. actualRateAt rs t + caught_rate_at c t)"
  shows "\<exists>merged. mergeIntoLedger rs c = Inr merged \<and> rows_ok base merged \<and> (\<forall>r\<in>set merged. Row_Key r = Caught_Key c) \<and>
    set (map Row_StartTime merged @ map Row_EndTime merged) \<subseteq> {lo..hi} \<and>
    (\<forall>t. actualRateAt merged t = actualRateAt rs t + caught_rate_at c t)"
proof -
  let ?st = "sort_key Row_StartTime rs" and ?xs = "merge_points (sort_key Row_StartTime rs) c"
  define rate where "rate = (\<lambda>t. actualRateAt rs t + caught_rate_at c t)"
  have ros: "rows_on_seconds base rs" and uq: "unique_cover rs" using rs by (auto simp: rows_ok_def disjoint_rows_unique)
  have pts: "set ?xs = {Caught_Start c, Caught_End c} \<union> Row_StartTime ` set rs \<union> Row_EndTime ` set rs" by (simp add: set_merge_points)
  have srt: "sorted_wrt (<) ?xs" unfolding merge_points_def by (rule strict_sorted_remdups_adj_sort)
  have ne: "?xs \<noteq> []" using pts by auto
  have secs: "\<forall>x\<in>set ?xs. on_seconds base x" using ros c unfolding pts by (auto simp: rows_on_seconds_def caught_ok_def)
  have st: "actualRateAt ?st t = actualRateAt rs t" for t by (rule actualRateAt_cong [OF ros uq]) simp
  have range: "lo \<le> x \<and> x \<le> hi" if "x \<in> set ?xs" for x using hor(3) that unfolding pts set_merge_points by auto
  have cw: "whole_rate (caught_rate_at c t)" for t using c by (simp add: caught_ok_def caught_rate_at_def)
  have whole: "\<forall>t. whole_rate (rate t)" unfolding rate_def using whole_rate_add actualRateAt_whole [OF rs] cw by blast
  have const: "\<forall>(a, b)\<in>set (adj_pairs ?xs). \<forall>t. a \<le> t \<and> t < b \<longrightarrow> rate t = rate a"
  proof clarify
    fix a b t assume ab: "(a, b) \<in> set (adj_pairs ?xs)" "a \<le> t" "t < b"
    have "\<forall>r\<in>set rs. covers r t \<longleftrightarrow> covers r a" unfolding covers_def using between_boundaries [OF srt ab(1) _ _ ab(2,3)] pts by blast
    moreover have "Caught_Start c \<le> t \<and> t < Caught_End c \<longleftrightarrow> Caught_Start c \<le> a \<and> a < Caught_End c"
      by (rule between_boundaries [OF srt ab(1) _ _ ab(2,3)]) (simp_all add: pts)
    ultimately show "rate t = rate a" unfolding rate_def caught_rate_at_def using actualRateAt_constant [OF ros uq] by simp
  qed
  have start: "merged_ok base (Caught_Key c) rate (hd ?xs) (hd ?xs) []" by (simp add: merged_ok_def)
  have hd: "hd ?xs \<in> set ?xs" "last ?xs \<in> set ?xs" using ne by simp_all
  have fits': "\<forall>t. \<bar>rate t\<bar> * of_int (micros (last ?xs) (hd ?xs)) < 2 ^ 63"
  proof
    fix t
    have "hd ?xs \<le> last ?xs" by (rule strict_sorted_hd_le [OF srt hd(2)])
    then have "micros (last ?xs) (hd ?xs) \<le> micros hi lo" using micros_mono [of base "hd ?xs" "last ?xs" lo hi] secs hd hor range by blast
    then have "\<bar>rate t\<bar> * of_int (micros (last ?xs) (hd ?xs)) \<le> \<bar>rate t\<bar> * of_int (micros hi lo)" by (simp add: mult_left_mono)
    then show "\<bar>rate t\<bar> * of_int (micros (last ?xs) (hd ?xs)) < 2 ^ 63" using fits unfolding fits_in_def rate_def by (metis le_less_trans)
  qed
  have "\<exists>m. efold (merge_step ?st c) [] (adj_pairs ?xs) = Inr m \<and> merged_ok base (Caught_Key c) rate (hd ?xs) (last ?xs) m"
    by (rule merge_fold_ok [OF srt ne secs start _ _ order_refl order_refl _ whole const fits'])
       (use secs hd in blast, use secs hd in blast, simp add: rate_def st)
  then obtain m where m: "efold (merge_step ?st c) [] (adj_pairs ?xs) = Inr m" "merged_ok base (Caught_Key c) rate (hd ?xs) (last ?xs) m" by blast
  have "0 < micros (Caught_End c) (Caught_Start c)"
    using row_duration [of base "\<lparr>Row_Key = k, Row_StartTime = Caught_Start c, Row_EndTime = Caught_End c, Row_QuantityMicro = 0\<rparr>"] c
    by (simp add: caught_ok_def)
  then have merge: "mergeIntoLedger rs c = Inr m" using m(1) by (simp add: mergeIntoLedger_def)
  have "actualRateAt m t = rate t" for t
  proof (cases "hd ?xs \<le> t \<and> t < last ?xs")
    case True
    then show ?thesis using merged_ok_rows(2) [OF m(2) whole] by blast
  next
    case False
    note out = outside_boundaries [OF srt False]
    have "\<forall>r\<in>set rs. \<not> covers r t" unfolding covers_def using out pts by blast
    moreover have "caught_rate_at c t = 0" using out [of "Caught_Start c" "Caught_End c"] pts by (auto simp: caught_rate_at_def)
    moreover have "actualRateAt m t = 0" by (rule merged_ok_rows(3) [OF m(2) whole]) (use False in linarith)
    ultimately show ?thesis using actualRateAt_none [OF ros] by (simp add: rate_def)
  qed
  moreover have "set (map Row_StartTime m @ map Row_EndTime m) \<subseteq> {lo..hi}"
    using m(2) range hd by (fastforce simp: merged_ok_def)
  ultimately show ?thesis using merge merged_ok_rows(1) [OF m(2) whole] m(2) unfolding rate_def merged_ok_def by blast
qed

end
