(* ===== verification/Catch_Up_Replay.thy ===== *)
theory Catch_Up_Replay
  imports Catch_Up_Merge
begin

text \<open>
  Replaying a round. The differences a comparison sends are the difference of the expected and the
  committed rate functions, piece by piece; merging them into the ledger the comparison read gives a
  ledger with the expected rates.
\<close>

section \<open>Differences as a rate function\<close>

definition spans :: "difference \<Rightarrow> time \<Rightarrow> bool" where
  "spans d t \<longleftrightarrow> Diff_Start d \<le> t \<and> t < Diff_End d"

definition diffs_ok :: "time \<Rightarrow> ledger_key \<Rightarrow> (time \<Rightarrow> rat) \<Rightarrow> time \<Rightarrow> time \<Rightarrow> difference list \<Rightarrow> bool" where
  "diffs_ok base key delta lo bound ds \<longleftrightarrow>
     (\<forall>d\<in>set ds. on_seconds base (Diff_Start d) \<and> on_seconds base (Diff_End d) \<and> Diff_Start d < Diff_End d \<and>
        lo \<le> Diff_Start d \<and> Diff_End d \<le> bound \<and> Diff_Key d = key \<and>
        rat_of_int (Diff_QuantityMicro d) = Diff_DeltaRate d * of_int (micros (Diff_End d) (Diff_Start d)) \<and>
        (\<forall>t. spans d t \<longrightarrow> delta t = Diff_DeltaRate d)) \<and>
     sorted_wrt (\<lambda>d d'. Diff_End d \<le> Diff_Start d') ds \<and>
     (\<forall>t. lo \<le> t \<and> t < bound \<and> (\<forall>d\<in>set ds. \<not> spans d t) \<longrightarrow> delta t = 0)"

lemma diffs_ok_later:
  assumes "diffs_ok base key delta lo a ds" "a \<le> b" "\<forall>t. a \<le> t \<and> t < b \<longrightarrow> delta t = 0"
  shows "diffs_ok base key delta lo b ds"
proof -
  have "delta t = 0" if "lo \<le> t" "t < b" "\<forall>d\<in>set ds. \<not> spans d t" for t
  proof (cases "t < a")
    case True
    then show ?thesis using assms(1) that unfolding diffs_ok_def by blast
  next
    case False
    then have "a \<le> t" by simp
    then show ?thesis using assms(3) that by blast
  qed
  then show ?thesis using assms(1,2) unfolding diffs_ok_def by (meson order_trans)
qed

lemma diffs_ok_snoc:
  assumes ds: "diffs_ok base key delta lo a ds" and b: "lo \<le> a" "a < b" "on_seconds base a" "on_seconds base b"
    and n: "Diff_Start n = a" "Diff_End n = b" "Diff_Key n = key" "Diff_DeltaRate n = delta a"
      "rat_of_int (Diff_QuantityMicro n) = delta a * of_int (micros b a)"
    and r: "\<forall>t. a \<le> t \<and> t < b \<longrightarrow> delta t = delta a"
  shows "diffs_ok base key delta lo b (ds @ [n])"
proof -
  have srt: "sorted_wrt (\<lambda>d d'. Diff_End d \<le> Diff_Start d') (ds @ [n])"
    using ds n(1) by (auto simp: diffs_ok_def sorted_wrt_append)
  have new: "spans n t \<longleftrightarrow> a \<le> t \<and> t < b" for t using n by (simp add: spans_def)
  have newrate: "\<forall>t. spans n t \<longrightarrow> delta t = Diff_DeltaRate n" using r n(4) new by metis
  have mem: "\<forall>d\<in>set (ds @ [n]). on_seconds base (Diff_Start d) \<and> on_seconds base (Diff_End d) \<and> Diff_Start d < Diff_End d \<and>
        lo \<le> Diff_Start d \<and> Diff_End d \<le> b \<and> Diff_Key d = key \<and>
        rat_of_int (Diff_QuantityMicro d) = Diff_DeltaRate d * of_int (micros (Diff_End d) (Diff_Start d)) \<and>
        (\<forall>t. spans d t \<longrightarrow> delta t = Diff_DeltaRate d)"
  proof
    fix d assume "d \<in> set (ds @ [n])"
    then consider "d \<in> set ds" | "d = n" by auto
    then show "on_seconds base (Diff_Start d) \<and> on_seconds base (Diff_End d) \<and> Diff_Start d < Diff_End d \<and>
        lo \<le> Diff_Start d \<and> Diff_End d \<le> b \<and> Diff_Key d = key \<and>
        rat_of_int (Diff_QuantityMicro d) = Diff_DeltaRate d * of_int (micros (Diff_End d) (Diff_Start d)) \<and>
        (\<forall>t. spans d t \<longrightarrow> delta t = Diff_DeltaRate d)"
    proof cases
      case 1
      then show ?thesis using ds b(2) unfolding diffs_ok_def by fastforce
    qed (use b n newrate in simp)
  qed
  have "delta t = 0" if "lo \<le> t" "t < b" "\<forall>d\<in>set (ds @ [n]). \<not> spans d t" for t
  proof -
    have "t < a" using that new by force
    then show ?thesis using ds that unfolding diffs_ok_def by auto
  qed
  then show ?thesis using srt mem unfolding diffs_ok_def by blast
qed

lemma diffs_ok_butlast:
  assumes "diffs_ok base key delta lo a (pre @ [l])"
  shows "diffs_ok base key delta lo (Diff_Start l) pre"
proof -
  have "delta t = 0" if "lo \<le> t" "t < Diff_Start l" "\<forall>d\<in>set pre. \<not> spans d t" for t
  proof -
    have "t < a" using assms that(2) by (auto simp: diffs_ok_def)
    moreover have "\<not> spans l t" using that(2) by (simp add: spans_def)
    ultimately show ?thesis using assms that unfolding diffs_ok_def by auto
  qed
  then show ?thesis using assms by (auto simp: diffs_ok_def sorted_wrt_append)
qed

section \<open>Exact quantities of an interval\<close>

lemma cumulative_whole:
  assumes "on_seconds base s" "on_seconds base a" "on_seconds base b" "on_seconds base lo" "on_seconds base hi"
    and "lo \<le> s" "s \<le> a" "a \<le> b" "b \<le> hi" "whole_rate rate" "\<bar>rate\<bar> * of_int (micros hi lo) < 2 ^ 63"
  shows "\<exists>x. cumulative rate s a b = Inr x \<and> rat_of_int x = rate * of_int (micros b a)"
proof -
  have q: "\<exists>n. rate * of_int (micros y x) = of_int n \<and> \<bar>n\<bar> < 2 ^ 63" if h: "on_seconds base x" "on_seconds base y" "lo \<le> x" "x \<le> y" "y \<le> hi" for x y
  proof -
    obtain n where n: "rate * of_int (micros y x) = of_int n" by (rule whole_quantity [OF h(1,2) assms(10)])
    then have "\<bar>n\<bar> < 2 ^ 63" using quantity_bound [OF n assms(11)] micros_mono [OF h(1,2) assms(4,5) h(3-5)] by blast
    then show ?thesis using n by blast
  qed
  obtain i where i: "rate * of_int (micros a s) = of_int i" "\<bar>i\<bar> < 2 ^ 63" using q [OF assms(1,2,6,7)] assms by auto
  obtain j where j: "rate * of_int (micros b s) = of_int j" "\<bar>j\<bar> < 2 ^ 63" using q [OF assms(1,3,6)] assms by auto
  obtain l where l: "rate * of_int (micros b a) = of_int l" "\<bar>l\<bar> < 2 ^ 63" using q [OF assms(2,3)] assms by auto
  have "rat_of_int j = of_int l + of_int i"
    unfolding j(1) [symmetric] l(1) [symmetric] i(1) [symmetric] using micros_sub [OF assms(1-3)] by (simp add: distrib_left)
  then have "j = l + i" by (metis of_int_add of_int_eq_iff)
  then have "wrap64 (j - i) = l" using wrap64_small [OF l(2)] by simp
  then have "cumulative rate s a b = Inr l"
    unfolding cumulative_def i(1) j(1) RationalToMicro_whole [OF i(2)] RationalToMicro_whole [OF j(2)] by simp
  then show ?thesis using l(1) by simp
qed

text \<open>
  The setting of a comparison in which nothing is rounded and nothing overflows: expected pieces and rows
  on whole seconds within a horizon, rows of whole rates, and rates that fit.
\<close>

definition exact_setting :: "time \<Rightarrow> time \<Rightarrow> time \<Rightarrow> piece list \<Rightarrow> ledger_piece list \<Rightarrow> bool" where
  "exact_setting base lo hi es rs \<longleftrightarrow>
     on_seconds base lo \<and> on_seconds base hi \<and> rows_ok base rs \<and>
     (\<forall>p\<in>set (base_points es rs). on_seconds base p \<and> lo \<le> p \<and> p \<le> hi) \<and>
     fits_in lo hi (rateAt es) \<and> fits_in lo hi (actualRateAt rs) \<and> fits_in lo hi (\<lambda>t. rateAt es t - actualRateAt rs t)"

lemma rateAt_whole_rate: "whole_rate (rateAt es t)"
  using rateAt_whole [of es t] by (auto simp: whole_rate_def)

lemma roundedQuantity_exact:
  assumes set: "exact_setting base lo hi es rs" and ab: "on_seconds base a" "on_seconds base b" "lo \<le> a" "a \<le> b" "b \<le> hi"
  shows "\<exists>x. roundedQuantity es a b = Inr x \<and> rat_of_int x = rateAt es a * of_int (micros b a)"
proof (cases "covering Piece_StartTime Piece_EndTime es a")
  case (Some p)
  note p = covering_Some [OF Some]
  have ps: "on_seconds base (Piece_StartTime p)" "lo \<le> Piece_StartTime p"
    using set p by (auto simp: exact_setting_def set_base_points)
  have fits: "\<bar>rateAt es a\<bar> * of_int (micros hi lo) < 2 ^ 63" using set by (simp add: exact_setting_def fits_in_def)
  show ?thesis
  proof (cases "Piece_Pending p")
    case False
    then have "roundedQuantity es a b = cumulative (rateAt es a) (Piece_StartTime p) a b"
      using Some by (simp add: roundedQuantity_def rateAt_def)
    then show ?thesis
      using cumulative_whole [OF ps(1) ab(1,2) _ _ ps(2) _ ab(4,5) rateAt_whole_rate fits] set p by (simp add: exact_setting_def)
  qed (use Some in \<open>simp add: roundedQuantity_def rateAt_def\<close>)
qed (simp add: roundedQuantity_def rateAt_def)

lemma committedQuantity_exact:
  assumes set: "exact_setting base lo hi es rs" and ab: "on_seconds base a" "on_seconds base b" "lo \<le> a" "a \<le> b" "b \<le> hi"
  shows "\<exists>x. committedQuantity rs a b = Inr x \<and> rat_of_int x = actualRateAt rs a * of_int (micros b a)"
proof -
  have ok: "rows_ok base rs" and ros: "rows_on_seconds base rs" using set by (simp_all add: exact_setting_def rows_ok_def)
  show ?thesis
  proof (cases "covering Row_StartTime Row_EndTime rs a")
    case (Some r)
    note r = covering_Some [OF Some]
    have rsec: "on_seconds base (Row_StartTime r)" "lo \<le> Row_StartTime r" "0 < micros (Row_EndTime r) (Row_StartTime r)"
      using set r ros row_duration [of base r] by (auto simp: exact_setting_def set_base_points rows_on_seconds_def)
    have fits: "\<bar>actualRateAt rs a\<bar> * of_int (micros hi lo) < 2 ^ 63" using set by (simp add: exact_setting_def fits_in_def)
    have "committedQuantity rs a b = cumulative (actualRateAt rs a) (Row_StartTime r) a b"
      using Some rsec(3) by (simp add: actualRateAt_covering [OF ros] committedQuantity_def Let_def)
    then show ?thesis
      using cumulative_whole [OF rsec(1) ab(1,2) _ _ rsec(2) _ ab(4,5) actualRateAt_whole [OF ok] fits] set r by (simp add: exact_setting_def)
  qed (simp add: committedQuantity_def actualRateAt_covering [OF ros])
qed

lemma diffs_ok_grow:
  assumes ds: "diffs_ok base key delta lo a ds" and l: "ds \<noteq> []" "Diff_End (last ds) = a" "Diff_DeltaRate (last ds) = delta a"
    and ab: "on_seconds base a" "on_seconds base b" "lo \<le> a" "a < b" "b \<le> hi" "clamp < b"
    and q: "delta a * of_int (micros b a) = of_int n" and fits: "\<And>t. \<bar>delta t\<bar> * of_int (micros hi lo) < 2 ^ 63"
    and hor: "on_seconds base lo" "on_seconds base hi" and const: "\<forall>t. a \<le> t \<and> t < b \<longrightarrow> delta t = delta a"
  shows "diffs_ok base key delta lo b (butlast ds @
    [(last ds)\<lparr>Diff_End := b, Diff_QuantityMicro := wrap64 (Diff_QuantityMicro (last ds) + n)\<rparr>])"
proof -
  obtain pre d where pd: "ds = pre @ [d]" using l(1) by (metis rev_exhaust)
  have d: "Diff_End d = a" "Diff_DeltaRate d = delta a" "on_seconds base (Diff_Start d)" "Diff_Start d < a" "lo \<le> Diff_Start d"
      "Diff_Key d = key" "rat_of_int (Diff_QuantityMicro d) = delta a * of_int (micros a (Diff_Start d))"
      "\<forall>t. spans d t \<longrightarrow> delta t = delta a"
    using ds l by (auto simp: pd diffs_ok_def)
  have sum: "delta a * of_int (micros b (Diff_Start d)) = of_int (Diff_QuantityMicro d + n)"
    using micros_sub [OF d(3) ab(1,2)] q d(7) by (simp add: distrib_left)
  have "\<bar>Diff_QuantityMicro d + n\<bar> < 2 ^ 63"
    using quantity_bound [OF sum fits] micros_mono [OF d(3) ab(2) hor d(5) _ ab(5)] d(4) ab(4) by simp
  then have w: "wrap64 (Diff_QuantityMicro d + n) = Diff_QuantityMicro d + n" by (rule wrap64_small)
  have same: "delta t = delta a" if "Diff_Start d \<le> t" "t < b" for t
  proof (cases "t < a")
    case True
    then show ?thesis using d(1,8) that by (simp add: spans_def)
  next
    case False
    then have "a \<le> t" by simp
    then show ?thesis using const that by blast
  qed
  have start: "delta (Diff_Start d) = delta a" by (rule same) (use d(4) ab(4) in simp_all)
  have "\<forall>t. Diff_Start d \<le> t \<and> t < b \<longrightarrow> delta t = delta (Diff_Start d)" unfolding start using same by blast
  from diffs_ok_snoc [OF diffs_ok_butlast [OF ds [unfolded pd]] d(5) _ d(3) ab(2) _ _ _ _ _ this,
      of "d\<lparr>Diff_End := b, Diff_QuantityMicro := Diff_QuantityMicro d + n\<rparr>"]
  show ?thesis using d(2,4,6) ab(4) start sum by (simp add: pd w)
qed

lemma diff_step_exact:
  assumes set: "exact_setting base lo hi es rs" and delta: "delta = (\<lambda>t. rateAt es t - actualRateAt rs t)"
    and ds: "diffs_ok base key delta lo a ds"
    and ab: "on_seconds base a" "on_seconds base b" "lo \<le> a" "a < b" "b \<le> hi" "clamp < b"
    and const: "\<forall>t. a \<le> t \<and> t < b \<longrightarrow> delta t = delta a"
  shows "\<exists>ds'. diff_step key es rs splits clamp ds (a, b) = Inr ds' \<and> diffs_ok base key delta lo b ds'"
proof -
  obtain x y where xy: "roundedQuantity es a b = Inr x" "rat_of_int x = rateAt es a * of_int (micros b a)"
      "committedQuantity rs a b = Inr y" "rat_of_int y = actualRateAt rs a * of_int (micros b a)"
    using roundedQuantity_exact [OF set ab(1-3) _ ab(5)] committedQuantity_exact [OF set ab(1-3) _ ab(5)] ab(4) by auto
  have q: "delta a * of_int (micros b a) = of_int (x - y)" using xy(2,4) by (simp add: delta left_diff_distrib)
  have fits: "\<bar>delta t\<bar> * of_int (micros hi lo) < 2 ^ 63" for t using set by (simp add: exact_setting_def fits_in_def delta)
  have hor: "on_seconds base lo" "on_seconds base hi" using set by (simp_all add: exact_setting_def)
  have "\<bar>x - y\<bar> < 2 ^ 63" using quantity_bound [OF q fits] micros_mono [OF ab(1,2) hor ab(3) less_imp_le [OF ab(4)] ab(5)] by blast
  then have w: "wrap64 (x - y) = x - y" by (rule wrap64_small)
  have pos: "0 < micros b a" using row_duration [of base "\<lparr>Row_Key = key, Row_StartTime = a, Row_EndTime = b, Row_QuantityMicro = 0\<rparr>"] ab by simp
  have "\<exists>ds'. diff_step key es rs splits clamp ds (a, b) = Inr ds'" using xy(1,3) ab(6) by (simp add: diff_step_def Let_def)
  then obtain ds' where step: "diff_step key es rs splits clamp ds (a, b) = Inr ds'" by blast
  have ctd: "counted es clamp (a, b)" using ab(6) by (simp add: counted_def)
  have zero: "diffs_ok base key delta lo b ds" if "delta a = 0"
    by (rule diffs_ok_later [OF ds]) (use ab(4) const that in auto)
  have da: "rateAt es a - actualRateAt rs a = delta a" by (simp add: delta)
  from step have "diffs_ok base key delta lo b ds'"
  proof (cases rule: diff_step_cases)
    case (zero x' y')
    then have "delta a = 0" using xy q pos w by simp
    then show ?thesis using \<open>delta a = 0 \<Longrightarrow> _\<close> zero(1) by simp
  next
    case (new x' y')
    then have eq: "x' = x" "y' = y" using xy(1,3) by simp_all
    show ?thesis unfolding new(4) eq w da
      by (rule diffs_ok_snoc [OF ds ab(3,4,1,2) _ _ _ _ _ const]) (simp_all add: q)
  next
    case (grow x' y')
    then have eq: "x' = x" "y' = y" using xy(1,3) by simp_all
    show ?thesis unfolding grow(9) eq w
      by (rule diffs_ok_grow [OF ds grow(4,5) grow(6) [unfolded da] ab q fits hor const])
  qed (use zero ctd in \<open>auto simp: delta\<close>)
  then show ?thesis using step by blast
qed

lemma rateAt_constant:
  assumes "\<forall>p\<in>set es. (Piece_StartTime p \<le> t \<and> t < Piece_EndTime p) \<longleftrightarrow> (Piece_StartTime p \<le> a \<and> a < Piece_EndTime p)"
  shows "rateAt es t = rateAt es a"
proof -
  have "covering Piece_StartTime Piece_EndTime es t = covering Piece_StartTime Piece_EndTime es a"
    unfolding covering_def using assms by (intro find_cong) auto
  then show ?thesis by (simp add: rateAt_def)
qed

lemma rateAt_none:
  assumes "\<forall>p\<in>set es. \<not> (Piece_StartTime p \<le> t \<and> t < Piece_EndTime p)"
  shows "rateAt es t = 0"
proof -
  have "covering Piece_StartTime Piece_EndTime es t = None" using assms by (auto simp: covering_def find_None_iff)
  then show ?thesis by (simp add: rateAt_def)
qed

lemma diff_fold_exact:
  assumes set: "exact_setting base lo hi es rs" and delta: "delta = (\<lambda>t. rateAt es t - actualRateAt rs t)"
    and xs: "sorted_wrt (<) xs" "xs \<noteq> []" "\<forall>x\<in>set xs. on_seconds base x" "diffs_ok base key delta lo (hd xs) ds"
      "lo \<le> hd xs" "last xs \<le> hi" "clamp \<le> hd xs"
    and const: "\<forall>(a, b)\<in>set (adj_pairs xs). \<forall>t. a \<le> t \<and> t < b \<longrightarrow> delta t = delta a"
  shows "\<exists>ds'. efold (diff_step key es rs splits clamp) ds (adj_pairs xs) = Inr ds' \<and> diffs_ok base key delta lo (last xs) ds'"
  using xs const
proof (induction xs arbitrary: ds rule: induct_list012)
  case (3 x y zs)
  have xy: "x < y" "y \<le> hi" using "3.prems"(1,6) strict_sorted_le_last [of "y # zs" y] by auto
  have c: "\<forall>t. x \<le> t \<and> t < y \<longrightarrow> delta t = delta x"
    using "3.prems"(8) list.set_intros(1) [of "(x, y)" "adj_pairs (y # zs)"] unfolding adj_pairs_simps(3) by blast
  have secs: "on_seconds base x" "on_seconds base y" and lo: "lo \<le> x" "clamp < y" using "3.prems"(3,5,7) xy by simp_all
  obtain mid where mid: "diff_step key es rs splits clamp ds (x, y) = Inr mid" "diffs_ok base key delta lo y mid"
    using diff_step_exact [OF set delta "3.prems"(4) [unfolded list.sel] secs lo(1) xy lo(2) c] by blast
  have "\<exists>ds'. efold (diff_step key es rs splits clamp) mid (adj_pairs (y # zs)) = Inr ds' \<and> diffs_ok base key delta lo (last (y # zs)) ds'"
  proof (rule "3.IH"(2))
    show "\<forall>(a, b)\<in>set (adj_pairs (y # zs)). \<forall>t. a \<le> t \<and> t < b \<longrightarrow> delta t = delta a"
      using "3.prems"(8) unfolding adj_pairs_simps(3) list.set(2) by blast
  qed (use "3.prems"(1-3,5-7) mid(2) xy in simp_all)
  then show ?case using mid(1) by simp
qed auto

text \<open>The rate at which the heartbeats of a comparison correct a moment.\<close>

definition correction_at :: "difference list \<Rightarrow> time \<Rightarrow> rat" where
  "correction_at ds t =
     (case find (\<lambda>d. spans d t) ds of None \<Rightarrow> 0
      | Some d \<Rightarrow> of_int (Diff_QuantityMicro d) / of_int (micros (Diff_End d) (Diff_Start d)))"

lemma diffs_ok_correction:
  assumes "diffs_ok base key delta lo bound ds" "\<forall>t. t < lo \<or> bound \<le> t \<longrightarrow> delta t = 0"
  shows "correction_at ds t = delta t"
proof (cases "find (\<lambda>d. spans d t) ds")
  case None
  then have "\<forall>d\<in>set ds. \<not> spans d t" by (auto simp: find_None_iff)
  then have "delta t = 0" using assms unfolding diffs_ok_def by (meson not_less)
  then show ?thesis using None by (simp add: correction_at_def)
next
  case (Some d)
  then have d: "d \<in> set ds" "spans d t" by (auto simp: find_Some_iff)
  then have "0 < micros (Diff_End d) (Diff_Start d)"
    using row_duration [of base "\<lparr>Row_Key = key, Row_StartTime = Diff_Start d, Row_EndTime = Diff_End d, Row_QuantityMicro = 0\<rparr>"] assms(1)
    by (auto simp: diffs_ok_def)
  moreover have "rat_of_int (Diff_QuantityMicro d) = delta t * of_int (micros (Diff_End d) (Diff_Start d))"
    using assms(1) d by (auto simp: diffs_ok_def)
  ultimately show ?thesis using Some by (simp add: correction_at_def)
qed

lemma diff_exact:
  assumes set: "exact_setting base lo hi es rs" and revs: "\<forall>t\<in>set revisionTimes. whole_second t" and clamp: "clamp \<le> lo"
  shows "\<exists>ds. diff key es rs revisionTimes clamp = Inr ds \<and>
    diffs_ok base key (\<lambda>t. rateAt es t - actualRateAt rs t) lo hi ds"
proof -
  let ?xs = "boundaries es rs revisionTimes" and ?pts = "base_points es rs"
  define delta where "delta = (\<lambda>t. rateAt es t - actualRateAt rs t)"
  have ros: "rows_on_seconds base rs" "unique_cover rs" using set by (auto simp: exact_setting_def rows_ok_def disjoint_rows_unique)
  have mem: "Piece_StartTime p \<in> set ?xs" "Piece_EndTime p \<in> set ?xs" if "p \<in> set es" for p
    using that by (simp_all add: set_boundaries set_base_points)
  have memr: "Row_StartTime r \<in> set ?xs" "Row_EndTime r \<in> set ?xs" if "r \<in> set rs" for r
    using that by (simp_all add: set_boundaries set_base_points)
  have const: "delta t = delta a" if "\<And>s e. s \<in> set ?xs \<Longrightarrow> e \<in> set ?xs \<Longrightarrow> s \<le> t \<and> t < e \<longleftrightarrow> s \<le> a \<and> a < e" for a t
    unfolding delta_def using rateAt_constant [of es t a] actualRateAt_constant [OF ros, of t a] mem memr that unfolding covers_def by simp
  show ?thesis
  proof (cases "?pts = []")
    case True
    then have "es = []" "rs = []" using set_base_points [of es rs] by auto
    then show ?thesis using True by (simp add: diff_eq diffs_ok_def rateAt_def actualRateAt_def covering_def)
  next
    case False
    have ne: "?xs \<noteq> []" using False set_boundaries [of es rs revisionTimes] by auto
    have sec: "\<forall>x\<in>set ?xs. on_seconds base x \<and> lo \<le> x \<and> x \<le> hi"
    proof
      fix x assume x: "x \<in> set ?xs"
      have "hd ?pts \<in> set ?pts" "last ?pts \<in> set ?pts" using False by simp_all
      then have "lo \<le> hd ?pts" "last ?pts \<le> hi" using set by (simp_all add: exact_setting_def)
      then have "lo \<le> x \<and> x \<le> hi" using x set by (auto simp: set_boundaries set_splits exact_setting_def)
      then show "on_seconds base x \<and> lo \<le> x \<and> x \<le> hi"
        using boundaries_on_seconds [OF _ revs x False] set by (simp add: exact_setting_def)
    qed
    have out: "delta t = 0" if "\<not> (hd ?xs \<le> t \<and> t < last ?xs)" for t
    proof -
      note o = outside_boundaries [OF boundaries_sorted that]
      have "rateAt es t = 0"
        by (rule rateAt_none) (use o mem in auto)
      moreover have "actualRateAt rs t = 0" by (rule actualRateAt_none [OF ros(1)]) (use o memr in \<open>auto simp: covers_def\<close>)
      ultimately show ?thesis by (simp add: delta_def)
    qed
    have start: "diffs_ok base key delta lo (hd ?xs) []" unfolding diffs_ok_def using out by auto
    have "\<exists>ds. efold (diff_step key es rs (diff_splits ?pts revisionTimes) clamp) [] (adj_pairs ?xs) = Inr ds \<and> diffs_ok base key delta lo (last ?xs) ds"
    proof (rule diff_fold_exact [OF set delta_def boundaries_sorted ne _ start])
      show "\<forall>(a, b)\<in>set (adj_pairs ?xs). \<forall>t. a \<le> t \<and> t < b \<longrightarrow> delta t = delta a"
        by (clarify, rule const, rule between_boundaries [OF boundaries_sorted])
    qed (use sec ne clamp in \<open>auto intro: order_trans\<close>)
    then obtain ds where ds: "diff key es rs revisionTimes clamp = Inr ds" "diffs_ok base key delta lo (last ?xs) ds"
      using False by (auto simp: diff_eq)
    have "diffs_ok base key delta lo hi ds" by (rule diffs_ok_later [OF ds(2)]) (use sec ne out in auto)
    then show ?thesis using ds(1) by (auto simp: delta_def)
  qed
qed

section \<open>Replay rebuilds the ledger\<close>

lemma outside_horizon:
  assumes "exact_setting base lo hi es rs" "t < lo \<or> hi \<le> t"
  shows "rateAt es t = 0 \<and> actualRateAt rs t = 0"
proof -
  have in_hor: "lo \<le> s \<and> s \<le> hi" if "s \<in> set (base_points es rs)" for s using assms(1) that by (simp add: exact_setting_def)
  have "\<not> (Piece_StartTime p \<le> t \<and> t < Piece_EndTime p)" if "p \<in> set es" for p
    using in_hor [of "Piece_StartTime p"] in_hor [of "Piece_EndTime p"] that assms(2) by (auto simp: set_base_points)
  moreover have "\<not> covers r t" if "r \<in> set rs" for r
    using in_hor [of "Row_StartTime r"] in_hor [of "Row_EndTime r"] that assms(2) by (auto simp: set_base_points covers_def)
  ultimately show ?thesis
    using rateAt_none [of es t] actualRateAt_none [of base rs t] assms(1) by (simp add: exact_setting_def rows_ok_def)
qed


text \<open>A heartbeat read back from the topic carries the interval and quantity of the difference it was built from.\<close>

definition carries_difference :: "difference \<Rightarrow> caught_heartbeat \<Rightarrow> bool" where
  "carries_difference d c \<longleftrightarrow> Caught_Key c = Diff_Key d \<and> Caught_Start c = Diff_Start d \<and> Caught_End c = Diff_End d \<and>
     Caught_QuantityMicro c = Diff_QuantityMicro d"

lemma replay_from:
  assumes ok: "diffs_ok base key (\<lambda>t. rateAt es t - actualRateAt rs t) lo hi (done @ ds)"
    and cs: "list_all2 carries_difference ds cs" and set: "exact_setting base lo hi es rs"
    and rows: "rows_ok base rows" "set (map Row_StartTime rows @ map Row_EndTime rows) \<subseteq> {lo..hi}"
    and rate: "\<forall>t. actualRateAt rows t = (if \<exists>d\<in>set done. spans d t then rateAt es t else actualRateAt rs t)"
  shows "\<exists>rows'. efold mergeIntoLedger rows cs = Inr rows' \<and> rows_ok base rows' \<and>
    (\<forall>t. actualRateAt rows' t = (if \<exists>d\<in>set (done @ ds). spans d t then rateAt es t else actualRateAt rs t))"
  using cs ok rows rate
proof (induction ds cs arbitrary: "done" rows rule: list_all2_induct)
  case (Cons d ds c cs)
  let ?delta = "\<lambda>t. rateAt es t - actualRateAt rs t"
  have d: "on_seconds base (Diff_Start d)" "on_seconds base (Diff_End d)" "Diff_Start d < Diff_End d" "lo \<le> Diff_Start d" "Diff_End d \<le> hi"
      "rat_of_int (Diff_QuantityMicro d) = Diff_DeltaRate d * of_int (micros (Diff_End d) (Diff_Start d))"
      "\<And>t. spans d t \<Longrightarrow> ?delta t = Diff_DeltaRate d"
    using Cons.prems(1) by (auto simp: diffs_ok_def)
  have c: "Caught_Start c = Diff_Start d" "Caught_End c = Diff_End d" "Caught_QuantityMicro c = Diff_QuantityMicro d"
    using Cons.hyps(1) by (simp_all add: carries_difference_def)
  have pos: "0 < micros (Diff_End d) (Diff_Start d)"
    using row_duration [of base "\<lparr>Row_Key = key, Row_StartTime = Diff_Start d, Row_EndTime = Diff_End d, Row_QuantityMicro = 0\<rparr>"] d by simp
  have cr: "caught_rate_at c t = (if spans d t then ?delta t else 0)" for t
    using d(6) d(7) [of t] pos by (simp add: caught_rate_at_def c spans_def)
  have "spans d (Diff_Start d)" using d(3) by (simp add: spans_def)
  then have "whole_rate (Diff_DeltaRate d)"
    using d(7) rateAt_whole_rate [of es] actualRateAt_whole set whole_rate_diff unfolding exact_setting_def by metis
  then have cok: "caught_ok base c" using d pos by (simp add: caught_ok_def c)
  have fresh: "\<not> (\<exists>d'\<in>set done. spans d' t)" if "spans d t" for t
    using Cons.prems(1) that by (fastforce simp: diffs_ok_def sorted_wrt_append spans_def)
  have sum: "actualRateAt rows t + caught_rate_at c t = (if \<exists>d'\<in>set (done @ [d]). spans d' t then rateAt es t else actualRateAt rs t)" for t
    using Cons.prems(4) fresh [of t] by (auto simp: cr)
  have fits: "fits_in lo hi (\<lambda>t. actualRateAt rows t + caught_rate_at c t)"
    unfolding sum using set by (simp add: fits_in_def exact_setting_def)
  have hor: "\<forall>p\<in>set (merge_points rows c). lo \<le> p \<and> p \<le> hi"
    using Cons.prems(3) d(3-5) by (fastforce simp: set_merge_points c)
  obtain mid where mid: "mergeIntoLedger rows c = Inr mid" "rows_ok base mid" "set (map Row_StartTime mid @ map Row_EndTime mid) \<subseteq> {lo..hi}"
      "\<forall>t. actualRateAt mid t = actualRateAt rows t + caught_rate_at c t"
    using merge_adds_rate [OF Cons.prems(2) cok _ _ hor fits] set unfolding exact_setting_def by blast
  have "\<exists>rows'. efold mergeIntoLedger mid cs = Inr rows' \<and> rows_ok base rows' \<and>
      (\<forall>t. actualRateAt rows' t = (if \<exists>d\<in>set ((done @ [d]) @ ds). spans d t then rateAt es t else actualRateAt rs t))"
    by (rule Cons.IH) (use Cons.prems(1) mid sum in simp_all)
  then show ?case using mid(1) by simp
qed simp


section \<open>The sample comparison, sent and replayed\<close>

lemma sample_rates:
  "rateAt [sample_piece] t = (if 86420000000000 \<le> t \<and> t < 86500000000000 then 5 else 0)"
  "actualRateAt [sample_row 86450000000000 150000000] t = (if 86420000000000 \<le> t \<and> t < 86450000000000 then 5 else 0)"
  by (simp_all add: rateAt_def actualRateAt_def covering_def sample_piece_def sample_row_def time_sub_def Microseconds_def)

lemma sample_setting: "exact_setting 0 86400000000000 86500000000000 [sample_piece] [sample_row 86450000000000 150000000]"
  unfolding exact_setting_def sample_points fits_in_def sample_rates rows_ok_def
  by (simp add: on_seconds_def whole_second_def in_span_def rows_on_seconds_def ledger_side.disjoint_spans_def time_sub_def
      Microseconds_def)
    (simp add: sample_row_def pieceRate_def time_sub_def Microseconds_def whole_rate_def exI [of _ 5000000])



end
