(* ===== verification/Topics.thy ===== *)
theory Topics
  imports Metering_Prelude "HOL-Library.Multiset"
begin

text \<open>
  The topic names the parts of the pipeline share: \<^verbatim>\<open>schema/topics.go\<close>, the metering service's
  \<^verbatim>\<open>internal/topics/topics.go\<close> and the adapters' \<^verbatim>\<open>internal/kafka/topics.go\<close>. What the
  brokers answer to listing their topics is the argument \<open>names\<close>, \<open>None\<close> when refreshing or listing failed.
\<close>

section \<open>Topic names\<close>

definition EventsPrefix :: string where "EventsPrefix = ''osac.events.''"
definition HeartbeatPrefix :: string where "HeartbeatPrefix = ''osac.metering.heartbeat.''"
definition DeadLetterPrefix :: string where "DeadLetterPrefix = ''osac.metering.dlq.''"

definition BuiltinTenant :: "string \<Rightarrow> bool" where
  "BuiltinTenant tenant \<longleftrightarrow> tenant = ''system'' \<or> tenant = ''shared''"

definition TenantOfTopic :: "string \<Rightarrow> string \<Rightarrow> string \<times> bool" where
  "TenantOfTopic topic pre =
     (if length topic \<le> length pre \<or> take (length pre) topic \<noteq> pre then ('''', False)
      else (drop (length pre) topic, True))"

definition Metered :: "string \<Rightarrow> bool" where
  "Metered tenant \<longleftrightarrow> \<not> BuiltinTenant tenant"

definition Topics_Events :: "string \<Rightarrow> string" where "Topics_Events tenant = EventsPrefix @ tenant"
definition Topics_Heartbeat :: "string \<Rightarrow> string" where "Topics_Heartbeat tenant = HeartbeatPrefix @ tenant"
definition DeadLetter :: "string \<Rightarrow> string" where "DeadLetter tenant = DeadLetterPrefix @ tenant"

definition TenantOfEvents :: "string \<Rightarrow> string \<times> bool" where "TenantOfEvents topic = TenantOfTopic topic EventsPrefix"
definition TenantOfHeartbeat :: "string \<Rightarrow> string \<times> bool" where "TenantOfHeartbeat topic = TenantOfTopic topic HeartbeatPrefix"
definition TenantOfDeadLetter :: "string \<Rightarrow> string \<times> bool" where "TenantOfDeadLetter topic = TenantOfTopic topic DeadLetterPrefix"

section \<open>The topics an adapter reads and writes\<close>

definition TopicInference :: string where "TopicInference = ''osac.metering.inference''"
definition InferenceDeadLetter :: string where "InferenceDeadLetter = ''osac.metering.inference.dlq''"

definition topicsWithPrefix :: "string list option \<Rightarrow> string \<Rightarrow> string list option" where
  "topicsWithPrefix names pre =
     map_option (\<lambda>ns. sort (filter (\<lambda>name. case TenantOfTopic name pre of (tenant, ok) \<Rightarrow> \<not> (\<not> ok \<or> BuiltinTenant tenant)) ns)) names"

definition HeartbeatTopics :: "string list option \<Rightarrow> string list option" where
  "HeartbeatTopics names = topicsWithPrefix names HeartbeatPrefix"

definition DeadLetterTopics :: "string list option \<Rightarrow> string list option" where
  "DeadLetterTopics names = topicsWithPrefix names DeadLetterPrefix"

definition AllDeadLetterTopics :: "string list option \<Rightarrow> string list option" where
  "AllDeadLetterTopics names = map_option (\<lambda>topics. topics @ [InferenceDeadLetter]) (DeadLetterTopics names)"

definition ConsumeTopics :: "string list option \<Rightarrow> string list option" where
  "ConsumeTopics names = map_option (\<lambda>topics. topics @ [TopicInference]) (HeartbeatTopics names)"

definition DeadLetterTopicOf :: "string \<Rightarrow> string" where
  "DeadLetterTopicOf source =
     (case TenantOfTopic source HeartbeatPrefix of
        (tenant, True) \<Rightarrow> DeadLetterPrefix @ tenant
      | (_, False) \<Rightarrow> if source = TopicInference then InferenceDeadLetter else source)"

definition sameTopics :: "string list \<Rightarrow> string list \<Rightarrow> bool" where
  "sameTopics a b \<longleftrightarrow> sort a = sort b"

lemmas topic_names = EventsPrefix_def HeartbeatPrefix_def DeadLetterPrefix_def TopicInference_def InferenceDeadLetter_def

lemma TenantOfTopic_iff: "TenantOfTopic topic pre = (tenant, True) \<longleftrightarrow> topic = pre @ tenant \<and> tenant \<noteq> ''''"
proof -
  have "topic = pre @ drop (length pre) topic" if "take (length pre) topic = pre" using that by (metis append_take_drop_id)
  then show ?thesis by (auto simp: TenantOfTopic_def)
qed

lemma TenantOfTopic_append: "tenant \<noteq> '''' \<Longrightarrow> TenantOfTopic (pre @ tenant) pre = (tenant, True)"
  by (simp add: TenantOfTopic_iff)

lemma topicsWithPrefix_set:
  "topicsWithPrefix names pre = Some topics \<Longrightarrow>
     set topics = {pre @ tenant |tenant. pre @ tenant \<in> set (the names) \<and> tenant \<noteq> '''' \<and> Metered tenant}"
proof -
  have "(case TenantOfTopic name pre of (tenant, ok) \<Rightarrow> \<not> (\<not> ok \<or> BuiltinTenant tenant)) \<longleftrightarrow>
      (\<exists>tenant. name = pre @ tenant \<and> tenant \<noteq> '''' \<and> Metered tenant)" for name
  proof (cases "TenantOfTopic name pre")
    case (Pair tenant ok)
    show ?thesis
    proof (cases ok)
      case True
      then show ?thesis using Pair TenantOfTopic_iff [of name pre tenant] by (auto simp: Metered_def TenantOfTopic_append)
    next
      case False
      then have "\<nexists>tenant. name = pre @ tenant \<and> tenant \<noteq> ''''" using Pair TenantOfTopic_append by fastforce
      then show ?thesis using Pair False by auto
    qed
  qed
  then show "topicsWithPrefix names pre = Some topics \<Longrightarrow> ?thesis" by (auto simp: topicsWithPrefix_def)
qed

lemma sameTopics_iff: "sameTopics a b \<longleftrightarrow> mset a = mset b"
proof
  show "mset a = mset b" if "sameTopics a b" using that mset_sort [of "\<lambda>x. x" a] mset_sort [of "\<lambda>x. x" b] by (simp add: sameTopics_def)
  show "sameTopics a b" if "mset a = mset b" unfolding sameTopics_def using that by (intro properties_for_sort) simp_all
qed

lemma ConsumeTopics_cases:
  assumes "ConsumeTopics names = Some topics" "source \<in> set topics"
  obtains "source = TopicInference" | tenant where "source = HeartbeatPrefix @ tenant" "tenant \<noteq> ''''" "Metered tenant"
  using assms topicsWithPrefix_set [of names HeartbeatPrefix] by (auto simp: ConsumeTopics_def HeartbeatTopics_def)

lemma DeadLetterTopicOf_heartbeat: "tenant \<noteq> '''' \<Longrightarrow> DeadLetterTopicOf (HeartbeatPrefix @ tenant) = DeadLetterPrefix @ tenant"
  by (simp add: DeadLetterTopicOf_def TenantOfTopic_append)

lemma DeadLetterTopicOf_inference: "DeadLetterTopicOf TopicInference = InferenceDeadLetter"
  by (simp add: DeadLetterTopicOf_def TenantOfTopic_def topic_names)

lemma consumed_target:
  assumes "ConsumeTopics names = Some topics" "source \<in> set topics"
  obtains "source = TopicInference" "DeadLetterTopicOf source = InferenceDeadLetter"
  | tenant where "source = HeartbeatPrefix @ tenant" "DeadLetterTopicOf source = DeadLetterPrefix @ tenant"
  using assms by (cases rule: ConsumeTopics_cases) (auto simp: DeadLetterTopicOf_heartbeat DeadLetterTopicOf_inference)

lemma topic_names_differ:
  "DeadLetterPrefix @ x \<noteq> HeartbeatPrefix @ y" "InferenceDeadLetter \<noteq> HeartbeatPrefix @ y" "TopicInference \<noteq> HeartbeatPrefix @ y"
  "InferenceDeadLetter \<noteq> DeadLetterPrefix @ y" "DeadLetterPrefix @ x \<noteq> TopicInference" "InferenceDeadLetter \<noteq> TopicInference"
  by (simp_all add: topic_names)

text \<open>
  C38: rejected records leave the consumed topics for good. The dead-letter topic of a consumed topic is not
  consumed itself, and two consumed topics never share one, so a rejected record neither comes back nor reaches
  another tenant.
\<close>

theorem dead_letters_leave_the_consumed_topics:
  assumes "ConsumeTopics names = Some topics"
  shows "inj_on DeadLetterTopicOf (set topics) \<and> DeadLetterTopicOf ` set topics \<inter> set topics = {}"
proof -
  have "DeadLetterTopicOf source \<noteq> other" if "source \<in> set topics" "other \<in> set topics" for source other
    using consumed_target [OF assms that(1)] consumed_target [OF assms that(2)] topic_names_differ by metis
  moreover have "a = b" if "a \<in> set topics" "b \<in> set topics" "DeadLetterTopicOf a = DeadLetterTopicOf b" for a b
    using consumed_target [OF assms that(1)] consumed_target [OF assms that(2)] that(3) topic_names_differ(4) by (metis same_append_eq)
  ultimately show ?thesis by (auto simp: inj_on_def)
qed

theorem dead_letters_leave_the_consumed_topics_witness:
  "ConsumeTopics (Some [''osac.metering.heartbeat.acme'', ''osac.metering.heartbeat.shared'', ''osac.events.acme'']) =
     Some [''osac.metering.heartbeat.acme'', ''osac.metering.inference''] \<and>
   ''osac.metering.dlq.acme'' \<notin> {''osac.metering.heartbeat.acme'', ''osac.metering.inference''}"
proof -
  have c: "ConsumeTopics (Some [''osac.metering.heartbeat.acme'', ''osac.metering.heartbeat.shared'', ''osac.events.acme'']) =
     Some [''osac.metering.heartbeat.acme'', ''osac.metering.inference'']" by code_simp
  have "DeadLetterTopicOf ''osac.metering.heartbeat.acme'' = ''osac.metering.dlq.acme''" by code_simp
  then show ?thesis using c dead_letters_leave_the_consumed_topics [OF c] by auto
qed

end
