(* ===== verification/Relay.thy ===== *)
theory Relay
  imports Metering_Store Topics
begin

text \<open>
  The relay of \<^verbatim>\<open>internal/relay/relay.go\<close>, which moves a tenant's outbox rows to its heartbeat
  topic. What a drain meets is the record \<open>drain_env\<close>: whether its transaction could begin, take the relay lock
  and read, what the Kafka producer answers to the \<open>i\<close>-th message of the batch, the offset it got or \<open>None\<close> when
  sending failed, and whether the removal was committed.
\<close>

section \<open>One drain\<close>

definition BatchSize :: nat where "BatchSize = 200"

record drain_env =
  Drain_Read :: bool
  Drain_Send :: "nat \<Rightarrow> int option"
  Drain_Commit :: bool

datatype relay_error = ReadFailed | WithoutProgress string | NotSent string | NotCommitted

record producer_message =
  Message_Topic :: string
  Message_Key :: string
  Message_Value :: heartbeat_event

definition outbox_message :: "string \<Rightarrow> outbox_row \<Rightarrow> producer_message" where
  "outbox_message topic row =
     \<lparr>Message_Topic = topic, Message_Key = Outbox_ID row, Message_Value = Outbox_Payload row\<rparr>"

text \<open>
  The sending loop. Its result is the messages Kafka confirmed, and the error of the send that failed or the offset
  of the first message and the offset after the last.
\<close>

fun send_rows :: "(nat \<Rightarrow> int option) \<Rightarrow> string \<Rightarrow> nat \<Rightarrow> outbox_row list \<Rightarrow> int \<Rightarrow> int \<Rightarrow>
    producer_message list \<times> (relay_error + int \<times> int)" where
  "send_rows answer topic i [] firstOffset lastOffset = ([], Inr (firstOffset, lastOffset))"
| "send_rows answer topic i (row # rows) firstOffset lastOffset =
     (case answer i of
        None \<Rightarrow> ([], Inl (NotSent (Outbox_ID row)))
      | Some offset \<Rightarrow>
          (let (sent, res) = send_rows answer topic (Suc i) rows (if firstOffset < 0 then offset else firstOffset)
                               (if offset + 1 > lastOffset then offset + 1 else lastOffset)
           in (outbox_message topic row # sent, res)))"

text \<open>A transaction that does not commit leaves the tables as they were, though its messages are on the topic.\<close>

definition drainOnce :: "drain_env \<Rightarrow> string \<Rightarrow> string \<Rightarrow> store \<Rightarrow>
    producer_message list \<times> (relay_error + nat) \<times> store" where
  "drainOnce env tenant topic s =
     (if \<not> Drain_Read env then ([], Inl ReadFailed, s)
      else let rows = NextOutbox s tenant BatchSize in
      if rows = [] then ([], Inr 0, s)
      else case GetProgress s tenant of
        None \<Rightarrow> ([], Inl (WithoutProgress tenant), s)
      | Some prog \<Rightarrow>
          (let (sent, res) = send_rows (Drain_Send env) topic 0 rows (- 1) 0 in
           case res of
             Inl e \<Rightarrow> (sent, Inl e, s)
           | Inr (firstOffset, lastOffset) \<Rightarrow>
               (let s1 = DeleteOutbox tenant (map Outbox_Seq rows) s;
                    s' = (if firstOffset = HeartbeatOffset prog \<and> lastOffset > HeartbeatOffset prog
                          then AdvanceHeartbeatOffset tenant lastOffset s1 else s1)
                in if \<not> Drain_Commit env then (sent, Inl NotCommitted, s) else (sent, Inr (length rows), s'))))"

text \<open>
  The loop of \<^verbatim>\<open>RunTenant\<close>, one drain after another, with the rounds that enqueue heartbeats of the
  tenant in between.
\<close>

datatype relay_step = Drain drain_env | Enqueue "(string \<times> heartbeat_event \<times> time) list"

fun relay_loop :: "string \<Rightarrow> relay_step list \<Rightarrow> store \<Rightarrow> producer_message list \<times> store" where
  "relay_loop tenant [] s = ([], s)"
| "relay_loop tenant (Enqueue rows # steps) s = relay_loop tenant steps (EnqueueHeartbeats tenant rows s)"
| "relay_loop tenant (Drain env # steps) s =
     (let (sent, res, s') = drainOnce env tenant (Topics_Heartbeat tenant) s; (more, s'') = relay_loop tenant steps s'
      in (sent @ more, s''))"

definition RunTenant :: "string \<Rightarrow> relay_step list \<Rightarrow> store \<Rightarrow> producer_message list \<times> store" where
  "RunTenant tenant steps s = relay_loop tenant steps (EnsureProgress tenant s)"

section \<open>What a drain sends and removes\<close>

lemma NextOutbox_rows:
  fixes tenant :: string and limit :: nat
  assumes "tables_ok s"
  defines "rows \<equiv> NextOutbox s tenant limit"
  shows "sorted_wrt (\<lambda>r r'. Outbox_Seq r < Outbox_Seq r') rows"
    and "length rows = min limit (OutboxDepth s tenant)"
    and "set rows \<subseteq> {r \<in> set (outbox s). Outbox_Tenant r = tenant}"
    and "\<And>r r'. r \<in> set (outbox s) \<Longrightarrow> Outbox_Tenant r = tenant \<Longrightarrow> r \<notin> set rows \<Longrightarrow> r' \<in> set rows \<Longrightarrow> Outbox_Seq r' < Outbox_Seq r"
proof -
  let ?mine = "filter (\<lambda>r. Outbox_Tenant r = tenant) (outbox s)"
  let ?all = "sort_key Outbox_Seq ?mine"
  have "distinct (map Outbox_Seq ?mine)" using assms(1) by (simp add: tables_ok_def distinct_map_filter)
  then have d: "distinct (map Outbox_Seq ?all)" by (metis distinct_map distinct_sort set_sort)
  then have all: "sorted_wrt (\<lambda>r r'. Outbox_Seq r < Outbox_Seq r') ?all"
  proof -
    have "sorted_wrt (<) (map Outbox_Seq ?all)" using d by (simp add: strict_sorted_iff)
    then show ?thesis by (simp add: sorted_wrt_map)
  qed
  have rows: "rows = take limit ?all" by (simp add: rows_def NextOutbox_def)
  show "sorted_wrt (\<lambda>r r'. Outbox_Seq r < Outbox_Seq r') rows" using all by (simp add: rows sorted_wrt_take)
  show "length rows = min limit (OutboxDepth s tenant)" by (simp add: rows OutboxDepth_def min.commute)
  show "set rows \<subseteq> {r \<in> set (outbox s). Outbox_Tenant r = tenant}" using set_take_subset [of limit ?all] by (auto simp: rows)
  show "Outbox_Seq r' < Outbox_Seq r"
    if "r \<in> set (outbox s)" "Outbox_Tenant r = tenant" "r \<notin> set rows" "r' \<in> set rows" for r r'
  proof -
    have "r \<in> set ?all" using that(1,2) by simp
    then have "r \<in> set (take limit ?all) \<union> set (drop limit ?all)" by (metis append_take_drop_id set_append)
    then have "r \<in> set (drop limit ?all)" using that(3) unfolding rows by blast
    moreover have "sorted_wrt (\<lambda>r r'. Outbox_Seq r < Outbox_Seq r') (take limit ?all @ drop limit ?all)" using all by simp
    ultimately show ?thesis using that(4) unfolding sorted_wrt_append rows by blast
  qed
qed

lemma send_rows_sent:
  "send_rows answer topic i rows a b = (sent, res) \<Longrightarrow>
     \<exists>k \<le> length rows. sent = map (outbox_message topic) (take k rows) \<and> (\<forall>j < k. answer (i + j) \<noteq> None) \<and>
       (case res of Inl e \<Rightarrow> k < length rows \<and> answer (i + k) = None | Inr _ \<Rightarrow> k = length rows)"
proof (induction rows arbitrary: i a b sent)
  case (Cons row rows)
  show ?case
  proof (cases "answer i")
    case None
    then show ?thesis using Cons.prems by (auto intro!: exI [of _ 0])
  next
    case (Some x)
    then obtain more a' b' where m: "send_rows answer topic (Suc i) rows a' b' = (more, res)" "sent = outbox_message topic row # more"
      using Cons.prems by (auto split: prod.splits)
    from Cons.IH [OF m(1)] obtain k where k: "k \<le> length rows" "more = map (outbox_message topic) (take k rows)"
      "\<forall>j < k. answer (Suc i + j) \<noteq> None"
      "case res of Inl e \<Rightarrow> k < length rows \<and> answer (Suc i + k) = None | Inr _ \<Rightarrow> k = length rows" by blast
    moreover have "\<forall>j < Suc k. answer (i + j) \<noteq> None" using k(3) Some by (auto simp: less_Suc_eq_0_disj)
    ultimately show ?thesis using m(2) by (intro exI [of _ "Suc k"]) (auto split: sum.splits)
  qed
qed auto

lemma send_rows_consecutive:
  assumes "0 \<le> base" "\<forall>k < length rows. answer (i + k) = Some (base + int k)"
  shows "snd (send_rows answer topic i rows a b) =
    Inr (if rows \<noteq> [] \<and> a < 0 then base else a, if rows = [] then b else max b (base + int (length rows)))"
  using assms
proof (induction rows arbitrary: i a b base)
  case (Cons row rows)
  have head: "answer i = Some base" using Cons.prems(2) [rule_format, of 0] by simp
  have "\<forall>k < length rows. answer (Suc i + k) = Some (base + 1 + int k)"
    using Cons.prems(2) [rule_format, of "Suc k" for k] by auto
  then show ?case using Cons.IH [of "base + 1" "Suc i"] Cons.prems(1) head by (simp add: case_prod_unfold max_def)
qed simp

lemma outbox_after:
  assumes "tables_ok s" "set rows \<subseteq> {r \<in> set (outbox s). Outbox_Tenant r = tenant}"
  shows "outbox (DeleteOutbox tenant (map Outbox_Seq rows) s) = filter (\<lambda>r. r \<notin> set rows) (outbox s)"
proof -
  have inj: "inj_on Outbox_Seq (set (outbox s))" using assms(1) by (simp add: tables_ok_def distinct_map)
  have "(Outbox_Tenant r = tenant \<and> Outbox_Seq r \<in> set (map Outbox_Seq rows)) \<longleftrightarrow> r \<in> set rows" if "r \<in> set (outbox s)" for r
    using that assms(2) inj by (auto simp: inj_on_def)
  then show ?thesis by (auto simp: DeleteOutbox_def intro: filter_cong)
qed

lemma AdvanceHeartbeatOffset_outbox [simp]: "outbox (AdvanceHeartbeatOffset tenant n s) = outbox s"
  by (simp add: AdvanceHeartbeatOffset_def)

lemma drainOnce_cases:
  assumes "drainOnce env tenant topic s = (sent, res, s')"
  obtains (unread) "\<not> Drain_Read env" "sent = []" "res = Inl ReadFailed" "s' = s"
  | (idle) "NextOutbox s tenant BatchSize = []" "sent = []" "res = Inr 0" "s' = s"
  | (unknown) "GetProgress s tenant = None" "sent = []" "s' = s" "res = Inl (WithoutProgress tenant)"
  | (failed) e where "send_rows (Drain_Send env) topic 0 (NextOutbox s tenant BatchSize) (- 1) 0 = (sent, Inl e)" "res = Inl e" "s' = s"
  | (uncommitted) f l where "\<not> Drain_Commit env" "send_rows (Drain_Send env) topic 0 (NextOutbox s tenant BatchSize) (- 1) 0 = (sent, Inr (f, l))"
      "res = Inl NotCommitted" "s' = s"
  | (drained) prog f l where "NextOutbox s tenant BatchSize \<noteq> []" "GetProgress s tenant = Some prog"
      "send_rows (Drain_Send env) topic 0 (NextOutbox s tenant BatchSize) (- 1) 0 = (sent, Inr (f, l))"
      "res = Inr (length (NextOutbox s tenant BatchSize))"
      "s' = (let s1 = DeleteOutbox tenant (map Outbox_Seq (NextOutbox s tenant BatchSize)) s
             in if f = HeartbeatOffset prog \<and> l > HeartbeatOffset prog then AdvanceHeartbeatOffset tenant l s1 else s1)"
proof (cases "Drain_Read env \<and> NextOutbox s tenant BatchSize \<noteq> []")
  case False
  show ?thesis
  proof (cases "Drain_Read env")
    case True
    then show ?thesis using idle assms False by (simp add: drainOnce_def)
  next
    case False
    then show ?thesis using unread assms by (simp add: drainOnce_def)
  qed
next
  case True
  show ?thesis
  proof (cases "GetProgress s tenant")
    case None
    then show ?thesis using unknown assms True by (simp add: drainOnce_def)
  next
    case (Some prog)
    obtain msgs r where sr: "send_rows (Drain_Send env) topic 0 (NextOutbox s tenant BatchSize) (- 1) 0 = (msgs, r)" by fastforce
    show ?thesis
    proof (cases r)
      case (Inl e)
      then show ?thesis using failed assms True Some sr by (simp add: drainOnce_def)
    next
      case (Inr fl)
      then obtain f l where "r = Inr (f, l)" by (cases fl) simp
      then show ?thesis using uncommitted [of f l] drained [of prog f l] assms True Some sr
        by (cases "Drain_Commit env") (simp_all add: drainOnce_def Let_def)
    qed
  qed
qed

lemma drain_result:
  assumes "tables_ok s" "drainOnce env tenant topic s = (sent, res, s')"
  defines "rows \<equiv> NextOutbox s tenant BatchSize"
  shows "case res of
        Inl e \<Rightarrow> s' = s \<and> (\<exists>k. sent = map (outbox_message topic) (take k rows))
      | Inr n \<Rightarrow> n = length rows \<and> sent = map (outbox_message topic) rows \<and> outbox s' = filter (\<lambda>r. r \<notin> set rows) (outbox s)"
  using assms(2)
proof (cases rule: drainOnce_cases)
  case (failed e)
  from send_rows_sent [OF failed(1)] obtain k where "sent = map (outbox_message topic) (take k rows)" by (auto simp: rows_def)
  with failed(2,3) show ?thesis by auto
next
  case (uncommitted f l)
  from send_rows_sent [OF uncommitted(2)] have "sent = map (outbox_message topic) (take (length rows) rows)" by (auto simp: rows_def)
  with uncommitted(3,4) show ?thesis by (simp only: sum.case) blast
next
  case (drained prog f l)
  from send_rows_sent [OF drained(3)] have "sent = map (outbox_message topic) rows" by (auto simp: rows_def)
  with drained(4,5) outbox_after [OF assms(1) NextOutbox_rows(3) [OF assms(1), where tenant = tenant and limit = BatchSize]]
  show ?thesis by (simp add: Let_def rows_def)
qed (auto simp: rows_def)

text \<open>
  The relay sends the oldest heartbeats first and forgets only what Kafka confirmed. A drain that succeeds
  put on the topic, in order, the tenant's up to two hundred oldest outbox rows, and removed exactly these. A drain
  that fails removes nothing, and what it sent is a beginning of what the next drain sends again.
\<close>

lemma drain_removes_what_it_sent:
  assumes "tables_ok s" "drainOnce env tenant topic s = (sent, res, s')"
  shows "\<exists>rows. sorted_wrt (\<lambda>r r'. Outbox_Seq r < Outbox_Seq r') rows \<and> length rows = min 200 (OutboxDepth s tenant) \<and>
     set rows \<subseteq> {r \<in> set (outbox s). Outbox_Tenant r = tenant} \<and>
     (\<forall>r\<in>{r \<in> set (outbox s). Outbox_Tenant r = tenant} - set rows. \<forall>r'\<in>set rows. Outbox_Seq r' < Outbox_Seq r) \<and>
     (case res of
        Inl e \<Rightarrow> s' = s \<and> (\<exists>k. sent = map (outbox_message topic) (take k rows))
      | Inr n \<Rightarrow> n = length rows \<and> sent = map (outbox_message topic) rows \<and> outbox s' = filter (\<lambda>r. r \<notin> set rows) (outbox s))"
proof -
  let ?rows = "NextOutbox s tenant BatchSize"
  note rows = NextOutbox_rows [OF assms(1), where tenant = tenant and limit = BatchSize]
  have oldest: "\<forall>r\<in>{r \<in> set (outbox s). Outbox_Tenant r = tenant} - set ?rows. \<forall>r'\<in>set ?rows. Outbox_Seq r' < Outbox_Seq r"
    using rows(4) by blast
  have "length ?rows = min 200 (OutboxDepth s tenant)" using rows(2) by (simp add: BatchSize_def)
  then show ?thesis by (intro exI [of _ ?rows] conjI rows(1) rows(3) oldest drain_result [OF assms])
qed

section \<open>The loop loses nothing\<close>

lemma enqueue_one_outbox:
  "set (outbox s) \<subseteq> set (outbox (enqueue_one tenant row s))"
  "fst row \<in> Outbox_ID ` set (outbox (enqueue_one tenant row s))"
  "r \<in> set (outbox (enqueue_one tenant row s)) \<Longrightarrow> r \<in> set (outbox s) \<or>
     (Outbox_Tenant r = tenant \<and> (Outbox_ID r, Outbox_Payload r, Outbox_RoundTime r) = row)"
proof -
  obtain id payload t where row: "row = (id, payload, t)" by (cases row)
  show "set (outbox s) \<subseteq> set (outbox (enqueue_one tenant row s))" by (auto simp: row enqueue_one_def Let_def)
  show "fst row \<in> Outbox_ID ` set (outbox (enqueue_one tenant row s))" by (simp add: row enqueue_one_def Let_def)
  show "r \<in> set (outbox s) \<or> (Outbox_Tenant r = tenant \<and> (Outbox_ID r, Outbox_Payload r, Outbox_RoundTime r) = row)"
    if "r \<in> set (outbox (enqueue_one tenant row s))"
    using that by (auto simp: row enqueue_one_def Let_def split: if_splits)
qed

lemma EnqueueHeartbeats_outbox:
  shows EnqueueHeartbeats_keeps: "set (outbox s) \<subseteq> set (outbox (EnqueueHeartbeats tenant rows s))"
    and EnqueueHeartbeats_adds: "fst ` set rows \<subseteq> Outbox_ID ` set (outbox (EnqueueHeartbeats tenant rows s))"
    and EnqueueHeartbeats_origin: "r \<in> set (outbox (EnqueueHeartbeats tenant rows s)) \<Longrightarrow> r \<in> set (outbox s) \<or>
     (Outbox_Tenant r = tenant \<and> (Outbox_ID r, Outbox_Payload r, Outbox_RoundTime r) \<in> set rows)"
proof -
  have keep: "set (outbox s) \<subseteq> set (outbox (fold (enqueue_one tenant) rows s))" for s rows
    by (induction rows arbitrary: s) (auto dest: enqueue_one_outbox(1) [THEN subsetD])
  then show "set (outbox s) \<subseteq> set (outbox (EnqueueHeartbeats tenant rows s))" by (simp add: EnqueueHeartbeats_def)
  have "fst ` set rows \<subseteq> Outbox_ID ` set (outbox (fold (enqueue_one tenant) rows s))"
  proof (induction rows arbitrary: s)
    case (Cons row rows)
    have "fst row \<in> Outbox_ID ` set (outbox (fold (enqueue_one tenant) rows (enqueue_one tenant row s)))"
      using enqueue_one_outbox(2) [of row tenant s] keep [of "enqueue_one tenant row s" rows] by blast
    then show ?case using Cons by simp
  qed simp
  then show "fst ` set rows \<subseteq> Outbox_ID ` set (outbox (EnqueueHeartbeats tenant rows s))" by (simp add: EnqueueHeartbeats_def)
  show "r \<in> set (outbox s) \<or> (Outbox_Tenant r = tenant \<and> (Outbox_ID r, Outbox_Payload r, Outbox_RoundTime r) \<in> set rows)"
    if "r \<in> set (outbox (EnqueueHeartbeats tenant rows s))"
    using that unfolding EnqueueHeartbeats_def
  proof (induction rows arbitrary: s)
    case (Cons row rows)
    from Cons.IH [of "enqueue_one tenant row s"] Cons.prems
    consider "r \<in> set (outbox (enqueue_one tenant row s))"
      | "Outbox_Tenant r = tenant" "(Outbox_ID r, Outbox_Payload r, Outbox_RoundTime r) \<in> set rows" by auto
    then show ?case by cases (auto dest: enqueue_one_outbox(3))
  qed simp
qed

lemma drain_step:
  assumes "tables_ok s" "drainOnce env tenant topic s = (sent, res, s')"
  shows "tables_ok s'" "set (outbox s') \<subseteq> set (outbox s)"
    "r \<in> set (outbox s) \<Longrightarrow> r \<in> set (outbox s') \<or> (Outbox_Tenant r = tenant \<and> outbox_message topic r \<in> set sent)"
    "m \<in> set sent \<Longrightarrow> \<exists>r\<in>set (outbox s). Outbox_Tenant r = tenant \<and> m = outbox_message topic r"
proof -
  show "tables_ok s'" using assms(2) by (cases rule: drainOnce_cases) (simp_all add: Let_def assms(1))
  note rows = NextOutbox_rows(3) [OF assms(1), where tenant = tenant and limit = BatchSize] drain_result [OF assms]
  show "set (outbox s') \<subseteq> set (outbox s)" using rows by (auto split: sum.splits)
  show "r \<in> set (outbox s') \<or> (Outbox_Tenant r = tenant \<and> outbox_message topic r \<in> set sent)" if "r \<in> set (outbox s)"
    using rows that by (auto split: sum.splits)
  show "\<exists>r\<in>set (outbox s). Outbox_Tenant r = tenant \<and> m = outbox_message topic r" if "m \<in> set sent"
    using rows that by (force split: sum.splits dest: in_set_takeD)
qed

fun enqueued :: "relay_step list \<Rightarrow> (string \<times> heartbeat_event \<times> time) list" where
  "enqueued [] = []"
| "enqueued (Enqueue rows # steps) = rows @ enqueued steps"
| "enqueued (Drain env # steps) = enqueued steps"

lemma relay_loop_Drain:
  assumes "relay_loop tenant (Drain env # steps) s = (sent, s')"
  obtains sent1 res s1 more where "drainOnce env tenant (Topics_Heartbeat tenant) s = (sent1, res, s1)"
    "relay_loop tenant steps s1 = (more, s')" "sent = sent1 @ more"
  using assms by (auto split: prod.splits)

lemma relay_loop_keeps_rows:
  assumes "tables_ok s" "relay_loop tenant steps s = (sent, s')" "r \<in> set (outbox s)"
  shows "r \<in> set (outbox s') \<or> Outbox_Tenant r = tenant \<and> outbox_message (Topics_Heartbeat tenant) r \<in> set sent"
  using assms
proof (induction steps arbitrary: s sent)
  case (Cons step steps)
  show ?case
  proof (cases step)
    case (Drain env)
    obtain sent1 res s1 more where d: "drainOnce env tenant (Topics_Heartbeat tenant) s = (sent1, res, s1)"
      "relay_loop tenant steps s1 = (more, s')" "sent = sent1 @ more"
      by (rule relay_loop_Drain [OF Cons.prems(2) [unfolded Drain]])
    note drain = drain_step [OF Cons.prems(1) d(1)]
    show ?thesis using drain(3) [OF Cons.prems(3)] Cons.IH [OF drain(1) d(2)] d(3) by auto
  next
    case (Enqueue rows)
    have "r \<in> set (outbox (EnqueueHeartbeats tenant rows s))" using Cons.prems(3) EnqueueHeartbeats_keeps by blast
    then show ?thesis using Cons.IH [of "EnqueueHeartbeats tenant rows s"] Cons.prems(1,2) Enqueue by simp
  qed
qed simp

lemma relay_loop_takes_enqueued:
  assumes "tables_ok s" "relay_loop tenant steps s = (sent, s')" "row \<in> set (enqueued steps)"
  shows "fst row \<in> Outbox_ID ` set (outbox s') \<union> Message_Key ` set sent"
  using assms
proof (induction steps arbitrary: s sent)
  case (Cons step steps)
  show ?case
  proof (cases step)
    case (Drain env)
    obtain sent1 res s1 more where d: "drainOnce env tenant (Topics_Heartbeat tenant) s = (sent1, res, s1)"
      "relay_loop tenant steps s1 = (more, s')" "sent = sent1 @ more"
      by (rule relay_loop_Drain [OF Cons.prems(2) [unfolded Drain]])
    show ?thesis using Cons.IH [OF drain_step(1) [OF Cons.prems(1) d(1)] d(2)] Cons.prems(3) Drain d(3) by auto
  next
    case (Enqueue rows)
    let ?s = "EnqueueHeartbeats tenant rows s"
    have run: "tables_ok ?s" "relay_loop tenant steps ?s = (sent, s')" using Cons.prems(1,2) Enqueue by simp_all
    show ?thesis
    proof (cases "row \<in> set rows")
      case True
      then have "fst row \<in> Outbox_ID ` set (outbox ?s)" using EnqueueHeartbeats_adds [of rows tenant s] by blast
      then obtain r where "r \<in> set (outbox ?s)" "Outbox_ID r = fst row" by auto
      then show ?thesis using relay_loop_keeps_rows [OF run] by (force simp: outbox_message_def)
    next
      case False
      then show ?thesis using Cons.IH [OF run] Cons.prems(3) Enqueue by simp
    qed
  qed
qed simp

lemma relay_loop_sends_rows_only:
  assumes "tables_ok s" "relay_loop tenant steps s = (sent, s')" "m \<in> set sent"
  shows "Message_Topic m = Topics_Heartbeat tenant \<and>
    ((\<exists>r\<in>set (outbox s). Outbox_Tenant r = tenant \<and> Message_Key m = Outbox_ID r \<and> Message_Value m = Outbox_Payload r) \<or>
     (\<exists>t. (Message_Key m, Message_Value m, t) \<in> set (enqueued steps)))"
  using assms
proof (induction steps arbitrary: s sent)
  case (Cons step steps)
  show ?case
  proof (cases step)
    case (Drain env)
    obtain sent1 res s1 more where d: "drainOnce env tenant (Topics_Heartbeat tenant) s = (sent1, res, s1)"
      "relay_loop tenant steps s1 = (more, s')" "sent = sent1 @ more"
      by (rule relay_loop_Drain [OF Cons.prems(2) [unfolded Drain]])
    note drain = drain_step [OF Cons.prems(1) d(1)]
    show ?thesis
    proof (cases "m \<in> set sent1")
      case True
      then show ?thesis using drain(4) by (fastforce simp: outbox_message_def)
    next
      case False
      then show ?thesis using Cons.IH [OF drain(1) d(2)] Cons.prems(3) drain(2) Drain d(3) by auto
    qed
  next
    case (Enqueue rows)
    let ?s = "EnqueueHeartbeats tenant rows s"
    have run: "tables_ok ?s" "relay_loop tenant steps ?s = (sent, s')" using Cons.prems(1,2) Enqueue by simp_all
    show ?thesis using Cons.IH [OF run Cons.prems(3)] Enqueue by (auto dest!: EnqueueHeartbeats_origin)
  qed
qed simp

lemma tables_ok_EnsureProgress: "tables_ok s \<Longrightarrow> tables_ok (EnsureProgress tenant s)"
  by (rule tables_ok_operations(1))

lemma EnsureProgress_outbox [simp]: "outbox (EnsureProgress tenant s) = outbox s"
  by (simp add: EnsureProgress_def)

lemma EnsureProgress_present: "\<exists>prog. GetProgress (EnsureProgress tenant s) tenant = Some prog"
  by (auto simp: EnsureProgress_def GetProgress_def map_add_def)

text \<open>
  C6: no heartbeat is lost between the round and the topic, and none is made up. However the drains answer, fail
  and interleave with the rounds that enqueue, each row that was in the outbox is still there or its message was
  confirmed on the tenant's heartbeat topic, and so is each heartbeat enqueued meanwhile, by its identifier; and
  each message sent is a row of this tenant's outbox.
\<close>

theorem relay_loses_nothing:
  assumes "tables_ok s" "RunTenant tenant steps s = (sent, s')"
  shows "(\<forall>r\<in>set (outbox s). r \<in> set (outbox s') \<or>
           Outbox_Tenant r = tenant \<and> outbox_message (Topics_Heartbeat tenant) r \<in> set sent) \<and>
     (\<forall>row\<in>set (enqueued steps). fst row \<in> Outbox_ID ` set (outbox s') \<union> Message_Key ` set sent) \<and>
     (\<forall>m\<in>set sent. Message_Topic m = Topics_Heartbeat tenant \<and>
        ((\<exists>r\<in>set (outbox s). Outbox_Tenant r = tenant \<and> Message_Key m = Outbox_ID r \<and> Message_Value m = Outbox_Payload r) \<or>
         (\<exists>t. (Message_Key m, Message_Value m, t) \<in> set (enqueued steps))))"
proof -
  note run = tables_ok_EnsureProgress [OF assms(1)] assms(2) [unfolded RunTenant_def]
  show ?thesis
    using relay_loop_keeps_rows [OF run] relay_loop_takes_enqueued [OF run] relay_loop_sends_rows_only [OF run]
    by (intro conjI ballI) simp_all
qed

section \<open>The heartbeat offset and the depth of the outbox\<close>

lemma drain_consecutive:
  assumes "GetProgress s tenant = Some prog" "0 \<le> base" "\<forall>k < BatchSize. Drain_Send env k = Some (base + int k)"
    "Drain_Read env" "Drain_Commit env" "NextOutbox s tenant BatchSize \<noteq> []"
  defines "rows \<equiv> NextOutbox s tenant BatchSize"
  shows "snd (drainOnce env tenant topic s) = (Inr (length rows),
    let s1 = DeleteOutbox tenant (map Outbox_Seq rows) s
    in if base = HeartbeatOffset prog then AdvanceHeartbeatOffset tenant (base + int (length rows)) s1 else s1)"
proof -
  have "length rows \<le> BatchSize" by (simp add: rows_def NextOutbox_def)
  then have "snd (send_rows (Drain_Send env) topic 0 rows (- 1) 0) = Inr (base, base + int (length rows))"
    using send_rows_consecutive [OF assms(2), of rows "Drain_Send env" 0 topic "- 1" 0] assms(2,3,6) by (simp add: rows_def max_def)
  then show ?thesis using assms(1,4-6) by (auto simp: drainOnce_def rows_def Let_def split: prod.splits)
qed

text \<open>
  C33: the heartbeat offset counts the heartbeats the ledger already has. When Kafka gives the messages of a drain
  consecutive offsets from some base on and the database commits, the drain succeeds, and the tenant's heartbeat offset moves past exactly
  the drained messages if the base is where the offset stands, and stays where it is if records lie between, so
  that catch-up still reads them. No other tenant's progress moves.
\<close>

theorem drain_moves_offset_over_its_own:
  assumes "tables_ok s" "GetProgress s tenant = Some prog" "0 \<le> base" "\<forall>k < 200. Drain_Send env k = Some (base + int k)"
    "Drain_Read env" "Drain_Commit env" "drainOnce env tenant topic s = (sent, res, s')"
  shows "res = Inr (min 200 (OutboxDepth s tenant)) \<and> length sent = min 200 (OutboxDepth s tenant) \<and>
    GetProgress s' tenant = Some (prog\<lparr>HeartbeatOffset :=
      if base = HeartbeatOffset prog then base + int (length sent) else HeartbeatOffset prog\<rparr>) \<and>
    (\<forall>other. other \<noteq> tenant \<longrightarrow> GetProgress s' other = GetProgress s other)"
proof -
  let ?rows = "NextOutbox s tenant BatchSize"
  have len: "length ?rows = min 200 (OutboxDepth s tenant)" using NextOutbox_rows(2) [OF assms(1)] by (simp add: BatchSize_def)
  show ?thesis
  proof (cases "?rows = []")
    case True
    then have "sent = []" "res = Inr 0" "s' = s" using assms(5,7) by (simp_all add: drainOnce_def)
    then show ?thesis using assms(2) True len by simp
  next
    case False
    have answers: "\<forall>k < BatchSize. Drain_Send env k = Some (base + int k)" using assms(4) by (simp add: BatchSize_def)
    have result: "res = Inr (length ?rows)" "s' = (let s1 = DeleteOutbox tenant (map Outbox_Seq ?rows) s
        in if base = HeartbeatOffset prog then AdvanceHeartbeatOffset tenant (base + int (length ?rows)) s1 else s1)"
      using drain_consecutive [OF assms(2,3) answers assms(5,6) False, of topic] assms(7) by simp_all
    have sent: "length sent = length ?rows" using drain_result [OF assms(1,7)] result(1) by simp
    have same: "GetProgress (DeleteOutbox tenant seqs s) = GetProgress s" for seqs
      by (simp add: GetProgress_def DeleteOutbox_def fun_eq_iff)
    show ?thesis using result sent len assms(2)
      by (auto simp: Let_def AdvanceHeartbeatOffset_def GetProgress_update same split: if_splits)
  qed
qed

lemma length_filter_split: "length (filter P xs) = length (filter (\<lambda>x. P x \<and> Q x) xs) + length (filter (\<lambda>x. P x \<and> \<not> Q x) xs)"
  by (induction xs) auto

lemma drain_depth:
  assumes "tables_ok s" "drainOnce env tenant topic s = (sent, Inr n, s')"
  shows "OutboxDepth s' tenant = OutboxDepth s tenant - 200"
proof -
  let ?rows = "NextOutbox s tenant BatchSize"
  note rows = NextOutbox_rows [OF assms(1), where tenant = tenant and limit = BatchSize]
  have gone: "outbox s' = filter (\<lambda>r. r \<notin> set ?rows) (outbox s)" using drain_result [OF assms] by simp
  have "distinct (outbox s)" using assms(1) by (auto simp: tables_ok_def distinct_map)
  moreover have "distinct ?rows"
  proof -
    have "sorted_wrt (<) (map Outbox_Seq ?rows)" using rows(1) by (simp add: sorted_wrt_map)
    then show ?thesis by (simp add: strict_sorted_iff distinct_map)
  qed
  moreover have "set (filter (\<lambda>r. Outbox_Tenant r = tenant \<and> r \<in> set ?rows) (outbox s)) = set ?rows" using rows(3) by auto
  ultimately have "length (filter (\<lambda>r. Outbox_Tenant r = tenant \<and> r \<in> set ?rows) (outbox s)) = length ?rows"
    using distinct_card [of "filter (\<lambda>r. Outbox_Tenant r = tenant \<and> r \<in> set ?rows) (outbox s)"] distinct_card [of ?rows] by simp
  then show ?thesis
    using rows(2) length_filter_split [of "\<lambda>r. Outbox_Tenant r = tenant" "outbox s" "\<lambda>r. r \<in> set ?rows"]
    by (simp add: OutboxDepth_def gone BatchSize_def conj_commute)
qed

definition answered :: "drain_env \<Rightarrow> bool" where
  "answered env \<longleftrightarrow> Drain_Read env \<and> Drain_Commit env \<and> (\<forall>k < 200. Drain_Send env k \<noteq> None)"

lemma drain_answered:
  assumes "tables_ok s" "GetProgress s tenant = Some prog" "answered env"
    "drainOnce env tenant topic s = (sent, res, s')"
  shows "\<exists>n. res = Inr n" "\<exists>prog'. GetProgress s' tenant = Some prog'"
proof -
  show "\<exists>n. res = Inr n" using assms(4)
  proof (cases rule: drainOnce_cases)
    case (failed e)
    have "length (NextOutbox s tenant BatchSize) \<le> BatchSize" by (simp add: NextOutbox_def)
    moreover obtain k where "k < length (NextOutbox s tenant BatchSize)" "Drain_Send env k = None" using send_rows_sent [OF failed(1)] by auto
    ultimately show ?thesis using assms(3) by (metis BatchSize_def answered_def less_le_trans)
  qed (use assms(2,3) in \<open>auto simp: answered_def\<close>)
  show "\<exists>prog'. GetProgress s' tenant = Some prog'" using assms(4)
  proof (cases rule: drainOnce_cases)
    case (drained prog' f l)
    have "GetProgress (DeleteOutbox tenant seqs s) tenant = GetProgress s tenant" for seqs by (simp add: GetProgress_def DeleteOutbox_def)
    then show ?thesis using drained(2,5) by (auto simp: Let_def AdvanceHeartbeatOffset_def GetProgress_update)
  qed (use assms(2) in auto)
qed

lemma relay_loop_depth:
  assumes "tables_ok s" "GetProgress s tenant = Some prog" "\<forall>env\<in>set envs. answered env"
  shows "OutboxDepth (snd (relay_loop tenant (map Drain envs) s)) tenant = OutboxDepth s tenant - 200 * length envs"
  using assms
proof (induction envs arbitrary: s prog)
  case (Cons env envs)
  obtain sent res s1 where d: "drainOnce env tenant (Topics_Heartbeat tenant) s = (sent, res, s1)" by (metis surj_pair)
  have "answered env" using Cons.prems(3) by simp
  note drain_answered [OF Cons.prems(1,2) this d]
  then obtain n prog' where n: "res = Inr n" "GetProgress s1 tenant = Some prog'" by blast
  have "OutboxDepth s1 tenant = OutboxDepth s tenant - 200" using drain_depth [OF Cons.prems(1)] d n(1) by blast
  then show ?case using Cons.IH [OF drain_step(1) [OF Cons.prems(1) d] n(2)] Cons.prems(3) d by (simp add: case_prod_unfold Let_def)
qed simp

text \<open>
  C34: the relay empties the outbox. While Kafka confirms every message and the database every
  transaction, each pass of the loop takes up to two
  hundred rows off the tenant's outbox, so as many passes as there are rows, divided by two hundred and rounded up,
  leave it empty.
\<close>

theorem relay_empties_outbox:
  assumes "tables_ok s" "\<forall>env\<in>set envs. Drain_Read env \<and> Drain_Commit env \<and> (\<forall>k < 200. Drain_Send env k \<noteq> None)"
  shows "OutboxDepth (snd (RunTenant tenant (map Drain envs) s)) tenant = OutboxDepth s tenant - 200 * length envs"
proof -
  obtain prog where prog: "GetProgress (EnsureProgress tenant s) tenant = Some prog" using EnsureProgress_present by blast
  have "OutboxDepth (EnsureProgress tenant s) tenant = OutboxDepth s tenant" by (simp add: OutboxDepth_def)
  then show ?thesis
    using relay_loop_depth [OF tables_ok_EnsureProgress [OF assms(1)] prog, of envs] assms(2)
    by (simp add: RunTenant_def answered_def)
qed

section \<open>The properties at work\<close>

definition sample_outbox :: store where
  "sample_outbox = empty_store\<lparr>outbox :=
     [\<lparr>Outbox_Seq = 1, Outbox_Tenant = ''acme'', Outbox_ID = ''a'',
       Outbox_Payload = \<lparr>Event_ID = ''a'', Event_Type = ''t'', Event_Source = ''s'', Event_Time = 0,
         Event_Extensions = [], Event_Data = None\<rparr>, Outbox_RoundTime = 0\<rparr>],
     outbox_seq := 2, progress_rows := [(''acme'', new_progress)]\<rparr>"

lemma sample_outbox_ok: "tables_ok sample_outbox"
  by (simp add: sample_outbox_def tables_ok_def empty_store_def)

lemma sample_outbox_depth: "OutboxDepth sample_outbox ''acme'' = 1"
  by (simp add: sample_outbox_def OutboxDepth_def)

lemma sample_outbox_progress: "GetProgress sample_outbox ''acme'' = Some new_progress"
  by (simp add: sample_outbox_def GetProgress_def)

definition good_drain :: drain_env where
  "good_drain = \<lparr>Drain_Read = True, Drain_Send = \<lambda>k. Some (int k), Drain_Commit = True\<rparr>"

theorem relay_loses_nothing_witness:
  "\<exists>sent s'. RunTenant ''acme'' [Drain (good_drain\<lparr>Drain_Commit := False\<rparr>), Drain good_drain] sample_outbox = (sent, s') \<and>
     set (outbox sample_outbox) \<subseteq> set (outbox s') \<union> {r. outbox_message (Topics_Heartbeat ''acme'') r \<in> set sent}"
proof -
  let ?steps = "[Drain (good_drain\<lparr>Drain_Commit := False\<rparr>), Drain good_drain]"
  obtain sent s' where r: "RunTenant ''acme'' ?steps sample_outbox = (sent, s')" by (metis surj_pair)
  then show ?thesis using relay_loses_nothing [OF sample_outbox_ok r] by blast
qed

theorem drain_moves_offset_over_its_own_witness:
  "\<exists>s'. snd (drainOnce good_drain ''acme'' ''t'' sample_outbox) = (Inr 1, s') \<and>
     GetProgress s' ''acme'' = Some (new_progress\<lparr>HeartbeatOffset := 1\<rparr>)"
proof -
  obtain sent res s' where d: "drainOnce good_drain ''acme'' ''t'' sample_outbox = (sent, res, s')" by (metis surj_pair)
  then show ?thesis using drain_moves_offset_over_its_own [OF sample_outbox_ok sample_outbox_progress _ _ _ _ d, of 0]
    by (simp add: sample_outbox_depth new_progress_def good_drain_def)
qed

theorem relay_empties_outbox_witness:
  "OutboxDepth (snd (RunTenant ''acme'' (map Drain [good_drain]) sample_outbox)) ''acme'' = 0"
  using relay_empties_outbox [OF sample_outbox_ok, of "[good_drain]" "''acme''"] by (simp add: sample_outbox_depth good_drain_def)

end
