(* ===== verification/Rule_Sources.thy ===== *)
theory Rule_Sources
  imports Metering_Rules Go_Time "HOL-Library.Multiset"
begin

text \<open>
  Where the rule revisions come from: \<^verbatim>\<open>Parse\<close> of \<^verbatim>\<open>internal/rules/rules.go\<close> and the two sources of
  \<^verbatim>\<open>internal/rules/revisions.go\<close>. The YAML decoder is the argument \<open>decode\<close>: it answers with the meters of the first
  document and whether anything follows it. The registry and the state names are arguments as in \<open>validate\<close>.
\<close>

section \<open>Parsing a revision\<close>

definition NamePrefix :: string where "NamePrefix = ''osac-metering-rules-''"

datatype yaml_answer = YamlInvalid | YamlDocument "meter list" bool

text \<open>The failures that wrap \<^verbatim>\<open>ErrInvalid\<close>, with the reason, and those of reading.\<close>

datatype source_error = ErrInvalid string | SourceUnreadable

definition Parse ::
  "registry_resource list \<Rightarrow> (registry_resource \<Rightarrow> metering_error + string list) \<Rightarrow> (string \<Rightarrow> yaml_answer)
     \<Rightarrow> string \<Rightarrow> string \<Rightarrow> string \<Rightarrow> source_error + revision" where
  "Parse resources state_enum decode name effectiveAtText metersYAML =
     (let number = TrimPrefix name NamePrefix in
      if number = name \<or> length number \<noteq> 4 then Inl (ErrInvalid ''name'')
      else case Atoi number of
        None \<Rightarrow> Inl (ErrInvalid ''number'')
      | Some _ \<Rightarrow>
          (case ParseRFC3339Nano effectiveAtText of
             None \<Rightarrow> Inl (ErrInvalid ''effective_at'')
           | Some effectiveAt \<Rightarrow>
               (case decode metersYAML of
                  YamlInvalid \<Rightarrow> Inl (ErrInvalid ''meters'')
                | YamlDocument meters trailing \<Rightarrow>
                    if trailing then Inl (ErrInvalid ''second document'')
                    else
                      (let revision = \<lparr>Revision_Name = name, Revision_Number = number, Revision_EffectiveAt = effectiveAt,
                                       Revision_Meters = meters, Revision_MetersYAML = metersYAML\<rparr>
                       in case validate resources state_enum revision of
                            Inl _ \<Rightarrow> Inl (ErrInvalid ''validation'')
                          | Inr _ \<Rightarrow> Inr revision))))"

section \<open>Listing the revisions\<close>

record config_map =
  Map_Name :: string
  Map_Data :: "(string \<times> string) list"

definition map_entry :: "config_map \<Rightarrow> string \<Rightarrow> string" where
  "map_entry configMap key = (case map_of (Map_Data configMap) key of None \<Rightarrow> '''' | Some v \<Rightarrow> v)"

definition parse_map ::
  "registry_resource list \<Rightarrow> (registry_resource \<Rightarrow> metering_error + string list) \<Rightarrow> (string \<Rightarrow> yaml_answer)
     \<Rightarrow> config_map \<Rightarrow> source_error + revision" where
  "parse_map resources state_enum decode configMap =
     Parse resources state_enum decode (Map_Name configMap) (map_entry configMap ''effective_at'') (map_entry configMap ''meters.yaml'')"

definition revision_less :: "revision \<Rightarrow> revision \<Rightarrow> bool" where
  "revision_less a b =
     (case (Atoi (Revision_Number a), Atoi (Revision_Number b)) of
        (Some left, Some right) \<Rightarrow> left < right
      | _ \<Rightarrow> Revision_Number a < Revision_Number b)"

text \<open>
  \<^verbatim>\<open>sort.Slice\<close> as the insertion sort it is on a dozen elements or fewer. On more it may order revisions of equal
  numbers differently.
\<close>

fun insert_revision :: "revision \<Rightarrow> revision list \<Rightarrow> revision list" where
  "insert_revision r [] = [r]"
| "insert_revision r (x # xs) = (if revision_less r x then r # x # xs else x # insert_revision r xs)"

definition sortRevisions :: "revision list \<Rightarrow> revision list" where
  "sortRevisions revisions = fold insert_revision revisions []"

definition ConfigMapSource_List ::
  "registry_resource list \<Rightarrow> (registry_resource \<Rightarrow> metering_error + string list) \<Rightarrow> (string \<Rightarrow> yaml_answer)
     \<Rightarrow> config_map list option \<Rightarrow> source_error + revision list" where
  "ConfigMapSource_List resources state_enum decode configMaps =
     (case configMaps of
        None \<Rightarrow> Inl SourceUnreadable
      | Some items \<Rightarrow>
          ebind (traverse (parse_map resources state_enum decode) (filter (\<lambda>c. prefix NamePrefix (Map_Name c)) items))
            (\<lambda>revisions. Inr (sortRevisions revisions)))"

datatype manifest_answer = FileUnreadable | FileUnparsable | Manifest config_map

record directory_entry =
  Entry_Name :: string
  Entry_IsDir :: bool
  Entry_Manifest :: manifest_answer

definition parse_entry ::
  "registry_resource list \<Rightarrow> (registry_resource \<Rightarrow> metering_error + string list) \<Rightarrow> (string \<Rightarrow> yaml_answer)
     \<Rightarrow> directory_entry \<Rightarrow> source_error + revision" where
  "parse_entry resources state_enum decode entry =
     (case Entry_Manifest entry of
        FileUnreadable \<Rightarrow> Inl SourceUnreadable
      | FileUnparsable \<Rightarrow> Inl (ErrInvalid ''manifest'')
      | Manifest configMap \<Rightarrow> parse_map resources state_enum decode configMap)"

definition DirectorySource_List ::
  "registry_resource list \<Rightarrow> (registry_resource \<Rightarrow> metering_error + string list) \<Rightarrow> (string \<Rightarrow> yaml_answer)
     \<Rightarrow> directory_entry list option \<Rightarrow> source_error + revision list" where
  "DirectorySource_List resources state_enum decode entries =
     (case entries of
        None \<Rightarrow> Inl SourceUnreadable
      | Some es \<Rightarrow>
          ebind (traverse (parse_entry resources state_enum decode)
                   (filter (\<lambda>e. \<not> (Entry_IsDir e \<or> \<not> suffix ''.yaml'' (Entry_Name e))) es))
            (\<lambda>revisions. Inr (sortRevisions revisions)))"

section \<open>What a source returns\<close>

lemma Parse_Inr:
  assumes "Parse resources state_enum decode name effectiveAtText metersYAML = Inr r"
  shows "name = NamePrefix @ Revision_Number r" "length (Revision_Number r) = 4" "Revision_Name r = name" "\<exists>n. Atoi (Revision_Number r) = Some n"
    "ParseRFC3339Nano effectiveAtText = Some (Revision_EffectiveAt r)" "decode metersYAML = YamlDocument (Revision_Meters r) False"
    "Revision_MetersYAML r = metersYAML" "validate resources state_enum r = Inr ()"
proof -
  let ?n = "TrimPrefix name NamePrefix"
  have p: "?n \<noteq> name" "length ?n = 4" "\<exists>n. Atoi ?n = Some n" "Revision_Number r = ?n" "Revision_Name r = name"
    "ParseRFC3339Nano effectiveAtText = Some (Revision_EffectiveAt r)" "decode metersYAML = YamlDocument (Revision_Meters r) False"
    "Revision_MetersYAML r = metersYAML" "validate resources state_enum r = Inr ()"
    using assms by (auto simp: Parse_def Let_def split: if_splits option.splits yaml_answer.splits sum.splits)
  have "name = NamePrefix @ ?n" using p(1) by (auto simp: TrimPrefix_def prefix_def split: if_splits)
  with p show "name = NamePrefix @ Revision_Number r" "length (Revision_Number r) = 4" "Revision_Name r = name" "\<exists>n. Atoi (Revision_Number r) = Some n"
    "ParseRFC3339Nano effectiveAtText = Some (Revision_EffectiveAt r)" "decode metersYAML = YamlDocument (Revision_Meters r) False"
    "Revision_MetersYAML r = metersYAML" "validate resources state_enum r = Inr ()" by simp_all
qed

definition revision_number :: "revision \<Rightarrow> int" where
  "revision_number r = the (Atoi (Revision_Number r))"

lemma insert_revision_sorted:
  assumes "Atoi (Revision_Number r) \<noteq> None" "\<forall>x\<in>set xs. Atoi (Revision_Number x) \<noteq> None" "sorted (map revision_number xs)"
  shows "sorted (map revision_number (insert_revision r xs))" "mset (insert_revision r xs) = add_mset r (mset xs)"
proof -
  show mset: "mset (insert_revision r xs) = add_mset r (mset xs)" for xs by (induction xs) auto
  have set: "set (insert_revision r xs) = insert r (set xs)" for xs using mset by (metis set_mset_add_mset_insert set_mset_mset)
  show "sorted (map revision_number (insert_revision r xs))"
    using assms(2,3)
  proof (induction xs)
    case (Cons x xs)
    have "revision_less r x \<longleftrightarrow> revision_number r < revision_number x"
      using assms(1) Cons.prems(1) by (auto simp: revision_less_def revision_number_def)
    then show ?case using Cons by (fastforce simp: set)
  qed simp
qed

lemma sortRevisions_sorted:
  assumes "\<forall>r\<in>set rs. Atoi (Revision_Number r) \<noteq> None"
  shows "sorted (map revision_number (sortRevisions rs))" "mset (sortRevisions rs) = mset rs"
proof -
  have "sorted (map revision_number (fold insert_revision rs acc)) \<and> mset (fold insert_revision rs acc) = mset rs + mset acc"
    if "\<forall>r\<in>set rs \<union> set acc. Atoi (Revision_Number r) \<noteq> None" "sorted (map revision_number acc)" for acc
    using that
  proof (induction rs arbitrary: acc)
    case (Cons r rs)
    have i: "sorted (map revision_number (insert_revision r acc))" "mset (insert_revision r acc) = add_mset r (mset acc)"
      using insert_revision_sorted [of r acc] Cons.prems by auto
    have "set (insert_revision r acc) = insert r (set acc)" using i(2) by (metis set_mset_add_mset_insert set_mset_mset)
    then show ?case using Cons.IH [of "insert_revision r acc"] Cons.prems(1) i by auto
  qed simp
  from this [of "[]"] assms show "sorted (map revision_number (sortRevisions rs))" "mset (sortRevisions rs) = mset rs"
    by (simp_all add: sortRevisions_def)
qed

text \<open>
  The revisions a source lists are those of its ConfigMaps, each once, valid, and in the order of their numbers. A listing
  that holds one ConfigMap that does not parse returns no revision at all.
\<close>

lemma listed_revisions_sound:
  assumes "ConfigMapSource_List resources state_enum decode (Some items) = Inr rs"
  shows "sorted (map revision_number rs) \<and>
    mset (map Revision_Name rs) = mset (filter (prefix NamePrefix) (map Map_Name items)) \<and>
    (\<forall>r\<in>set rs. length (Revision_Number r) = 4 \<and> validate resources state_enum r = Inr () \<and>
       (\<exists>c\<in>set items. parse_map resources state_enum decode c = Inr r))"
proof -
  let ?maps = "filter (\<lambda>c. prefix NamePrefix (Map_Name c)) items"
  obtain ps where ps: "traverse (parse_map resources state_enum decode) ?maps = Inr ps" "rs = sortRevisions ps"
    using assms by (auto simp: ConfigMapSource_List_def ebind_Inr_iff)
  have each: "\<exists>c\<in>set items. parse_map resources state_enum decode c = Inr r" if "r \<in> set ps" for r
    using traverse_Inr_mem [OF ps(1) that] by auto
  note parsed = Parse_Inr [of resources state_enum decode "Map_Name c" "map_entry c ''effective_at''" "map_entry c ''meters.yaml''" for c, folded parse_map_def]
  have numbers: "\<forall>r\<in>set ps. Atoi (Revision_Number r) \<noteq> None" using each parsed(4) by fastforce
  note sorted = sortRevisions_sorted [OF numbers, folded ps(2)]
  have same: "set rs = set ps" using sorted(2) by (metis set_mset_mset)
  have "map Revision_Name ps = map Map_Name ?maps"
  proof -
    have "map Revision_Name ys = map Map_Name cs" if "traverse (parse_map resources state_enum decode) cs = Inr ys" for cs ys
      using that parsed(3) by (induction cs arbitrary: ys) (auto simp: ebind_Inr_iff)
    then show ?thesis using ps(1) by blast
  qed
  then have "mset (map Revision_Name rs) = mset (filter (prefix NamePrefix) (map Map_Name items))"
    using sorted(2) by (metis (no_types, lifting) comp_apply filter_cong filter_map mset_map)
  moreover have "length (Revision_Number r) = 4 \<and> validate resources state_enum r = Inr () \<and>
      (\<exists>c\<in>set items. parse_map resources state_enum decode c = Inr r)" if "r \<in> set rs" for r
  proof -
    obtain c where c: "c \<in> set items" "parse_map resources state_enum decode c = Inr r" using each [of r] \<open>r \<in> set rs\<close> same by auto
    show ?thesis using c parsed(2,8) [OF c(2)] by blast
  qed
  ultimately show ?thesis using sorted(1) by blast
qed

text \<open>
  A revision number need not be four digits: \<^verbatim>\<open>Atoi\<close> reads a sign, so a name that ends in \<^verbatim>\<open>-001\<close> passes, and sorts
  before every other, while as text it sorts among them.
\<close>

lemma signed_number_is_parsed:
  "\<exists>r. Parse resources state_enum decode ''osac-metering-rules--001'' effectiveAtText metersYAML = Inr r \<and> Revision_Number r = ''-001'' \<and>
     revision_number r = - 1"
  if "ParseRFC3339Nano effectiveAtText = Some t" "decode metersYAML = YamlDocument meters False"
    "validate resources state_enum \<lparr>Revision_Name = ''osac-metering-rules--001'', Revision_Number = ''-001'', Revision_EffectiveAt = t,
       Revision_Meters = meters, Revision_MetersYAML = metersYAML\<rparr> = Inr ()"
proof -
  have "TrimPrefix ''osac-metering-rules--001'' NamePrefix = ''-001''" "Atoi ''-001'' = Some (- 1)" by code_simp+
  then show ?thesis using that by (simp add: Parse_def revision_number_def Let_def)
qed

end
