(* ===== verification/Metering_Service.thy ===== *)
theory Metering_Service
  imports Usage_Engine Metering_Store Topics Rule_Sources
begin

text \<open>
  The service that runs one fold, one round and one relay per tenant: \<^verbatim>\<open>internal/service/service.go\<close>, and the
  topic set-up of \<^verbatim>\<open>internal/kafka/connect.go\<close>. A tenant's loops are a heap cell that says whether they were
  cancelled, have failed and have stopped; the goroutines that delete a gone tenant's rows are listed in the state.
  What the brokers, the ConfigMaps and a failing database answer are arguments.
\<close>

section \<open>The topics of a tenant\<close>

definition EventTenantsOf :: "string list \<Rightarrow> string list" where
  "EventTenantsOf names =
     sort (concat (map (\<lambda>name. case TenantOfEvents name of (tenant, ok) \<Rightarrow> if \<not> ok \<or> \<not> Metered tenant then [] else [tenant]) names))"

definition retentionContract :: "string \<Rightarrow> string \<rightharpoonup> string" where
  "retentionContract retentionMS = [''retention.ms'' \<mapsto> retentionMS, ''retention.bytes'' \<mapsto> ''-1'', ''cleanup.policy'' \<mapsto> ''delete'']"

datatype config_answer = ConfigDenied | ConfigUnreadable | ConfigEntries "(string \<times> string) list"
datatype describe_answer = DescribeFailed | TopicUnknown | TopicError | TopicFound nat

datatype topic_error = CannotDescribe string | WrongPartitions string nat | RetentionUnverifiable string | WrongConfig string string | CannotCreate string

record topic_admin =
  Admin_Describe :: "string \<Rightarrow> describe_answer"
  Admin_Config :: "string \<Rightarrow> config_answer"
  Admin_Create :: "string \<Rightarrow> bool"

fun check_entries :: "string \<Rightarrow> (string \<rightharpoonup> string) \<Rightarrow> (string \<times> string) list \<Rightarrow> topic_error + unit" where
  "check_entries topic wanted [] = Inr ()"
| "check_entries topic wanted ((name, value) # entries) =
     (case wanted name of
        None \<Rightarrow> check_entries topic wanted entries
      | Some want \<Rightarrow> if value \<noteq> want then Inl (WrongConfig topic name) else check_entries topic wanted entries)"

definition ensureRetention :: "topic_admin \<Rightarrow> string \<Rightarrow> string \<Rightarrow> topic_error + unit" where
  "ensureRetention admin topic retentionMS =
     (case Admin_Config admin topic of
        ConfigDenied \<Rightarrow> Inl (RetentionUnverifiable topic)
      | ConfigUnreadable \<Rightarrow> Inr ()
      | ConfigEntries entries \<Rightarrow> check_entries topic (retentionContract retentionMS) entries)"

text \<open>The result of a successful call says whether it asked the brokers to create the topic.\<close>

definition ensureTopic :: "topic_admin \<Rightarrow> string \<Rightarrow> string \<Rightarrow> topic_error + bool" where
  "ensureTopic admin topic retentionMS =
     (case Admin_Describe admin topic of
        DescribeFailed \<Rightarrow> Inl (CannotDescribe topic)
      | TopicError \<Rightarrow> Inl (CannotDescribe topic)
      | TopicFound partitions \<Rightarrow>
          if partitions \<noteq> 1 then Inl (WrongPartitions topic partitions)
          else (case ensureRetention admin topic retentionMS of Inl e \<Rightarrow> Inl e | Inr _ \<Rightarrow> Inr False)
      | TopicUnknown \<Rightarrow> if Admin_Create admin topic then Inr True else Inl (CannotCreate topic))"

definition EnsureTenantTopics :: "topic_admin \<Rightarrow> string \<Rightarrow> string \<Rightarrow> topic_error + unit" where
  "EnsureTenantTopics admin tenant retentionMS =
     (case ensureTopic admin (Topics_Heartbeat tenant) retentionMS of
        Inl e \<Rightarrow> Inl e
      | Inr _ \<Rightarrow> (case ensureTopic admin (DeadLetter tenant) retentionMS of Inl e \<Rightarrow> Inl e | Inr _ \<Rightarrow> Inr ()))"

section \<open>The rules\<close>

datatype rules_listing = Listed "revision list" | Malformed | Unlisted
datatype rules_error = RulesListing | RulesDisagree

definition listing_of :: "source_error + revision list \<Rightarrow> rules_listing" where
  "listing_of listed = (case listed of Inr present \<Rightarrow> Listed present | Inl (ErrInvalid _) \<Rightarrow> Malformed | Inl SourceUnreadable \<Rightarrow> Unlisted)"

record rules_env =
  Rules_Present :: rules_listing
  Rules_UsedReadable :: bool
  Rules_RoundReadable :: bool
  Rules_Recordable :: "revision \<Rightarrow> bool"

definition revision_row :: "revision \<Rightarrow> rule_revision_row" where
  "revision_row r = \<lparr>Row_Revision = Revision_Number r, Row_EffectiveAt = Revision_EffectiveAt r, Row_MetersYAML = Revision_MetersYAML r\<rparr>"

fun record_revisions :: "(revision \<Rightarrow> bool) \<Rightarrow> revision list \<Rightarrow> store \<Rightarrow> bool \<times> store" where
  "record_revisions recordable [] s = (True, s)"
| "record_revisions recordable (r # rs) s =
     (if recordable r then record_revisions recordable rs (RecordRuleRevision (revision_row r) s) else (False, s))"

definition approveRules :: "rules_env \<Rightarrow> string \<Rightarrow> (string \<times> owner_spec) list \<Rightarrow> store \<Rightarrow>
    (rules_error + revision list \<times> calculator) \<times> store" where
  "approveRules env deploymentID owners s =
     (case Rules_Present env of
        Malformed \<Rightarrow> (Inl RulesDisagree, s)
      | Unlisted \<Rightarrow> (Inl RulesListing, s)
      | Listed present \<Rightarrow>
          if \<not> Rules_UsedReadable env then (Inl RulesListing, s)
          else if \<not> Rules_RoundReadable env then (Inl RulesListing, s)
          else case CheckStartup (ListRuleRevisions s) present (LastRoundTime_max s) of
            Inl e \<Rightarrow> (Inl RulesDisagree, s)
          | Inr approved \<Rightarrow>
              (case record_revisions (Rules_Recordable env) approved s of
                 (False, s') \<Rightarrow> (Inl RulesListing, s')
               | (True, s') \<Rightarrow> (Inr (approved, NewCalculator approved deploymentID owners), s')))"

definition sameRevisions :: "revision list \<Rightarrow> revision list \<Rightarrow> bool" where
  "sameRevisions a b \<longleftrightarrow> length a = length b \<and>
     list_all2 (\<lambda>x y. \<not> (Revision_Number x \<noteq> Revision_Number y \<or> Revision_EffectiveAt x \<noteq> Revision_EffectiveAt y \<or>
                          Revision_MetersYAML x \<noteq> Revision_MetersYAML y)) a b"

record ruleset =
  Rules_loaded :: "revision list"
  Rules_current :: calculator

definition checkRules :: "rules_env \<Rightarrow> string \<Rightarrow> (string \<times> owner_spec) list \<Rightarrow> ruleset \<Rightarrow> store \<Rightarrow> rules_error option \<times> ruleset \<times> store" where
  "checkRules env deploymentID owners rs s =
     (case approveRules env deploymentID owners s of
        (Inl e, s') \<Rightarrow> (Some e, rs, s')
      | (Inr (approved, calculator), s') \<Rightarrow>
          if sameRevisions (Rules_loaded rs) approved then (None, rs, s')
          else (None, \<lparr>Rules_loaded = approved, Rules_current = calculator\<rparr>, s'))"

text \<open>The loop of \<^verbatim>\<open>watchRules\<close>: it ends with the first check that is fatal.\<close>

fun watchRules :: "rules_env list \<Rightarrow> string \<Rightarrow> (string \<times> owner_spec) list \<Rightarrow> ruleset \<Rightarrow> store \<Rightarrow> bool \<times> ruleset \<times> store" where
  "watchRules [] deploymentID owners rs s = (False, rs, s)"
| "watchRules (env # envs) deploymentID owners rs s =
     (case checkRules env deploymentID owners rs s of
        (Some RulesDisagree, rs', s') \<Rightarrow> (True, rs', s')
      | (_, rs', s') \<Rightarrow> watchRules envs deploymentID owners rs' s')"

section \<open>The running tenants\<close>

record tenant_loops =
  Loop_cancelled :: bool
  Loop_stopped :: bool
  Loop_failed :: bool

definition new_loops :: tenant_loops where
  "new_loops = \<lparr>Loop_cancelled = False, Loop_stopped = False, Loop_failed = False\<rparr>"

record service =
  Svc_loops :: "tenant_loops list"
  Svc_tenants :: "(string \<times> nat) list"
  Svc_draining :: "nat list"
  Svc_startFailed :: "string list"
  Svc_missing :: "(string \<times> nat) list"
  Svc_deleting :: "(string \<times> nat) list"
  Svc_stopping :: bool
  Svc_closed :: bool

definition service_New :: service where
  "service_New = \<lparr>Svc_loops = [], Svc_tenants = [], Svc_draining = [], Svc_startFailed = [], Svc_missing = [], Svc_deleting = [],
     Svc_stopping = False, Svc_closed = False\<rparr>"

definition cancel :: "nat \<Rightarrow> service \<Rightarrow> service" where
  "cancel i s = s\<lparr>Svc_loops := (Svc_loops s)[i := (Svc_loops s ! i)\<lparr>Loop_cancelled := True\<rparr>]\<rparr>"

definition Healthy :: "service \<Rightarrow> bool" where
  "Healthy s \<longleftrightarrow> list_all (\<lambda>(tenant, i). \<not> Loop_failed (Svc_loops s ! i)) (Svc_tenants s) \<and> Svc_startFailed s = []"

definition pruneDrained :: "service \<Rightarrow> service" where
  "pruneDrained s = s\<lparr>Svc_draining := filter (\<lambda>i. \<not> Loop_stopped (Svc_loops s ! i)) (Svc_draining s)\<rparr>"

definition restart_one :: "string \<Rightarrow> service \<Rightarrow> service" where
  "restart_one tenant s =
     (case map_of (Svc_tenants s) tenant of
        Some i \<Rightarrow>
          if Loop_failed (Svc_loops s ! i)
          then (cancel i s)\<lparr>Svc_tenants := filter (\<lambda>(t, _). t \<noteq> tenant) (Svc_tenants s), Svc_draining := Svc_draining s @ [i]\<rparr>
          else s
      | None \<Rightarrow> s)"

definition restartFailed :: "string list \<Rightarrow> service \<Rightarrow> service" where
  "restartFailed live s = fold restart_one live (pruneDrained s)"

definition start_one :: "(string \<Rightarrow> bool) \<Rightarrow> string \<Rightarrow> service \<Rightarrow> service" where
  "start_one ensured tenant s =
     (if \<not> ensured tenant then s\<lparr>Svc_startFailed := List.insert tenant (Svc_startFailed s)\<rparr>
      else
        (let running = (map_of (Svc_tenants s) tenant \<noteq> None);
             s1 = s\<lparr>Svc_startFailed := removeAll tenant (Svc_startFailed s)\<rparr>
         in if running then s1
            else s1\<lparr>Svc_tenants := Svc_tenants s @ [(tenant, length (Svc_loops s))], Svc_loops := Svc_loops s @ [new_loops]\<rparr>))"

definition startNew :: "(string \<Rightarrow> bool) \<Rightarrow> string list \<Rightarrow> service \<Rightarrow> service" where
  "startNew ensured live s = fold (start_one ensured) live s"

definition DeletionPasses :: nat where "DeletionPasses = 3"

definition missing_count :: "service \<Rightarrow> string \<Rightarrow> nat" where
  "missing_count s tenant = (case map_of (Svc_missing s) tenant of None \<Rightarrow> 0 | Some n \<Rightarrow> n)"

definition stop_one :: "string list \<Rightarrow> string \<times> nat \<Rightarrow> service \<Rightarrow> service" where
  "stop_one live entry s =
     (let (tenant, i) = entry in
      if Svc_stopping s then s
      else if tenant \<in> set live then s\<lparr>Svc_missing := AList.delete tenant (Svc_missing s)\<rparr>
      else
        (let n = missing_count s tenant + 1;
             s1 = s\<lparr>Svc_missing := AList.update tenant n (Svc_missing s)\<rparr>
         in if n < DeletionPasses then s1
            else (cancel i s1)\<lparr>Svc_tenants := filter (\<lambda>(t, _). t \<noteq> tenant) (Svc_tenants s),
                              Svc_missing := AList.delete tenant (Svc_missing s1), Svc_deleting := Svc_deleting s @ [(tenant, i)]\<rparr>))"

definition stopGone :: "string list \<Rightarrow> service \<Rightarrow> service" where
  "stopGone live s =
     (let s' = fold (stop_one live) (Svc_tenants s) s
      in s'\<lparr>Svc_startFailed := filter (\<lambda>t. t \<in> set live) (Svc_startFailed s')\<rparr>)"

definition syncTenants :: "(string \<Rightarrow> bool) \<Rightarrow> string list \<Rightarrow> service \<Rightarrow> service" where
  "syncTenants ensured tenants s =
     (let live = remdups tenants in stopGone live (startNew ensured live (restartFailed live s)))"

text \<open>\<^verbatim>\<open>stopAll\<close> up to where it waits, with the loops it waits for, and what follows the waiting.\<close>

definition stopAll_waits :: "service \<Rightarrow> nat list" where
  "stopAll_waits s = map snd (Svc_tenants s) @ Svc_draining s"

definition stopAll_begin :: "service \<Rightarrow> service" where
  "stopAll_begin s =
     (if Svc_stopping s then s else (fold cancel (map snd (Svc_tenants s)) s)\<lparr>Svc_stopping := True\<rparr>)"

definition stopAll_close :: "service \<Rightarrow> service" where
  "stopAll_close s = s\<lparr>Svc_closed := True\<rparr>"

text \<open>
  The end of \<^verbatim>\<open>deleteRows\<close>, once the loops it waits for have stopped. The deletion is one transaction; when it
  fails, the failure is logged and the rows stay.
\<close>

definition deleteRows :: "bool \<Rightarrow> string \<times> nat \<Rightarrow> service \<Rightarrow> store \<Rightarrow> service \<times> store" where
  "deleteRows deletable entry s db =
     (s\<lparr>Svc_deleting := remove1 entry (Svc_deleting s)\<rparr>, if deletable then DeleteTenantRows (fst entry) db else db)"

section \<open>How the service runs\<close>

text \<open>
  The interleavings of the service: passes over the tenant listings, tenants' loops that start working, exit with an
  error, cannot be created, or end after their cancellation, deletions that finish, and the shutdown. The listings seen
  so far come with the state, the latest first.
\<close>

definition set_loops :: "nat \<Rightarrow> (tenant_loops \<Rightarrow> tenant_loops) \<Rightarrow> service \<Rightarrow> service" where
  "set_loops i f s = s\<lparr>Svc_loops := (Svc_loops s)[i := f (Svc_loops s ! i)]\<rparr>"

inductive service_runs :: "service \<Rightarrow> store \<Rightarrow> string list list \<Rightarrow> bool" where
  service_start: "service_runs service_New db []"
| service_pass: "service_runs s db h \<Longrightarrow> \<not> Svc_stopping s \<Longrightarrow> service_runs (syncTenants ensured tenants s) db (tenants # h)"
| service_work: "service_runs s db h \<Longrightarrow> (tenant, i) \<in> set (Svc_tenants s) \<Longrightarrow> \<not> Loop_stopped (Svc_loops s ! i) \<Longrightarrow>
    service_runs s (EnsureProgress tenant db) h"
| service_exit: "service_runs s db h \<Longrightarrow> i < length (Svc_loops s) \<Longrightarrow> \<not> Loop_stopped (Svc_loops s ! i) \<Longrightarrow>
    service_runs (set_loops i (\<lambda>l. l\<lparr>Loop_failed := True, Loop_cancelled := True\<rparr>) s) db h"
| service_broken: "service_runs s db h \<Longrightarrow> i < length (Svc_loops s) \<Longrightarrow> \<not> Loop_stopped (Svc_loops s ! i) \<Longrightarrow>
    service_runs (set_loops i (\<lambda>l. l\<lparr>Loop_failed := True, Loop_stopped := True\<rparr>) s) db h"
| service_end: "service_runs s db h \<Longrightarrow> i < length (Svc_loops s) \<Longrightarrow> Loop_cancelled (Svc_loops s ! i) \<Longrightarrow>
    service_runs (set_loops i (\<lambda>l. l\<lparr>Loop_stopped := True\<rparr>) s) db h"
| service_deleted: "service_runs s db h \<Longrightarrow> entry \<in> set (Svc_deleting s) \<Longrightarrow> Loop_stopped (Svc_loops s ! snd entry) \<Longrightarrow>
    deleteRows deletable entry s db = (s', db') \<Longrightarrow> service_runs s' db' h"
| service_stop: "service_runs s db h \<Longrightarrow> service_runs (stopAll_begin s) db h"
| service_close: "service_runs s db h \<Longrightarrow> Svc_stopping s \<Longrightarrow> \<forall>i\<in>set (stopAll_waits s). Loop_stopped (Svc_loops s ! i) \<Longrightarrow>
    service_runs (stopAll_close s) db h"

section \<open>Approved rules stay approved\<close>

lemma row_is_revision:
  "row = revision_row r \<longleftrightarrow> Revision_Number r = Row_Revision row \<and> Revision_EffectiveAt r = Row_EffectiveAt row \<and> Revision_MetersYAML r = Row_MetersYAML row"
  by (cases row) (auto simp: revision_row_def)

lemma revision_row_number [simp]: "Row_Revision (revision_row r) = Revision_Number r"
  by (simp add: revision_row_def)

lemma record_revisions_set:
  assumes "record_revisions recordable rs s = (True, s')" "distinct (map Revision_Number rs)"
    "\<forall>row\<in>set (rule_revisions s). \<forall>r\<in>set rs. Row_Revision row = Revision_Number r \<longrightarrow> row = revision_row r"
  shows "set (rule_revisions s') = set (rule_revisions s) \<union> revision_row ` set rs"
  using assms
proof (induction rs arbitrary: s)
  case (Cons r rs)
  let ?s = "RecordRuleRevision (revision_row r) s"
  have set: "set (rule_revisions ?s) = insert (revision_row r) (set (rule_revisions s))"
    using Cons.prems(3) by (auto simp: RecordRuleRevision_def list_ex_iff)
  have "\<forall>row\<in>set (rule_revisions ?s). \<forall>r'\<in>set rs. Row_Revision row = Revision_Number r' \<longrightarrow> row = revision_row r'"
  proof (intro ballI impI)
    fix row r' assume row: "row \<in> set (rule_revisions ?s)" "r' \<in> set rs" "Row_Revision row = Revision_Number r'"
    have "Revision_Number r' \<noteq> Revision_Number r" using Cons.prems(2) row(2) by (simp add: image_iff) metis
    then have "row \<in> set (rule_revisions s)" using row(1,3) set by auto
    then show "row = revision_row r'" using Cons.prems(3) row(2,3) by simp
  qed
  moreover have "record_revisions recordable rs ?s = (True, s')" "distinct (map Revision_Number rs)"
    using Cons.prems(1,2) by (simp_all split: if_splits)
  ultimately have "set (rule_revisions s') = set (rule_revisions ?s) \<union> revision_row ` set rs" by (intro Cons.IH)
  then show ?case unfolding set by simp
qed simp

lemma record_revisions_again:
  "\<forall>r\<in>set rs. recordable r \<and> revision_row r \<in> set (rule_revisions s) \<Longrightarrow> record_revisions recordable rs s = (True, s)"
proof (induction rs)
  case (Cons r rs)
  have "RecordRuleRevision (revision_row r) s = s" using Cons.prems by (auto simp: RecordRuleRevision_def list_ex_iff)
  then show ?case using Cons by simp
qed simp

lemma approveRules_Inr:
  assumes "approveRules env deploymentID owners s = (Inr (approved, calculator), s')"
  shows "Rules_Present env = Listed approved" "CheckStartup (ListRuleRevisions s) approved (LastRoundTime_max s) = Inr approved"
    "record_revisions (Rules_Recordable env) approved s = (True, s')" "calculator = NewCalculator approved deploymentID owners"
proof -
  obtain present where p: "Rules_Present env = Listed present" "CheckStartup (ListRuleRevisions s) present (LastRoundTime_max s) = Inr approved"
    "record_revisions (Rules_Recordable env) approved s = (True, s')" "calculator = NewCalculator approved deploymentID owners"
    using assms by (auto simp: approveRules_def split: rules_listing.splits if_splits sum.splits prod.splits bool.splits)
  have "present = approved" using p(2) by (auto simp: CheckStartup_def Let_def ebind_Inr_iff)
  then show "Rules_Present env = Listed approved" "CheckStartup (ListRuleRevisions s) approved (LastRoundTime_max s) = Inr approved"
    "record_revisions (Rules_Recordable env) approved s = (True, s')" "calculator = NewCalculator approved deploymentID owners" using p by simp_all
qed

text \<open>Every revision that is approved was read from a ConfigMap and is valid, and they come in the order of their numbers.\<close>

lemma approved_rules_are_valid:
  assumes "Rules_Present env = listing_of (ConfigMapSource_List resources state_enum decode (Some items))"
    "approveRules env deploymentID owners s = (Inr (approved, calculator), s')"
  shows "sorted (map revision_number approved) \<and> (\<forall>r\<in>set approved. validate resources state_enum r = Inr () \<and>
    (\<exists>c\<in>set items. parse_map resources state_enum decode c = Inr r))"
proof -
  have "ConfigMapSource_List resources state_enum decode (Some items) = Inr approved"
    using approveRules_Inr(1) [OF assms(2)] assms(1) by (auto simp: listing_of_def split: sum.splits source_error.splits)
  from listed_revisions_sound [OF this] show ?thesis by simp
qed

lemma recorded_distinct: "tables_ok s \<Longrightarrow> distinct (map Row_Revision (ListRuleRevisions s))"
  by (auto simp: tables_ok_def ListRuleRevisions_def distinct_map)

lemma approveRules_records:
  assumes "tables_ok s" "approveRules env deploymentID owners s = (Inr (approved, calculator), s')"
  shows "set (rule_revisions s') = revision_row ` set approved" "set (rule_revisions s) \<subseteq> revision_row ` set approved"
proof -
  note a = approveRules_Inr [OF assms(2)]
  note c = a(2) [unfolded CheckStartup_Inr_iff [OF recorded_distinct [OF assms(1)]]]
  have used: "\<exists>r\<in>set approved. row = revision_row r" if "row \<in> set (rule_revisions s)" for row
    using c that by (auto simp: row_is_revision ListRuleRevisions_def)
  then show old: "set (rule_revisions s) \<subseteq> revision_row ` set approved" by auto
  have numbers: "distinct (map Revision_Number approved)" using c by simp
  have "row = revision_row r" if row: "row \<in> set (rule_revisions s)" and r: "r \<in> set approved" "Row_Revision row = Revision_Number r" for row r
  proof -
    obtain r' where "r' \<in> set approved" "row = revision_row r'" using used [OF row] by blast
    then show ?thesis using numbers r by (auto simp: distinct_map inj_on_def)
  qed
  then show "set (rule_revisions s') = revision_row ` set approved" using record_revisions_set [OF a(3) numbers] old by auto
qed

lemma approveRules_again:
  assumes "tables_ok s" "approveRules env deploymentID owners s = (Inr (approved, calculator), s')" "tables_ok s2"
    "rule_revisions s2 = rule_revisions s'" "Rules_Present env2 = Listed approved" "Rules_UsedReadable env2" "Rules_RoundReadable env2"
    "\<forall>r\<in>set approved. Rules_Recordable env2 r"
  shows "approveRules env2 deploymentID owners s2 = (Inr (approved, calculator), s2)"
proof -
  note a = approveRules_Inr [OF assms(2)]
  note c = a(2) [unfolded CheckStartup_Inr_iff [OF recorded_distinct [OF assms(1)]]]
  have rows: "set (rule_revisions s2) = revision_row ` set approved" using approveRules_records(1) [OF assms(1,2)] assms(4) by simp
  have "\<exists>r\<in>set approved. Revision_Number r = Row_Revision row \<and> Revision_EffectiveAt r = Row_EffectiveAt row \<and> Revision_MetersYAML r = Row_MetersYAML row"
    if "row \<in> set (ListRuleRevisions s2)" for row
    using that rows by (auto simp: ListRuleRevisions_def revision_row_def)
  moreover have "Revision_Number ` set approved \<subseteq> Row_Revision ` set (ListRuleRevisions s2)"
    by (auto simp: ListRuleRevisions_def rows image_image)
  ultimately have "CheckStartup (ListRuleRevisions s2) approved (LastRoundTime_max s2) = Inr approved"
    unfolding CheckStartup_Inr_iff [OF recorded_distinct [OF assms(3)]] using c by (intro conjI) blast+
  moreover have "record_revisions (Rules_Recordable env2) approved s2 = (True, s2)"
    using assms(8) rows by (intro record_revisions_again) simp
  ultimately show ?thesis using assms(5-7) a(4) by (simp add: approveRules_def)
qed


definition first_rules :: "revision list" where
  "first_rules = [\<lparr>Revision_Name = ''metering-rules-0001'', Revision_Number = ''0001'', Revision_EffectiveAt = 5, Revision_Meters = [], Revision_MetersYAML = ''meters''\<rparr>]"

definition first_env :: rules_env where
  "first_env = \<lparr>Rules_Present = Listed first_rules, Rules_UsedReadable = True, Rules_RoundReadable = True, Rules_Recordable = \<lambda>_. True\<rparr>"

definition billed_store :: store where
  "billed_store = (snd (approveRules first_env ''d'' [] empty_store))\<lparr>progress_rows := [(''acme'', new_progress\<lparr>LastRoundTime := Some 9\<rparr>)]\<rparr>"


section \<open>What a pass does\<close>

definition failed_at :: "service \<Rightarrow> nat \<Rightarrow> bool" where
  "failed_at s i \<longleftrightarrow> Loop_failed (Svc_loops s ! i)"

definition service_ok :: "service \<Rightarrow> bool" where
  "service_ok s \<longleftrightarrow> distinct (map fst (Svc_tenants s)) \<and> (\<forall>(t, i)\<in>set (Svc_tenants s). i < length (Svc_loops s))"

lemma cancel_fields [simp]:
  "Svc_tenants (cancel i s) = Svc_tenants s" "Svc_missing (cancel i s) = Svc_missing s" "Svc_deleting (cancel i s) = Svc_deleting s"
  "Svc_startFailed (cancel i s) = Svc_startFailed s" "Svc_stopping (cancel i s) = Svc_stopping s" "Svc_draining (cancel i s) = Svc_draining s"
  "length (Svc_loops (cancel i s)) = length (Svc_loops s)"
  by (simp_all add: cancel_def)

lemma cancel_failed [simp]: "Loop_failed (Svc_loops (cancel i s) ! j) = Loop_failed (Svc_loops s ! j)"
proof (cases "i < length (Svc_loops s)")
  case True
  then show ?thesis by (cases "i = j") (simp_all add: cancel_def)
qed (simp add: cancel_def list_update_beyond)

lemma map_of_distinct: "distinct (map fst xs) \<Longrightarrow> map_of xs k = Some v \<longleftrightarrow> (k, v) \<in> set xs"
  by (rule map_of_eq_Some_iff)

lemma restart_one_keeps:
  "Svc_missing (restart_one t s) = Svc_missing s" "Svc_deleting (restart_one t s) = Svc_deleting s"
  "Svc_startFailed (restart_one t s) = Svc_startFailed s" "Svc_stopping (restart_one t s) = Svc_stopping s"
  "length (Svc_loops (restart_one t s)) = length (Svc_loops s)" "failed_at (restart_one t s) = failed_at s"
  by (auto simp: restart_one_def failed_at_def fun_eq_iff split: option.splits)

lemma restart_one_tenants:
  "distinct (map fst (Svc_tenants s)) \<Longrightarrow> set (Svc_tenants (restart_one t s)) = {(t', i) \<in> set (Svc_tenants s). \<not> (t' = t \<and> failed_at s i)}"
  "distinct (map fst (Svc_tenants s)) \<Longrightarrow> distinct (map fst (Svc_tenants (restart_one t s)))"
  by (auto simp: restart_one_def failed_at_def map_of_distinct map_of_eq_None_iff distinct_map_filter split: option.splits dest: eq_key_imp_eq_value)
    (force simp: map_of_eq_None_iff)+

lemma restartFailed_keeps:
  "Svc_missing (restartFailed live s) = Svc_missing s" "Svc_deleting (restartFailed live s) = Svc_deleting s"
  "Svc_startFailed (restartFailed live s) = Svc_startFailed s" "Svc_stopping (restartFailed live s) = Svc_stopping s"
  "length (Svc_loops (restartFailed live s)) = length (Svc_loops s)" "failed_at (restartFailed live s) = failed_at s"
proof -
  have *: "Svc_missing (fold restart_one live s) = Svc_missing s \<and> Svc_deleting (fold restart_one live s) = Svc_deleting s \<and>
    Svc_startFailed (fold restart_one live s) = Svc_startFailed s \<and> Svc_stopping (fold restart_one live s) = Svc_stopping s \<and>
    length (Svc_loops (fold restart_one live s)) = length (Svc_loops s) \<and> failed_at (fold restart_one live s) = failed_at s" for s
    by (induction live arbitrary: s) (simp_all add: restart_one_keeps)
  show "Svc_missing (restartFailed live s) = Svc_missing s" "Svc_deleting (restartFailed live s) = Svc_deleting s"
    "Svc_startFailed (restartFailed live s) = Svc_startFailed s" "Svc_stopping (restartFailed live s) = Svc_stopping s"
    "length (Svc_loops (restartFailed live s)) = length (Svc_loops s)" "failed_at (restartFailed live s) = failed_at s"
    using * [of "pruneDrained s"] by (simp_all add: restartFailed_def pruneDrained_def failed_at_def [abs_def])
qed

lemma restartFailed_tenants:
  assumes "distinct (map fst (Svc_tenants s))"
  shows "set (Svc_tenants (restartFailed live s)) = {(t, i) \<in> set (Svc_tenants s). \<not> (t \<in> set live \<and> failed_at s i)}"
    "distinct (map fst (Svc_tenants (restartFailed live s)))"
proof -
  have "set (Svc_tenants (fold restart_one live s)) = {(t, i) \<in> set (Svc_tenants s). \<not> (t \<in> set live \<and> failed_at s i)} \<and>
      distinct (map fst (Svc_tenants (fold restart_one live s)))" if "distinct (map fst (Svc_tenants s))" for s
    using that by (induction live arbitrary: s) (auto simp: restart_one_tenants restart_one_keeps)
  from this [of "pruneDrained s"] assms
  show "set (Svc_tenants (restartFailed live s)) = {(t, i) \<in> set (Svc_tenants s). \<not> (t \<in> set live \<and> failed_at s i)}"
    "distinct (map fst (Svc_tenants (restartFailed live s)))"
    by (simp_all add: restartFailed_def pruneDrained_def failed_at_def)
qed

lemma start_one_keeps:
  "Svc_missing (start_one ensured t s) = Svc_missing s" "Svc_deleting (start_one ensured t s) = Svc_deleting s"
  "Svc_stopping (start_one ensured t s) = Svc_stopping s"
  "set (Svc_startFailed (start_one ensured t s)) = (if ensured t then set (Svc_startFailed s) - {t} else insert t (set (Svc_startFailed s)))"
  by (auto simp: start_one_def Let_def)

lemma start_one_tenants:
  assumes "service_ok s"
  shows "service_ok (start_one ensured t s)" "set (Svc_tenants s) \<subseteq> set (Svc_tenants (start_one ensured t s))"
    "(t', i) \<in> set (Svc_tenants (start_one ensured t s)) \<Longrightarrow> (t', i) \<in> set (Svc_tenants s) \<or> t' = t \<and> \<not> failed_at (start_one ensured t s) i"
    "ensured t \<Longrightarrow> t \<in> fst ` set (Svc_tenants (start_one ensured t s))"
    "i < length (Svc_loops s) \<Longrightarrow> failed_at (start_one ensured t s) i = failed_at s i"
    "length (Svc_loops s) \<le> length (Svc_loops (start_one ensured t s))"
proof -
  let ?running = "map_of (Svc_tenants s) t \<noteq> None"
  have run: "?running \<longleftrightarrow> t \<in> fst ` set (Svc_tenants s)" by (simp add: map_of_eq_None_iff)
  show "service_ok (start_one ensured t s)"
    using assms run by (auto simp: service_ok_def start_one_def Let_def less_Suc_eq)
  show "set (Svc_tenants s) \<subseteq> set (Svc_tenants (start_one ensured t s))"
    "(t', i) \<in> set (Svc_tenants (start_one ensured t s)) \<Longrightarrow> (t', i) \<in> set (Svc_tenants s) \<or> t' = t \<and> \<not> failed_at (start_one ensured t s) i"
    "i < length (Svc_loops s) \<Longrightarrow> failed_at (start_one ensured t s) i = failed_at s i"
    "length (Svc_loops s) \<le> length (Svc_loops (start_one ensured t s))"
    by (auto simp: start_one_def Let_def failed_at_def new_loops_def nth_append split: if_splits)
  show "ensured t \<Longrightarrow> t \<in> fst ` set (Svc_tenants (start_one ensured t s))"
    using run by (cases ?running) (simp_all add: start_one_def Let_def)
qed

lemma startNew_keeps:
  "Svc_missing (startNew ensured live s) = Svc_missing s" "Svc_deleting (startNew ensured live s) = Svc_deleting s"
  "Svc_stopping (startNew ensured live s) = Svc_stopping s"
  "set (Svc_startFailed (startNew ensured live s)) = set (Svc_startFailed s) - {t \<in> set live. ensured t} \<union> {t \<in> set live. \<not> ensured t}"
  unfolding startNew_def by (induction live arbitrary: s) (auto simp: start_one_keeps)

lemma startNew_tenants:
  assumes "service_ok s"
  shows "service_ok (startNew ensured live s)" "set (Svc_tenants s) \<subseteq> set (Svc_tenants (startNew ensured live s))"
    "\<forall>(t, i)\<in>set (Svc_tenants (startNew ensured live s)).
       (t, i) \<in> set (Svc_tenants s) \<or> t \<in> set live \<and> \<not> failed_at (startNew ensured live s) i"
    "\<forall>t\<in>set live. ensured t \<longrightarrow> t \<in> fst ` set (Svc_tenants (startNew ensured live s))"
    "\<forall>i<length (Svc_loops s). failed_at (startNew ensured live s) i = failed_at s i"
proof -
  have "service_ok (fold (start_one ensured) live s) \<and> set (Svc_tenants s) \<subseteq> set (Svc_tenants (fold (start_one ensured) live s)) \<and>
    (\<forall>(t, i)\<in>set (Svc_tenants (fold (start_one ensured) live s)).
       (t, i) \<in> set (Svc_tenants s) \<or> t \<in> set live \<and> \<not> failed_at (fold (start_one ensured) live s) i) \<and>
    (\<forall>t\<in>set live. ensured t \<longrightarrow> t \<in> fst ` set (Svc_tenants (fold (start_one ensured) live s))) \<and>
    (\<forall>i<length (Svc_loops s). failed_at (fold (start_one ensured) live s) i = failed_at s i)" using assms
  proof (induction live arbitrary: s)
    case (Cons t live)
    let ?s = "start_one ensured t s" and ?f = "fold (start_one ensured) live (start_one ensured t s)"
    note one = start_one_tenants [OF Cons.prems, where ensured = ensured and t = t]
    note IH = Cons.IH [OF one(1)]
    have "t' \<in> set (t # live) \<and> \<not> failed_at ?f i \<or> (t', i) \<in> set (Svc_tenants s)" if "(t', i) \<in> set (Svc_tenants ?f)" for t' i
    proof (cases "(t', i) \<in> set (Svc_tenants ?s)")
      case True
      moreover have "i < length (Svc_loops ?s)" using True one(1) by (auto simp: service_ok_def)
      ultimately show ?thesis using one(3) IH by auto
    next
      case False
      then show ?thesis using IH that by auto
    qed
    moreover have "\<forall>t'\<in>set (t # live). ensured t' \<longrightarrow> t' \<in> fst ` set (Svc_tenants ?f)" using IH one(4) by auto
    moreover have "\<forall>i<length (Svc_loops s). failed_at ?f i = failed_at s i" using IH one(5,6) by simp
    ultimately show ?case using IH one(2) by auto
  qed auto
  then show "service_ok (startNew ensured live s)" "set (Svc_tenants s) \<subseteq> set (Svc_tenants (startNew ensured live s))"
    "\<forall>(t, i)\<in>set (Svc_tenants (startNew ensured live s)).
       (t, i) \<in> set (Svc_tenants s) \<or> t \<in> set live \<and> \<not> failed_at (startNew ensured live s) i"
    "\<forall>t\<in>set live. ensured t \<longrightarrow> t \<in> fst ` set (Svc_tenants (startNew ensured live s))"
    "\<forall>i<length (Svc_loops s). failed_at (startNew ensured live s) i = failed_at s i"
    unfolding startNew_def by blast+
qed

lemma map_of_alist_ops: "map_of (AList.delete k xs) = (map_of xs)(k := None)" "map_of (AList.update k v xs) = (map_of xs)(k \<mapsto> v)"
  by (simp_all add: AList.delete_conv' AList.update_conv')

definition gone_now :: "string list \<Rightarrow> service \<Rightarrow> string \<Rightarrow> bool" where
  "gone_now live s t \<longleftrightarrow> t \<notin> set live \<and> DeletionPasses \<le> missing_count s t + 1"

lemma stop_one_fields:
  assumes "\<not> Svc_stopping s"
  shows "Svc_stopping (stop_one live (t, i) s) = Svc_stopping s" "Svc_startFailed (stop_one live (t, i) s) = Svc_startFailed s"
    "length (Svc_loops (stop_one live (t, i) s)) = length (Svc_loops s)" "failed_at (stop_one live (t, i) s) = failed_at s"
    "missing_count (stop_one live (t, i) s) t' =
       (if t' = t then (if t \<in> set live \<or> gone_now live s t then 0 else missing_count s t + 1) else missing_count s t')"
    "Svc_deleting (stop_one live (t, i) s) = Svc_deleting s @ (if gone_now live s t then [(t, i)] else [])"
    "Svc_tenants (stop_one live (t, i) s) = (if gone_now live s t then filter (\<lambda>(t', _). t' \<noteq> t) (Svc_tenants s) else Svc_tenants s)"
  using assms by (auto simp: stop_one_def gone_now_def Let_def missing_count_def map_of_alist_ops failed_at_def fun_eq_iff)

definition stopped_as :: "string list \<Rightarrow> (string \<times> nat) list \<Rightarrow> service \<Rightarrow> service \<Rightarrow> bool" where
  "stopped_as live es s s' \<longleftrightarrow>
     Svc_stopping s' = Svc_stopping s \<and> Svc_startFailed s' = Svc_startFailed s \<and> length (Svc_loops s') = length (Svc_loops s) \<and>
     failed_at s' = failed_at s \<and>
     (\<forall>t. missing_count s' t =
        (if t \<in> fst ` set es then (if t \<in> set live \<or> gone_now live s t then 0 else missing_count s t + 1) else missing_count s t)) \<and>
     Svc_deleting s' = Svc_deleting s @ filter (\<lambda>(t, i). gone_now live s t) es \<and>
     Svc_tenants s' = filter (\<lambda>(t, i). \<not> (t \<in> fst ` set es \<and> gone_now live s t)) (Svc_tenants s)"

lemma fold_stop_one:
  assumes "\<not> Svc_stopping s" "distinct (map fst es)"
  shows "stopped_as live es s (fold (stop_one live) es s)"
  using assms
proof (induction es arbitrary: s)
  case Nil
  then show ?case by (simp add: stopped_as_def)
next
  case (Cons e es)
  obtain t i where e: "e = (t, i)" by (cases e)
  let ?s = "stop_one live (t, i) s"
  note one = stop_one_fields [OF Cons.prems(1), where t = t and live = live and i = i]
  have fresh: "t \<notin> fst ` set es" "distinct (map fst es)" using Cons.prems(2) e by simp_all
  have same: "missing_count ?s t' = missing_count s t'" "gone_now live ?s t' = gone_now live s t'" if "t' \<noteq> t" for t'
    using one(5) [of t'] that by (simp_all add: gone_now_def)
  have del: "filter (\<lambda>(t, j). gone_now live ?s t) es = filter (\<lambda>(t, j). gone_now live s t) es"
  proof (rule filter_cong [OF refl])
    fix x assume "x \<in> set es"
    then have "fst x \<noteq> t" using fresh(1) by auto
    then show "(case x of (t, j) \<Rightarrow> gone_now live ?s t) = (case x of (t, j) \<Rightarrow> gone_now live s t)" using same(2) [of "fst x"] by (cases x) simp
  qed
  have tenants: "filter (\<lambda>(t', j). \<not> (t' \<in> fst ` set es \<and> gone_now live ?s t')) (Svc_tenants ?s) =
      filter (\<lambda>(t', j). \<not> (t' \<in> fst ` set (e # es) \<and> gone_now live s t')) (Svc_tenants s)"
  proof (cases "gone_now live s t")
    case True
    have "(\<lambda>x :: string \<times> nat. (case x of (t', j) \<Rightarrow> t' \<noteq> t) \<and> (case x of (t', j) \<Rightarrow> \<not> (t' \<in> fst ` set es \<and> gone_now live ?s t'))) =
        (\<lambda>(t', j). \<not> (t' \<in> fst ` set (e # es) \<and> gone_now live s t'))"
    proof (rule ext)
      fix x :: "string \<times> nat"
      show "((case x of (t', j) \<Rightarrow> t' \<noteq> t) \<and> (case x of (t', j) \<Rightarrow> \<not> (t' \<in> fst ` set es \<and> gone_now live ?s t'))) =
          (case x of (t', j) \<Rightarrow> \<not> (t' \<in> fst ` set (e # es) \<and> gone_now live s t'))"
        using same(2) [of "fst x"] True by (cases x) (auto simp: e)
    qed
    then show ?thesis using True by (simp only: one(7) if_True filter_filter conj_commute)
  next
    case False
    have "(\<lambda>(t', j :: nat). \<not> (t' \<in> fst ` set es \<and> gone_now live ?s t')) = (\<lambda>(t', j). \<not> (t' \<in> fst ` set (e # es) \<and> gone_now live s t'))"
    proof (rule ext)
      fix x :: "string \<times> nat"
      show "(case x of (t', j) \<Rightarrow> \<not> (t' \<in> fst ` set es \<and> gone_now live ?s t')) =
          (case x of (t', j) \<Rightarrow> \<not> (t' \<in> fst ` set (e # es) \<and> gone_now live s t'))"
        using same(2) [of "fst x"] fresh(1) False by (cases x, cases "fst x = t") (auto simp: e)
    qed
    then show ?thesis using False by (simp only: one(7) if_False)
  qed
  have "\<not> Svc_stopping ?s" using one(1) Cons.prems(1) by simp
  from Cons.IH [OF this fresh(2)] have IH: "stopped_as live es ?s (fold (stop_one live) (e # es) s)" by (simp add: e)
  show ?case unfolding stopped_as_def
  proof (intro conjI allI)
    fix t'
    show "missing_count (fold (stop_one live) (e # es) s) t' =
        (if t' \<in> fst ` set (e # es) then (if t' \<in> set live \<or> gone_now live s t' then 0 else missing_count s t' + 1) else missing_count s t')"
      using IH fresh(1) one(5) [of t'] same [of t'] by (cases "t' = t") (simp_all add: stopped_as_def e)
  qed (use IH one del tenants e in \<open>simp_all add: stopped_as_def\<close>)
qed

text \<open>The state between starting and stopping in a pass, and the pass as a whole.\<close>

definition started :: "(string \<Rightarrow> bool) \<Rightarrow> string list \<Rightarrow> service \<Rightarrow> service" where
  "started ensured tenants s = startNew ensured (remdups tenants) (restartFailed (remdups tenants) s)"

lemma started_tenants:
  assumes "service_ok s"
  shows "service_ok (started ensured tenants s)"
    "\<forall>(t, i)\<in>set (Svc_tenants (started ensured tenants s)).
       (t, i) \<in> set (Svc_tenants s) \<and> \<not> (t \<in> set tenants \<and> failed_at s i) \<and> failed_at (started ensured tenants s) i = failed_at s i \<or>
       t \<in> set tenants \<and> \<not> failed_at (started ensured tenants s) i"
    "\<forall>t\<in>set tenants. ensured t \<longrightarrow> t \<in> fst ` set (Svc_tenants (started ensured tenants s))"
    "missing_count (started ensured tenants s) = missing_count s" "Svc_deleting (started ensured tenants s) = Svc_deleting s"
    "Svc_stopping (started ensured tenants s) = Svc_stopping s"
    "set (Svc_startFailed (started ensured tenants s)) =
       set (Svc_startFailed s) - {t \<in> set tenants. ensured t} \<union> {t \<in> set tenants. \<not> ensured t}"
proof -
  let ?r = "restartFailed (remdups tenants) s"
  have d: "distinct (map fst (Svc_tenants s))" and ids: "\<forall>(t, i)\<in>set (Svc_tenants s). i < length (Svc_loops s)"
    using assms by (simp_all add: service_ok_def)
  note r = restartFailed_tenants [OF d, of "remdups tenants"]
  have ok: "service_ok ?r" using r ids by (auto simp: service_ok_def restartFailed_keeps)
  note new = startNew_tenants [OF ok, where ensured = ensured and live = "remdups tenants"]
  show "service_ok (started ensured tenants s)"
    "\<forall>t\<in>set tenants. ensured t \<longrightarrow> t \<in> fst ` set (Svc_tenants (started ensured tenants s))"
    using new(1,4) by (simp_all add: started_def)
  show "\<forall>(t, i)\<in>set (Svc_tenants (started ensured tenants s)).
       (t, i) \<in> set (Svc_tenants s) \<and> \<not> (t \<in> set tenants \<and> failed_at s i) \<and> failed_at (started ensured tenants s) i = failed_at s i \<or>
       t \<in> set tenants \<and> \<not> failed_at (started ensured tenants s) i"
  proof (intro ballI, clarify)
    fix t i assume mem: "(t, i) \<in> set (Svc_tenants (started ensured tenants s))"
      and new_one: "\<not> (t \<in> set tenants \<and> \<not> failed_at (started ensured tenants s) i)"
    then have old: "(t, i) \<in> set (Svc_tenants ?r)" using new(3) by (auto simp: started_def)
    then have "i < length (Svc_loops ?r)" using ok by (auto simp: service_ok_def)
    then have "failed_at (started ensured tenants s) i = failed_at s i" using new(5) by (simp add: started_def restartFailed_keeps)
    then show "(t, i) \<in> set (Svc_tenants s) \<and> \<not> (t \<in> set tenants \<and> failed_at s i) \<and> failed_at (started ensured tenants s) i = failed_at s i"
      using old r(1) by auto
  qed
  show "missing_count (started ensured tenants s) = missing_count s" "Svc_deleting (started ensured tenants s) = Svc_deleting s"
    "Svc_stopping (started ensured tenants s) = Svc_stopping s"
    "set (Svc_startFailed (started ensured tenants s)) =
       set (Svc_startFailed s) - {t \<in> set tenants. ensured t} \<union> {t \<in> set tenants. \<not> ensured t}"
    by (simp_all add: started_def startNew_keeps restartFailed_keeps missing_count_def fun_eq_iff)
qed

lemma pass_result:
  assumes "service_ok s" "\<not> Svc_stopping s"
  shows "stopped_as (remdups tenants) (Svc_tenants (started ensured tenants s)) (started ensured tenants s)
      ((syncTenants ensured tenants s)\<lparr>Svc_startFailed := Svc_startFailed (started ensured tenants s)\<rparr>)"
    "set (Svc_startFailed (syncTenants ensured tenants s)) = {t \<in> set tenants. \<not> ensured t}"
    "service_ok (syncTenants ensured tenants s)"
proof -
  let ?m = "started ensured tenants s"
  note m = started_tenants [OF assms(1), where ensured = ensured and tenants = tenants]
  have "\<not> Svc_stopping ?m" "distinct (map fst (Svc_tenants ?m))" using m(1,6) assms(2) by (simp_all add: service_ok_def)
  note st = fold_stop_one [OF this, of "remdups tenants"]
  define f where "f = fold (stop_one (remdups tenants)) (Svc_tenants ?m) ?m"
  have sync: "syncTenants ensured tenants s = f\<lparr>Svc_startFailed := filter (\<lambda>t. t \<in> set (remdups tenants)) (Svc_startFailed f)\<rparr>"
    by (simp add: syncTenants_def stopGone_def started_def f_def Let_def)
  have st: "stopped_as (remdups tenants) (Svc_tenants ?m) ?m f" using st by (simp add: f_def)
  have sf: "Svc_startFailed f = Svc_startFailed ?m" using st by (simp add: stopped_as_def)
  show "stopped_as (remdups tenants) (Svc_tenants ?m) ?m ((syncTenants ensured tenants s)\<lparr>Svc_startFailed := Svc_startFailed ?m\<rparr>)"
    using st by (auto simp: sync stopped_as_def missing_count_def failed_at_def fun_eq_iff)
  show "set (Svc_startFailed (syncTenants ensured tenants s)) = {t \<in> set tenants. \<not> ensured t}"
    by (auto simp: sync sf m(7))
  show "service_ok (syncTenants ensured tenants s)"
    using st m(1) by (auto simp: sync stopped_as_def service_ok_def distinct_map_filter)
qed

lemma pass_fields:
  fixes tenants :: "string list" and ensured :: "string \<Rightarrow> bool"
  assumes "service_ok s" "\<not> Svc_stopping s"
  defines "m \<equiv> started ensured tenants s" and "s' \<equiv> syncTenants ensured tenants s"
  shows "failed_at s' = failed_at m"
    "missing_count s' t = (if t \<in> fst ` set (Svc_tenants m) then (if t \<in> set tenants \<or> gone_now tenants s t then 0 else missing_count s t + 1)
                           else missing_count s t)"
    "set (Svc_deleting s') = set (Svc_deleting s) \<union> {(t, i) \<in> set (Svc_tenants m). gone_now tenants s t}"
    "set (Svc_tenants s') = {(t, i) \<in> set (Svc_tenants m). \<not> gone_now tenants s t}"
proof -
  note p = pass_result(1) [OF assms(1,2), of tenants ensured, folded m_def s'_def]
  note m = started_tenants [OF assms(1), where ensured = ensured and tenants = tenants, folded m_def]
  have gone: "gone_now (remdups tenants) m t = gone_now tenants s t" for t by (simp add: gone_now_def m(4))
  show "failed_at s' = failed_at m" using p by (simp add: stopped_as_def failed_at_def fun_eq_iff)
  show "missing_count s' t = (if t \<in> fst ` set (Svc_tenants m) then (if t \<in> set tenants \<or> gone_now tenants s t then 0 else missing_count s t + 1)
                           else missing_count s t)"
  proof -
    have "missing_count (s'\<lparr>Svc_startFailed := Svc_startFailed m\<rparr>) t = (if t \<in> fst ` set (Svc_tenants m)
        then (if t \<in> set (remdups tenants) \<or> gone_now (remdups tenants) m t then 0 else missing_count m t + 1) else missing_count m t)"
      using p unfolding stopped_as_def by blast
    moreover have "missing_count (s'\<lparr>Svc_startFailed := Svc_startFailed m\<rparr>) t = missing_count s' t" by (simp add: missing_count_def)
    ultimately show ?thesis by (simp only: gone m(4) set_remdups)
  qed
  show "set (Svc_deleting s') = set (Svc_deleting s) \<union> {(t, i) \<in> set (Svc_tenants m). gone_now tenants s t}"
    using p by (auto simp: stopped_as_def gone m(5))
  show "set (Svc_tenants s') = {(t, i) \<in> set (Svc_tenants m). \<not> gone_now tenants s t}"
    using p by (force simp: stopped_as_def gone)
qed

lemma started_keeps:
  assumes "service_ok s" "(t, i) \<in> set (Svc_tenants s)" "t \<notin> set tenants"
  shows "(t, i) \<in> set (Svc_tenants (started ensured tenants s))"
proof -
  have d: "distinct (map fst (Svc_tenants s))" and ids: "\<forall>(t, i)\<in>set (Svc_tenants s). i < length (Svc_loops s)"
    using assms(1) by (simp_all add: service_ok_def)
  note r = restartFailed_tenants [OF d, of "remdups tenants"]
  have "service_ok (restartFailed (remdups tenants) s)" using r ids by (auto simp: service_ok_def restartFailed_keeps)
  note new = startNew_tenants(2) [OF this, where ensured = ensured and live = "remdups tenants"]
  then show ?thesis using assms(2,3) r(1) by (auto simp: started_def)
qed

section \<open>The tenants of a running service\<close>

definition absent :: "string \<Rightarrow> string list list \<Rightarrow> bool" where
  "absent t h \<longleftrightarrow> (\<forall>listing\<in>set h. t \<notin> set listing)"

definition service_inv :: "service \<Rightarrow> string list list \<Rightarrow> bool" where
  "service_inv s h \<longleftrightarrow> service_ok s \<and>
     (\<forall>(t, i)\<in>set (Svc_tenants s). missing_count s t \<le> length h \<and> absent t (take (missing_count s t) h)) \<and>
     (\<forall>(t, i)\<in>set (Svc_deleting s). \<exists>n. n + DeletionPasses \<le> length h \<and> absent t (take DeletionPasses (drop n h)))"

lemma service_inv_cong:
  assumes "service_inv s h" "Svc_tenants s' = Svc_tenants s" "Svc_missing s' = Svc_missing s"
    "set (Svc_deleting s') \<subseteq> set (Svc_deleting s)" "length (Svc_loops s') = length (Svc_loops s)"
  shows "service_inv s' h"
  using assms unfolding service_inv_def service_ok_def missing_count_def by auto

lemma fold_cancel_fields:
  "Svc_tenants (fold cancel is s) = Svc_tenants s" "Svc_missing (fold cancel is s) = Svc_missing s"
  "Svc_deleting (fold cancel is s) = Svc_deleting s" "length (Svc_loops (fold cancel is s)) = length (Svc_loops s)"
  by (induction "is" arbitrary: s) simp_all

lemma service_inv_pass:
  assumes inv: "service_inv s h" and run: "\<not> Svc_stopping s"
  shows "service_inv (syncTenants ensured tenants s) (tenants # h)"
proof -
  let ?s = "syncTenants ensured tenants s" and ?m = "started ensured tenants s"
  have ok: "service_ok s" using inv by (simp add: service_inv_def)
  note p = pass_fields [OF ok run, where tenants = tenants and ensured = ensured]
  have old: "(t, i) \<in> set (Svc_tenants s)" if "(t, i) \<in> set (Svc_tenants ?m)" "t \<notin> set tenants" for t i
    using started_tenants(2) [OF ok, where ensured = ensured and tenants = tenants] that by auto
  have count: "missing_count s t \<le> length h \<and> absent t (take (missing_count s t) h)" if "(t, i) \<in> set (Svc_tenants s)" for t i
    using inv that by (auto simp: service_inv_def)
  have "missing_count ?s t \<le> length (tenants # h) \<and> absent t (take (missing_count ?s t) (tenants # h))" if "(t, i) \<in> set (Svc_tenants ?s)" for t i
  proof (cases "t \<in> set tenants")
    case False
    have m: "(t, i) \<in> set (Svc_tenants ?m)" "\<not> gone_now tenants s t" using that p(4) by auto
    then have "missing_count ?s t = missing_count s t + 1" using p(2) [of t] False by force
    then show ?thesis using count [OF old [OF m(1) False]] False by (simp add: absent_def)
  next
    case True
    have "(t, i) \<in> set (Svc_tenants ?m)" using that p(4) by auto
    then show ?thesis using p(2) [of t] True by (force simp: absent_def)
  qed
  moreover have "\<exists>n. n + DeletionPasses \<le> length (tenants # h) \<and> absent t (take DeletionPasses (drop n (tenants # h)))"
    if del: "(t, i) \<in> set (Svc_deleting ?s)" for t i
  proof (cases "(t, i) \<in> set (Svc_deleting s)")
    case True
    then obtain n where "n + DeletionPasses \<le> length h" "absent t (take DeletionPasses (drop n h))" using inv by (auto simp: service_inv_def)
    then show ?thesis by (intro exI [of _ "Suc n"]) simp
  next
    case False
    then have m: "(t, i) \<in> set (Svc_tenants ?m)" "t \<notin> set tenants" "DeletionPasses \<le> missing_count s t + 1"
      using del p(3) by (auto simp: gone_now_def)
    have c: "missing_count s t \<le> length h" "absent t (take (missing_count s t) h)" using count [OF old [OF m(1,2)]] by blast+
    have "take 2 h = take 2 (take (missing_count s t) h)" using m(3) by (simp add: DeletionPasses_def min_def)
    then have "absent t (take 2 h)" using c(2) unfolding absent_def by (metis in_set_takeD)
    then show ?thesis using m(2,3) c(1) by (intro exI [of _ 0]) (auto simp: absent_def DeletionPasses_def numeral_3_eq_3 numeral_2_eq_2)
  qed
  ultimately show ?thesis using pass_result(3) [OF ok run, of ensured tenants] unfolding service_inv_def by auto
qed

lemma service_runs_inv: "service_runs s db h \<Longrightarrow> service_inv s h"
proof (induction rule: service_runs.induct)
  case (service_start db)
  show ?case by (simp add: service_inv_def service_ok_def service_New_def)
next
  case (service_pass s db h ensured tenants)
  then show ?case by (simp add: service_inv_pass)
next
  case (service_deleted s db h entry deletable s' db')
  then show ?case by (intro service_inv_cong [OF service_deleted.IH]) (auto simp: deleteRows_def dest: set_remove1_subset [THEN subsetD])
next
  case (service_stop s db h)
  then show ?case by (intro service_inv_cong [OF service_stop.IH]) (simp_all add: stopAll_begin_def fold_cancel_fields)
next
  case (service_close s db h)
  then show ?case by (intro service_inv_cong [OF service_close.IH]) (simp_all add: stopAll_close_def)
qed (erule service_inv_cong; simp add: set_loops_def)+

text \<open>
  C7: one incomplete listing does not destroy billing history. In every run of the service, a tenant whose rows are
  to be deleted was missing from three listings in a row.
\<close>

theorem deletion_needs_three_missing_listings:
  assumes "service_runs s db h" "(tenant, i) \<in> set (Svc_deleting s)"
  shows "\<exists>n. n + 3 \<le> length h \<and> tenant \<notin> set (h ! n) \<and> tenant \<notin> set (h ! (n + 1)) \<and> tenant \<notin> set (h ! (n + 2))"
proof -
  obtain n where n: "n + 3 \<le> length h" "absent tenant (take 3 (drop n h))"
    using service_runs_inv [OF assms(1)] assms(2) by (auto simp: service_inv_def DeletionPasses_def)
  have "h ! (n + k) \<in> set (take 3 (drop n h))" if "k < 3" for k
  proof -
    have "k < length (take 3 (drop n h))" using n(1) that by simp
    then have "take 3 (drop n h) ! k \<in> set (take 3 (drop n h))" by (rule nth_mem)
    then show ?thesis using n(1) that by simp
  qed
  from this [of 0] this [of 1] this [of 2] show ?thesis using n by (auto simp: absent_def)
qed


section \<open>Two runs\<close>

text \<open>A tenant that is listed once and then missing from three listings, and one that comes back before its rows are deleted.\<close>

definition gone_service :: service where
  "gone_service = fold (syncTenants (\<lambda>_. True)) [[''a''], [], [], []] service_New"

definition back_service :: service where
  "back_service = set_loops 0 (\<lambda>l. l\<lparr>Loop_stopped := True\<rparr>) (syncTenants (\<lambda>_. True) [''a''] gone_service)"

lemma gone_service_state:
  "Svc_deleting gone_service = [(''a'', 0)]" "Svc_loops gone_service = [\<lparr>Loop_cancelled = True, Loop_stopped = False, Loop_failed = False\<rparr>]"
  "Svc_tenants gone_service = []" "Svc_draining gone_service = []" "\<not> Svc_stopping gone_service"
  by code_simp+

lemma gone_service_runs: "service_runs gone_service db [[], [], [], [''a'']]"
proof -
  let ?p = "syncTenants (\<lambda>_. True)"
  have not_stopping: "\<not> Svc_stopping service_New" "\<not> Svc_stopping (?p [''a''] service_New)" "\<not> Svc_stopping (?p [] (?p [''a''] service_New))"
    "\<not> Svc_stopping (?p [] (?p [] (?p [''a''] service_New)))" by code_simp+
  have "service_runs (?p [] (?p [] (?p [] (?p [''a''] service_New)))) db [[], [], [], [''a'']]"
    by (intro service_pass service_start not_stopping)
  then show ?thesis by (simp add: gone_service_def)
qed

lemma back_service_state:
  "Svc_tenants back_service = [(''a'', 1)]" "Svc_deleting back_service = [(''a'', 0)]" "Loop_stopped (Svc_loops back_service ! 0)"
  "Svc_loops back_service ! 1 = new_loops"
  by code_simp+

lemma back_service_runs: "service_runs back_service (EnsureProgress ''a'' db) [[''a''], [], [], [], [''a'']]"
proof -
  let ?s = "syncTenants (\<lambda>_. True) [''a''] gone_service"
  have "service_runs ?s db [[''a''], [], [], [], [''a'']]" by (intro service_pass gone_service_runs gone_service_state)
  moreover have "0 < length (Svc_loops ?s)" "Loop_cancelled (Svc_loops ?s ! 0)" by code_simp+
  ultimately have "service_runs back_service db [[''a''], [], [], [], [''a'']]" unfolding back_service_def by (intro service_end)
  then show ?thesis by (rule service_work [of _ _ _ "''a''" 1]) (simp_all add: back_service_state new_loops_def del: One_nat_def)
qed

text \<open>
  The rows of a tenant that came back are deleted under its new loops: \<^verbatim>\<open>deleteRows\<close> looks whether the tenant
  is running again before it drops the metric series, but not before it deletes the rows.
\<close>

lemma returned_tenant_loses_its_rows:
  "\<exists>s db h s' db'. service_runs s db h \<and> map_of (Svc_tenants s) ''a'' = Some 1 \<and> Svc_loops s ! 1 = new_loops \<and> GetProgress db ''a'' \<noteq> None \<and>
     deleteRows True (''a'', 0) s db = (s', db') \<and> service_runs s' db' h \<and>
     map_of (Svc_tenants s') ''a'' = Some 1 \<and> Svc_loops s' ! 1 = new_loops \<and> GetProgress db' ''a'' = None"
proof -
  let ?db = "EnsureProgress ''a'' empty_store"
  let ?s' = "fst (deleteRows True (''a'', 0) back_service ?db)" and ?db' = "snd (deleteRows True (''a'', 0) back_service ?db)"
  have "service_runs ?s' ?db' [[''a''], [], [], [], [''a'']]"
    by (rule service_deleted [OF back_service_runs [of empty_store], of "(''a'', 0)"]) (simp_all add: back_service_state)
  moreover have "GetProgress ?db ''a'' \<noteq> None" "GetProgress ?db' ''a'' = None"
    by (simp_all add: GetProgress_def EnsureProgress_def empty_store_def deleteRows_def DeleteTenantRows_def)
  moreover have "Svc_tenants ?s' = Svc_tenants back_service" "Svc_loops ?s' = Svc_loops back_service" by (simp_all add: deleteRows_def)
  ultimately show ?thesis
    using back_service_runs [of empty_store] back_service_state(1,4)
    by (intro exI [of _ back_service] exI [of _ ?db] exI [of _ "[[''a''], [], [], [], [''a'']]"] exI [of _ ?s'] exI [of _ ?db'])
      (simp del: One_nat_def)
qed

text \<open>
  The shutdown closes the Kafka clients under loops that are still stopping: those of a gone tenant are neither among
  the tenants nor draining, so \<^verbatim>\<open>stopAll\<close> does not wait for them.
\<close>

lemma shutdown_closes_under_gone_loops:
  "\<exists>s db h. service_runs s db h \<and> Svc_closed s \<and> (\<exists>(t, i)\<in>set (Svc_deleting s). \<not> Loop_stopped (Svc_loops s ! i))"
proof -
  let ?stop = "stopAll_begin gone_service"
  have stop: "Svc_stopping ?stop" "stopAll_waits ?stop = []" "Svc_deleting ?stop = [(''a'', 0)]" "\<not> Loop_stopped (Svc_loops ?stop ! 0)"
    using gone_service_state by (simp_all add: stopAll_begin_def stopAll_waits_def)
  have "service_runs (stopAll_close ?stop) empty_store [[], [], [], [''a'']]"
    by (intro service_close service_stop gone_service_runs stop(1)) (simp add: stop(2))
  moreover have "Svc_closed (stopAll_close ?stop)" "Svc_deleting (stopAll_close ?stop) = Svc_deleting ?stop"
    "Svc_loops (stopAll_close ?stop) = Svc_loops ?stop" by (simp_all add: stopAll_close_def)
  ultimately show ?thesis using stop(3,4) by (intro exI [of _ "stopAll_close ?stop"] exI [of _ empty_store] exI [of _ "[[], [], [], [''a'']]"]) simp
qed

theorem deletion_needs_three_missing_listings_witness:
  "service_runs gone_service empty_store [[], [], [], [''a'']] \<and> (''a'', 0) \<in> set (Svc_deleting gone_service) \<and>
   (\<exists>n. n + 3 \<le> length [[], [], [], [''a'']] \<and> ''a'' \<notin> set ([[], [], [], [''a'']] ! n))"
proof -
  have mem: "(''a'', 0) \<in> set (Svc_deleting gone_service)" by (simp add: gone_service_state)
  show ?thesis using gone_service_runs [of empty_store] mem deletion_needs_three_missing_listings [OF gone_service_runs mem] by blast
qed


end
