(* ===== verification/Adapter_Retry.thy ===== *)
theory Adapter_Retry
  imports Go_Time
begin

text \<open>
  The caches of the adapter runner and its retry loop: \<^verbatim>\<open>dedup.go\<close>, \<^verbatim>\<open>order.go\<close> and
  \<^verbatim>\<open>retry.go\<close> of \<^verbatim>\<open>adapters/internal/runner\<close>. Each cache is a Go map, here a function to
  \<open>option\<close>, whose entries expire; the time an operation reads from the clock is its argument \<open>now\<close>.
\<close>

section \<open>The three caches\<close>

type_synonym dedup_cache = "string \<rightharpoonup> time"

definition dedup_expired :: "duration \<Rightarrow> time \<Rightarrow> time \<Rightarrow> bool" where
  "dedup_expired ttl now ts \<longleftrightarrow> time_sub now ts > ttl"

definition dedup_contains :: "duration \<Rightarrow> time \<Rightarrow> string \<Rightarrow> dedup_cache \<Rightarrow> bool \<times> dedup_cache" where
  "dedup_contains ttl now eventID c =
     (case c eventID of
        None \<Rightarrow> (False, c)
      | Some ts \<Rightarrow> if dedup_expired ttl now ts then (False, c(eventID := None)) else (True, c))"

definition dedup_add :: "time \<Rightarrow> string \<Rightarrow> dedup_cache \<Rightarrow> dedup_cache" where
  "dedup_add now eventID c = c(eventID \<mapsto> now)"

definition dedup_evictExpired :: "duration \<Rightarrow> time \<Rightarrow> dedup_cache \<Rightarrow> dedup_cache" where
  "dedup_evictExpired ttl now c =
     (\<lambda>eventID. case c eventID of None \<Rightarrow> None | Some ts \<Rightarrow> if dedup_expired ttl now ts then None else Some ts)"

record orderEntry =
  Entry_transitionTime :: time
  Entry_updatedAt :: time

type_synonym order_tracker = "string \<rightharpoonup> orderEntry"

definition order_expired :: "duration \<Rightarrow> time \<Rightarrow> orderEntry \<Rightarrow> bool" where
  "order_expired ttl now entry \<longleftrightarrow> time_sub now (Entry_updatedAt entry) > ttl"

definition order_check :: "time \<Rightarrow> string \<Rightarrow> time \<Rightarrow> order_tracker \<Rightarrow> bool \<times> order_tracker" where
  "order_check now resourceID transitionTime t =
     (case t resourceID of
        Some entry \<Rightarrow>
          if transitionTime < Entry_transitionTime entry
          then (True, t(resourceID \<mapsto> entry\<lparr>Entry_updatedAt := now\<rparr>))
          else (False, t(resourceID \<mapsto> \<lparr>Entry_transitionTime = transitionTime, Entry_updatedAt = now\<rparr>))
      | None \<Rightarrow> (False, t(resourceID \<mapsto> \<lparr>Entry_transitionTime = transitionTime, Entry_updatedAt = now\<rparr>)))"

definition order_evictExpired :: "duration \<Rightarrow> time \<Rightarrow> order_tracker \<Rightarrow> order_tracker" where
  "order_evictExpired ttl now t =
     (\<lambda>resourceID. case t resourceID of None \<Rightarrow> None | Some entry \<Rightarrow> if order_expired ttl now entry then None else Some entry)"

record retryKey =
  Retry_Topic :: string
  Retry_Partition :: int
  Retry_Offset :: int

record retryEntry =
  Entry_Attempts :: int
  Entry_NextEligible :: time

definition zero_retryEntry :: retryEntry where
  "zero_retryEntry = \<lparr>Entry_Attempts = 0, Entry_NextEligible = zero_time\<rparr>"

type_synonym retry_cache = "retryKey \<rightharpoonup> retryEntry"

definition retry_expired :: "duration \<Rightarrow> time \<Rightarrow> retryEntry \<Rightarrow> bool" where
  "retry_expired ttl now entry \<longleftrightarrow> time_sub now (Entry_NextEligible entry) > ttl"

definition retry_resume :: "duration \<Rightarrow> time \<Rightarrow> retryKey \<Rightarrow> retry_cache \<Rightarrow> retryEntry \<times> retry_cache" where
  "retry_resume ttl now key c =
     (case c key of
        None \<Rightarrow> (zero_retryEntry, c)
      | Some entry \<Rightarrow> if retry_expired ttl now entry then (zero_retryEntry, c(key := None)) else (entry, c))"

definition retry_record :: "retryKey \<Rightarrow> retryEntry \<Rightarrow> retry_cache \<Rightarrow> retry_cache" where
  "retry_record key entry c = c(key \<mapsto> entry)"

definition retry_remove :: "retryKey \<Rightarrow> retry_cache \<Rightarrow> retry_cache" where
  "retry_remove key c = c(key := None)"

definition retry_evictExpired :: "duration \<Rightarrow> time \<Rightarrow> retry_cache \<Rightarrow> retry_cache" where
  "retry_evictExpired ttl now c =
     (\<lambda>key. case c key of None \<Rightarrow> None | Some entry \<Rightarrow> if retry_expired ttl now entry then None else Some entry)"

section \<open>Backoff and the retry loop\<close>

definition initialBackoff :: duration where "initialBackoff = second"
definition maxBackoff :: duration where "maxBackoff = 300 * second"

fun backoff_loop :: "nat \<Rightarrow> duration \<Rightarrow> duration" where
  "backoff_loop 0 backoff = backoff"
| "backoff_loop (Suc i) backoff =
     (let doubled = wrap64 (backoff * 2) in if doubled > maxBackoff then maxBackoff else backoff_loop i doubled)"

text \<open>
  \<open>jitter backoff\<close> is the whole number of nanoseconds of the product of the backoff, a quarter, and a random factor
  between minus one and one.
\<close>

definition calculateBackoff :: "(duration \<Rightarrow> duration) \<Rightarrow> int \<Rightarrow> duration" where
  "calculateBackoff jitter attempt =
     (let backoff = backoff_loop (nat attempt) initialBackoff in wrap64 (backoff + jitter backoff))"

datatype submit_answer = Accepted | NonRetryableError string | OtherError string

text \<open>
  What a call of \<^verbatim>\<open>submitWithRetry\<close> meets: the time of its start, the provider's answer to the Submit of
  each attempt, the random jitter, the time its progress is recorded and whether the session ends in the backoff
  after the attempt.
\<close>

record submit_env =
  Env_Start :: time
  Env_Submit :: "int \<Rightarrow> submit_answer"
  Env_Jitter :: "int \<Rightarrow> duration \<Rightarrow> duration"
  Env_Now :: "int \<Rightarrow> time"
  Env_Cancelled :: "int \<Rightarrow> bool"

record retryResult =
  Result_Attempts :: int
  Result_NonRetryable :: bool
  Result_Exhausted :: bool
  Result_Err :: "string option"

definition contextError :: string where "contextError = ''context canceled''"

function submit_loop :: "submit_env \<Rightarrow> retryKey \<Rightarrow> int \<Rightarrow> int \<Rightarrow> retry_cache \<Rightarrow> retryResult \<times> retry_cache" where
  "submit_loop env key maxRetries attempt c =
     (if attempt < maxRetries then
        (case Env_Submit env attempt of
           Accepted \<Rightarrow>
             (\<lparr>Result_Attempts = attempt + 1, Result_NonRetryable = False, Result_Exhausted = False, Result_Err = None\<rparr>,
              retry_remove key c)
         | NonRetryableError err \<Rightarrow>
             (\<lparr>Result_Attempts = attempt + 1, Result_NonRetryable = True, Result_Exhausted = False, Result_Err = Some err\<rparr>,
              retry_remove key c)
         | OtherError err \<Rightarrow>
             if attempt < maxRetries - 1 then
               (let backoff = calculateBackoff (Env_Jitter env attempt) attempt;
                    c' = retry_record key \<lparr>Entry_Attempts = attempt + 1, Entry_NextEligible = Env_Now env attempt + backoff\<rparr> c
                in if Env_Cancelled env attempt
                   then (\<lparr>Result_Attempts = attempt + 1, Result_NonRetryable = False, Result_Exhausted = False,
                          Result_Err = Some contextError\<rparr>, c')
                   else submit_loop env key maxRetries (attempt + 1) c')
             else (\<lparr>Result_Attempts = maxRetries, Result_NonRetryable = False, Result_Exhausted = True, Result_Err = Some err\<rparr>,
                   retry_remove key c))
      else (\<lparr>Result_Attempts = maxRetries, Result_NonRetryable = False, Result_Exhausted = True,
             Result_Err = Some (''submit not attempted: maxRetries '' @ int_text maxRetries)\<rparr>, c))"
  by pat_completeness auto

termination submit_loop
  by (relation "measure (\<lambda>(env, key, maxRetries, attempt, c). nat (maxRetries - attempt))") auto

declare submit_loop.simps [simp del]

definition submitWithRetry :: "submit_env \<Rightarrow> duration \<Rightarrow> retryKey \<Rightarrow> int \<Rightarrow> retry_cache \<Rightarrow> retryResult \<times> retry_cache" where
  "submitWithRetry env ttl key maxRetries0 c =
     (let maxRetries = (if maxRetries0 < 1 then 1 else maxRetries0);
          (prior, c') = retry_resume ttl (Env_Start env) key c
      in submit_loop env key maxRetries (Entry_Attempts prior) c')"

section \<open>What the caches promise\<close>

text \<open>
  An expiring cache: its eviction drops exactly the entries that are expired, and what is expired stays expired.
  The eviction runs in a goroutine of its own, at any time between the other operations.
\<close>

definition live :: "(time \<Rightarrow> 'v \<Rightarrow> bool) \<Rightarrow> time \<Rightarrow> ('k \<rightharpoonup> 'v) \<Rightarrow> 'k \<rightharpoonup> 'v" where
  "live expired now c k = (case c k of None \<Rightarrow> None | Some v \<Rightarrow> if expired now v then None else Some v)"

locale expiring_cache =
  fixes expired :: "time \<Rightarrow> 'v \<Rightarrow> bool"
    and evict :: "time \<Rightarrow> ('k \<rightharpoonup> 'v) \<Rightarrow> ('k \<rightharpoonup> 'v)"
  assumes evict_live: "evict now c = live expired now c"
    and expired_later: "now \<le> later \<Longrightarrow> expired now v \<Longrightarrow> expired later v"
begin

lemma live_live: "now \<le> later \<Longrightarrow> live expired later (live expired now c) = live expired later c"
  by (auto simp: live_def fun_eq_iff expired_later split: option.splits)

lemma evict_le: "evict now c \<subseteq>\<^sub>m c"
  by (auto simp: map_le_def evict_live live_def split: option.splits if_splits)

lemma evict_invisible: "now \<le> later \<Longrightarrow> live expired later (evict now c) = live expired later c"
  by (simp add: evict_live live_live)

lemma evict_evict: "now \<le> later \<Longrightarrow> evict later (evict now c) = evict later c"
  by (simp add: evict_live live_live)

lemma live_upd: "live expired now (c(k \<mapsto> v)) = (live expired now c)(k := if expired now v then None else Some v)"
  by (auto simp: live_def fun_eq_iff)

lemma live_drop: "live expired now (c(k := None)) = (live expired now c)(k := None)"
  by (auto simp: live_def fun_eq_iff)

end

text \<open>Of an arbitrary sequence of writes, lookups and evictions only the writes can be seen by a later lookup.\<close>

datatype ('k, 'v) cache_op = Put 'k "'v option" | Look time 'k | Evict time

fun op_time_le :: "time \<Rightarrow> ('k, 'v) cache_op \<Rightarrow> bool" where
  "op_time_le now (Put k v) \<longleftrightarrow> True"
| "op_time_le now (Look t k) \<longleftrightarrow> t \<le> now"
| "op_time_le now (Evict t) \<longleftrightarrow> t \<le> now"

fun cache_run :: "(time \<Rightarrow> 'k \<Rightarrow> ('k \<rightharpoonup> 'v) \<Rightarrow> 'r \<times> ('k \<rightharpoonup> 'v)) \<Rightarrow> (time \<Rightarrow> ('k \<rightharpoonup> 'v) \<Rightarrow> ('k \<rightharpoonup> 'v)) \<Rightarrow>
    ('k, 'v) cache_op list \<Rightarrow> ('k \<rightharpoonup> 'v) \<Rightarrow> ('k \<rightharpoonup> 'v)" where
  "cache_run lookup evict [] c = c"
| "cache_run lookup evict (Put k v # ops) c = cache_run lookup evict ops (c(k := v))"
| "cache_run lookup evict (Look t k # ops) c = cache_run lookup evict ops (snd (lookup t k c))"
| "cache_run lookup evict (Evict t # ops) c = cache_run lookup evict ops (evict t c)"

fun last_put :: "('k, 'v) cache_op list \<Rightarrow> ('k \<rightharpoonup> 'v) \<Rightarrow> ('k \<rightharpoonup> 'v)" where
  "last_put [] c = c"
| "last_put (Put k v # ops) c = last_put ops (c(k := v))"
| "last_put (Look t k # ops) c = last_put ops c"
| "last_put (Evict t # ops) c = last_put ops c"

locale checked_cache = expiring_cache expired evict
  for expired :: "time \<Rightarrow> 'v \<Rightarrow> bool" and evict :: "time \<Rightarrow> ('k \<rightharpoonup> 'v) \<Rightarrow> ('k \<rightharpoonup> 'v)" +
  fixes lookup :: "time \<Rightarrow> 'k \<Rightarrow> ('k \<rightharpoonup> 'v) \<Rightarrow> 'r \<times> ('k \<rightharpoonup> 'v)"
    and found :: "'v option \<Rightarrow> 'r"
  assumes lookup_result: "fst (lookup now k c) = found (live expired now c k)"
    and lookup_state: "snd (lookup now k c) = (if live expired now c k = None then c(k := None) else c)"
begin

lemma lookup_invisible: "now \<le> later \<Longrightarrow> live expired later (snd (lookup now k c)) = live expired later c"
proof -
  assume le: "now \<le> later"
  show ?thesis
  proof (cases "live expired now c k")
    case None
    then have "live expired later c k = None" using expired_later [OF le] by (auto simp: live_def split: option.splits if_splits)
    then show ?thesis using None by (simp add: lookup_state live_drop fun_upd_idem)
  qed (simp add: lookup_state)
qed

lemma run_live:
  assumes "\<forall>op\<in>set ops. op_time_le now op" "live expired now c = live expired now c'"
  shows "live expired now (cache_run lookup evict ops c) = live expired now (last_put ops c')"
  using assms
proof (induction ops arbitrary: c c')
  case (Cons op ops)
  show ?case
  proof (cases op)
    case (Put k v)
    have "live expired now (c(k := v)) = live expired now (c'(k := v))"
      using Cons.prems(2) by (cases v) (simp_all add: live_drop live_upd)
    moreover have "\<forall>op\<in>set ops. op_time_le now op" using Cons.prems(1) by simp
    ultimately show ?thesis unfolding Put cache_run.simps last_put.simps by (intro Cons.IH)
  next
    case (Look t k)
    then show ?thesis using Cons.IH [of "snd (lookup t k c)" c'] Cons.prems by (simp add: lookup_invisible)
  next
    case (Evict t)
    then show ?thesis using Cons.IH [of "evict t c" c'] Cons.prems by (simp add: evict_invisible)
  qed
qed simp

lemma lookup_run:
  assumes "\<forall>op\<in>set ops. op_time_le now op"
  shows "fst (lookup now k (cache_run lookup evict ops c)) = found (live expired now (last_put ops c) k)"
  by (simp only: lookup_result run_live [OF assms refl])

end

lemma time_sub_mono: "a \<le> b \<Longrightarrow> time_sub a c \<le> time_sub b c"
  by (auto simp: time_sub_def)

interpretation dedup: checked_cache "dedup_expired ttl" "dedup_evictExpired ttl" "dedup_contains ttl" "\<lambda>v. v \<noteq> None"
  for ttl
proof unfold_locales
  show "now \<le> later \<Longrightarrow> dedup_expired ttl now v \<Longrightarrow> dedup_expired ttl later v" for now later v
    using time_sub_mono [of now later v] by (simp add: dedup_expired_def)
qed (auto simp: dedup_evictExpired_def dedup_contains_def live_def fun_eq_iff split: option.splits)

interpretation order: expiring_cache "order_expired ttl" "order_evictExpired ttl :: time \<Rightarrow> order_tracker \<Rightarrow> order_tracker"
  for ttl
proof unfold_locales
  show "now \<le> later \<Longrightarrow> order_expired ttl now v \<Longrightarrow> order_expired ttl later v" for now later v
    using time_sub_mono [of now later "Entry_updatedAt v"] by (simp add: order_expired_def)
qed (auto simp: order_evictExpired_def live_def fun_eq_iff split: option.splits)

interpretation retry: checked_cache "retry_expired ttl" "retry_evictExpired ttl" "retry_resume ttl"
  "\<lambda>v. case v of None \<Rightarrow> zero_retryEntry | Some entry \<Rightarrow> entry"
  for ttl
proof unfold_locales
  show "now \<le> later \<Longrightarrow> retry_expired ttl now v \<Longrightarrow> retry_expired ttl later v" for now later v
    using time_sub_mono [of now later "Entry_NextEligible v"] by (simp add: retry_expired_def)
qed (auto simp: retry_evictExpired_def retry_resume_def live_def fun_eq_iff split: option.splits)

section \<open>Backoff\<close>

lemma backoff_loop_cap:
  "0 < b \<Longrightarrow> b \<le> maxBackoff \<Longrightarrow> backoff_loop n b = min maxBackoff (2 ^ n * b)"
proof (induction n arbitrary: b)
  case (Suc n)
  have w: "wrap64 (b * 2) = b * 2" using Suc.prems by (intro wrap64_id) (simp add: maxBackoff_def is_int64_def)
  show ?case
  proof (cases "b * 2 > maxBackoff")
    case True
    moreover have "b * 2 \<le> 2 ^ Suc n * b" using Suc.prems(1) by simp
    ultimately have "maxBackoff \<le> 2 ^ Suc n * b" by linarith
    then show ?thesis using True w by (simp only: backoff_loop.simps Let_def if_True min_absorb1)
  next
    case False
    then show ?thesis using Suc.IH [of "b * 2"] Suc.prems w by (simp add: mult.assoc mult.commute)
  qed
qed (simp add: min_def)

text \<open>
  The wait before the next attempt doubles from one second up to five minutes, give or take a quarter: with a
  random jitter of at most a quarter of the backoff it lies between three and five quarters of
  \<open>min 300 (2 ^ attempt)\<close> seconds, without overflow.
\<close>

lemma backoff_doubles_to_five_minutes:
  assumes "0 \<le> attempt" "\<forall>b. 0 \<le> b \<longrightarrow> 4 * \<bar>jitter b\<bar> \<le> b"
  shows "let exact = min 300 (2 ^ nat attempt) * second
         in 3 * exact \<le> 4 * calculateBackoff jitter attempt \<and> 4 * calculateBackoff jitter attempt \<le> 5 * exact"
proof -
  define exact where "exact = min 300 (2 ^ nat attempt) * second"
  have "backoff_loop (nat attempt) initialBackoff = min maxBackoff (2 ^ nat attempt * initialBackoff)"
    by (rule backoff_loop_cap) (simp_all add: initialBackoff_def maxBackoff_def)
  then have loop: "backoff_loop (nat attempt) initialBackoff = exact"
    by (simp add: exact_def initialBackoff_def maxBackoff_def min_mult_distrib_right)
  have range: "0 \<le> exact" "exact \<le> 300 * second" by (simp_all add: exact_def)
  have j: "4 * \<bar>jitter exact\<bar> \<le> exact" using assms(2) range(1) by blast
  have "is_int64 (exact + jitter exact)" using range j by (simp add: is_int64_def) linarith
  then have "calculateBackoff jitter attempt = exact + jitter exact" by (simp add: calculateBackoff_def loop wrap64_id)
  then show ?thesis using j unfolding exact_def [symmetric] Let_def by linarith
qed

section \<open>One call of the retry loop\<close>

text \<open>How a call ends at its last attempt \<open>k\<close>, counted from zero.\<close>

definition ends_at :: "submit_env \<Rightarrow> retryKey \<Rightarrow> int \<Rightarrow> int \<Rightarrow> retryResult \<Rightarrow> retry_cache \<Rightarrow> bool" where
  "ends_at env key maxRetries k res c' \<longleftrightarrow> Result_Attempts res = k + 1 \<and>
     (case Env_Submit env k of
        Accepted \<Rightarrow> Result_Err res = None \<and> c' key = None
      | NonRetryableError err \<Rightarrow> Result_NonRetryable res \<and> Result_Err res = Some err \<and> c' key = None
      | OtherError err \<Rightarrow>
          if k = maxRetries - 1
          then Result_Exhausted res \<and> \<not> Result_NonRetryable res \<and> Result_Err res = Some err \<and> c' key = None
          else Env_Cancelled env k \<and> \<not> Result_Exhausted res \<and> \<not> Result_NonRetryable res \<and> Result_Err res = Some contextError \<and>
            c' key = Some \<lparr>Entry_Attempts = k + 1,
              Entry_NextEligible = Env_Now env k + calculateBackoff (Env_Jitter env k) k\<rparr>)"

lemma submit_loop_ends:
  assumes "attempt < maxRetries" "submit_loop env key maxRetries attempt c = (res, c')"
  shows "\<exists>k. attempt \<le> k \<and> k < maxRetries \<and>
      (\<forall>j. attempt \<le> j \<and> j < k \<longrightarrow> (\<exists>e. Env_Submit env j = OtherError e) \<and> \<not> Env_Cancelled env j) \<and>
      ends_at env key maxRetries k res c' \<and> (\<forall>other. other \<noteq> key \<longrightarrow> c' other = c other)"
  using assms
proof (induction env key maxRetries attempt c rule: submit_loop.induct)
  case (1 env key maxRetries attempt c)
  note run = "1.prems"(2) [unfolded submit_loop.simps [of env key maxRetries attempt c]]
  define c1 where "c1 = retry_record key \<lparr>Entry_Attempts = attempt + 1,
    Entry_NextEligible = Env_Now env attempt + calculateBackoff (Env_Jitter env attempt) attempt\<rparr> c"
  show ?case
  proof (cases "\<exists>e. Env_Submit env attempt = OtherError e \<and> attempt < maxRetries - 1 \<and> \<not> Env_Cancelled env attempt")
    case True
    then obtain e where e: "Env_Submit env attempt = OtherError e" "attempt < maxRetries - 1" "\<not> Env_Cancelled env attempt" by blast
    then have next_run: "submit_loop env key maxRetries (attempt + 1) c1 = (res, c')" using run "1.prems"(1) by (simp add: c1_def Let_def)
    from "1.IH" [OF "1.prems"(1) e(1,2) refl c1_def e(3) _ next_run] e(2)
    obtain k where k: "attempt + 1 \<le> k" "k < maxRetries"
      "\<forall>j. attempt + 1 \<le> j \<and> j < k \<longrightarrow> (\<exists>e. Env_Submit env j = OtherError e) \<and> \<not> Env_Cancelled env j"
      "ends_at env key maxRetries k res c'" "\<forall>other. other \<noteq> key \<longrightarrow> c' other = c1 other" by auto
    have "\<forall>j. attempt \<le> j \<and> j < k \<longrightarrow> (\<exists>e. Env_Submit env j = OtherError e) \<and> \<not> Env_Cancelled env j"
      using k(3) e(1,3) by (metis add1_zle_eq order_le_less)
    moreover have "\<forall>other. other \<noteq> key \<longrightarrow> c' other = c other" using k(5) by (simp add: c1_def retry_record_def)
    ultimately show ?thesis using k(1,2,4) by (intro exI [of _ k]) auto
  next
    case False
    then have "ends_at env key maxRetries attempt res c' \<and> (\<forall>other. other \<noteq> key \<longrightarrow> c' other = c other)"
      using run "1.prems"(1) by (auto simp: ends_at_def retry_remove_def retry_record_def Let_def split: submit_answer.splits if_splits)
    then show ?thesis using "1.prems"(1) by (intro exI [of _ attempt]) auto
  qed
qed

section \<open>The retry budget of a record\<close>

definition retries_ok :: "int \<Rightarrow> retry_cache \<Rightarrow> bool" where
  "retries_ok maxRetries c \<longleftrightarrow> (\<forall>key entry. c key = Some entry \<longrightarrow> 0 \<le> Entry_Attempts entry \<and> Entry_Attempts entry < maxRetries)"

definition interrupted :: "retryResult \<Rightarrow> bool" where
  "interrupted res \<longleftrightarrow> Result_Err res \<noteq> None \<and> \<not> Result_NonRetryable res \<and> \<not> Result_Exhausted res"

lemma resume_cases:
  assumes "retries_ok maxRetries c" "1 \<le> maxRetries"
  shows "0 \<le> Entry_Attempts (fst (retry_resume ttl now key c))" "Entry_Attempts (fst (retry_resume ttl now key c)) < maxRetries"
    "retries_ok maxRetries (snd (retry_resume ttl now key c))"
    "other \<noteq> key \<Longrightarrow> snd (retry_resume ttl now key c) other = c other"
  using assms by (auto simp: retry_resume_def retries_ok_def zero_retryEntry_def split: option.splits if_splits)

lemma submitWithRetry_ends:
  assumes "retries_ok maxRetries c" "1 \<le> maxRetries" "submitWithRetry env ttl key maxRetries c = (res, c')"
  shows "\<exists>k. Entry_Attempts (fst (retry_resume ttl (Env_Start env) key c)) \<le> k \<and> k < maxRetries \<and>
      (\<forall>j. Entry_Attempts (fst (retry_resume ttl (Env_Start env) key c)) \<le> j \<and> j < k \<longrightarrow>
           (\<exists>e. Env_Submit env j = OtherError e) \<and> \<not> Env_Cancelled env j) \<and>
      ends_at env key maxRetries k res c' \<and> (\<forall>other. other \<noteq> key \<longrightarrow> c' other = c other)"
proof -
  let ?prior = "Entry_Attempts (fst (retry_resume ttl (Env_Start env) key c))"
  have run: "submit_loop env key maxRetries ?prior (snd (retry_resume ttl (Env_Start env) key c)) = (res, c')"
    using assms(2,3) by (simp add: submitWithRetry_def case_prod_unfold Let_def)
  show ?thesis
    using submit_loop_ends [OF resume_cases(2) [OF assms(1,2)] run] resume_cases(4) [OF assms(1,2)] by simp
qed

lemma ends_at_range: "ends_at env key maxRetries k res c' \<Longrightarrow> c' key = Some entry \<Longrightarrow> Entry_Attempts entry = k + 1 \<and> k \<noteq> maxRetries - 1"
  by (auto simp: ends_at_def split: submit_answer.splits if_splits)

lemma ends_at_interrupted: "ends_at env key maxRetries k res c' \<Longrightarrow> k < maxRetries \<Longrightarrow> interrupted res \<Longrightarrow> Result_Attempts res < maxRetries"
  by (auto simp: ends_at_def interrupted_def split: submit_answer.splits if_splits)

lemma submitWithRetry_retries_ok:
  assumes "retries_ok maxRetries c" "1 \<le> maxRetries" "submitWithRetry env ttl key maxRetries c = (res, c')"
  shows "retries_ok maxRetries c'"
proof -
  obtain k where k: "0 \<le> k" "k < maxRetries" "ends_at env key maxRetries k res c'" "\<forall>other. other \<noteq> key \<longrightarrow> c' other = c other"
    using submitWithRetry_ends [OF assms] resume_cases(1) [OF assms(1,2), of ttl "Env_Start env" key] by (meson order_trans)
  have "0 \<le> Entry_Attempts entry \<and> Entry_Attempts entry < maxRetries" if "c' key' = Some entry" for key' entry
  proof (cases "key' = key")
    case True
    then show ?thesis using ends_at_range [OF k(3)] that k(1,2) by fastforce
  next
    case False
    then show ?thesis using assms(1) that k(4) by (auto simp: retries_ok_def)
  qed
  then show ?thesis by (simp add: retries_ok_def)
qed

text \<open>
  A record that comes back session after session, until a call is not interrupted. \<open>in_time\<close> says that each session
  starts within the cache's time to live after the attempt the previous one had scheduled.
\<close>

fun redeliver :: "submit_env list \<Rightarrow> duration \<Rightarrow> retryKey \<Rightarrow> int \<Rightarrow> retry_cache \<Rightarrow> retryResult list \<times> retry_cache" where
  "redeliver [] ttl key maxRetries c = ([], c)"
| "redeliver (env # envs) ttl key maxRetries c =
     (let (res, c') = submitWithRetry env ttl key maxRetries c in
      if interrupted res then (let (more, c'') = redeliver envs ttl key maxRetries c' in (res # more, c''))
      else ([res], c'))"

fun in_time :: "duration \<Rightarrow> submit_env list \<Rightarrow> bool" where
  "in_time ttl (env # env' # envs) \<longleftrightarrow>
     (\<forall>k. time_sub (Env_Start env') (Env_Now env k + calculateBackoff (Env_Jitter env k) k) \<le> ttl) \<and> in_time ttl (env' # envs)"
| "in_time ttl envs \<longleftrightarrow> True"

lemma interrupted_resumes:
  assumes "retries_ok maxRetries c" "1 \<le> maxRetries" "submitWithRetry env ttl key maxRetries c = (res, c')" "interrupted res"
    "in_time ttl (env # env' # envs)"
  shows "Entry_Attempts (fst (retry_resume ttl (Env_Start env') key c')) = Result_Attempts res"
proof -
  obtain k where k: "ends_at env key maxRetries k res c'" using submitWithRetry_ends [OF assms(1-3)] by blast
  then have "c' key = Some \<lparr>Entry_Attempts = k + 1, Entry_NextEligible = Env_Now env k + calculateBackoff (Env_Jitter env k) k\<rparr>"
    "Result_Attempts res = k + 1"
    using assms(4) by (auto simp: ends_at_def interrupted_def split: submit_answer.splits if_splits)
  moreover have "time_sub (Env_Start env') (Env_Now env k + calculateBackoff (Env_Jitter env k) k) \<le> ttl" using assms(5) by simp
  ultimately show ?thesis by (simp add: retry_resume_def retry_expired_def)
qed

lemma redeliver_budget:
  assumes "retries_ok maxRetries c" "1 \<le> maxRetries" "in_time ttl envs" "redeliver envs ttl key maxRetries c = (results, c')"
    "envs \<noteq> [] \<Longrightarrow> Entry_Attempts (fst (retry_resume ttl (Env_Start (hd envs)) key c)) = spent"
  shows "sorted_wrt (<) (spent # map Result_Attempts results) \<and> (\<forall>r\<in>set results. Result_Attempts r \<le> maxRetries) \<and>
    (\<forall>r\<in>set results. interrupted r \<longrightarrow> Result_Attempts r < maxRetries) \<and>
    (envs \<noteq> [] \<longrightarrow> results \<noteq> [] \<and> (interrupted (last results) \<longrightarrow>
       length results = length envs \<and> (\<forall>r\<in>set results. interrupted r)))"
  using assms
proof (induction envs arbitrary: c spent results)
  case (Cons env envs)
  obtain res c1 where sub: "submitWithRetry env ttl key maxRetries c = (res, c1)" by fastforce
  note call = submitWithRetry_ends [OF Cons.prems(1,2) sub]
  have step: "spent < Result_Attempts res" "Result_Attempts res \<le> maxRetries"
    using call Cons.prems(5) by (auto simp: ends_at_def)
  have bound: "interrupted res \<longrightarrow> Result_Attempts res < maxRetries"
    using call ends_at_interrupted by blast
  show ?case
  proof (cases "interrupted res")
    case False
    then show ?thesis using Cons.prems(4) sub step bound by auto
  next
    case True
    then obtain more where more: "redeliver envs ttl key maxRetries c1 = (more, c')" "results = res # more"
      using Cons.prems(4) sub by (auto split: prod.splits)
    have resumed: "Entry_Attempts (fst (retry_resume ttl (Env_Start (hd envs)) key c1)) = Result_Attempts res" if "envs \<noteq> []"
      using interrupted_resumes [OF Cons.prems(1,2) sub True, of "hd envs" "tl envs"] Cons.prems(3) that by simp
    have "in_time ttl envs" using Cons.prems(3) by (cases envs) auto
    from Cons.IH [OF submitWithRetry_retries_ok [OF Cons.prems(1,2) sub] Cons.prems(2) this more(1) resumed]
    show ?thesis using more bound step True by (cases envs) auto
  qed
qed simp

lemma increasing_length:
  fixes xs :: "int list"
  assumes "sorted_wrt (<) (a # xs)" "\<forall>x\<in>set xs. x < b"
  shows "xs \<noteq> [] \<Longrightarrow> int (length xs) < b - a"
proof -
  assume "xs \<noteq> []"
  have "distinct xs" using assms(1) by (simp add: strict_sorted_iff)
  moreover have "set xs \<subseteq> {a<..<b}" using assms by auto
  ultimately have "length xs \<le> card {a<..<b}" using card_mono [of "{a<..<b}" "set xs"] by (simp add: distinct_card)
  moreover have "a < b" using assms \<open>xs \<noteq> []\<close> by (cases xs) auto
  ultimately show ?thesis by simp
qed


section \<open>The dedup cache\<close>


section \<open>The properties at work\<close>

definition failing_session :: submit_env where
  "failing_session = \<lparr>Env_Start = 0, Env_Submit = \<lambda>k. OtherError ''503'', Env_Jitter = \<lambda>k b. 0, Env_Now = \<lambda>k. 0,
     Env_Cancelled = \<lambda>k. True\<rparr>"



end
