(* ===== verification/Adapter_Runner.thy ===== *)
theory Adapter_Runner
  imports Adapter_Retry Topics
begin

text \<open>
  The runner that feeds a billing provider from Kafka: \<^verbatim>\<open>runner.go\<close>, \<^verbatim>\<open>runner_process.go\<close> and
  \<^verbatim>\<open>dlq.go\<close> of \<^verbatim>\<open>adapters/internal/runner\<close>. Decoding a CloudEvent from a record's bytes is the
  argument \<open>decode\<close>; the clock, the provider and the brokers are what a message environment says.
  Counters are effects; the size gauge of the queue and the histogram of retry durations are left out.
\<close>

section \<open>Events and records\<close>

text \<open>The values \<^verbatim>\<open>encoding/json\<close> decodes into an \<^verbatim>\<open>any\<close>.\<close>

datatype any = AnyNil | AnyString string | AnyNumber rat | AnyBool bool | AnyArray "any list" | AnyObject "(string \<times> any) list"

text \<open>\<open>CE_Data\<close> is \<open>None\<close> when the data is not a JSON object.\<close>

record cloud_event =
  CE_ID :: string
  CE_SpecVersion :: string
  CE_Type :: string
  CE_Source :: string
  CE_Subject :: string
  CE_Time :: time
  CE_DataContentType :: string
  CE_Extensions :: "(string \<times> string) list"
  CE_Data :: "(string \<times> any) list option"

record consumer_message =
  Msg_Topic :: string
  Msg_Partition :: int
  Msg_Offset :: int
  Msg_Key :: "string option"
  Msg_Value :: string

record metering_event =
  ME_CloudEvent :: cloud_event
  ME_Topic :: string
  ME_Partition :: int
  ME_Offset :: int

section \<open>The dead-letter queue\<close>

text \<open>
  \<^verbatim>\<open>[]rune(s)\<close> and back: \<open>next_rune\<close> gives the bytes of the first rune re-encoded and how many bytes of the
  text it took. A byte that starts no valid UTF-8 sequence becomes the replacement character.
\<close>

definition replacement_char :: string where
  "replacement_char = [CHR 0xEF, CHR 0xBF, CHR 0xBD]"

definition next_rune :: "string \<Rightarrow> string \<times> nat" where
  "next_rune s = (let n = utf8_len s in if n = 0 then (replacement_char, 1) else (take n s, n))"

function runes :: "string \<Rightarrow> string list" where
  "runes s = (if s = [] then [] else let (r, n) = next_rune s in r # runes (drop n s))"
  by pat_completeness auto

termination runes
  by (relation "measure length") (auto simp: next_rune_def Let_def split: if_splits)

definition maxReasonLen :: nat where "maxReasonLen = 1024"

definition truncate_reason :: "string \<Rightarrow> string" where
  "truncate_reason reason =
     (if length reason > maxReasonLen
      then (let rs = runes reason in if length rs > maxReasonLen then concat (take maxReasonLen rs) else reason)
      else reason)"

record dlq_producer =
  DLQ_Topic :: string
  DLQ_PerTenant :: bool

record dlq_message =
  Dead_Topic :: string
  Dead_Key :: "string option"
  Dead_Value :: string
  Dead_Headers :: "(string \<times> string) list"

definition topicFor :: "dlq_producer \<Rightarrow> string \<Rightarrow> string" where
  "topicFor d source = (if DLQ_PerTenant d then DeadLetterTopicOf source else DLQ_Topic d)"

definition dlq_message_of :: "dlq_producer \<Rightarrow> time \<Rightarrow> consumer_message \<Rightarrow> string \<Rightarrow> int \<Rightarrow> dlq_message" where
  "dlq_message_of d now msg reason attempts =
     \<lparr>Dead_Topic = topicFor d (Msg_Topic msg), Dead_Key = Msg_Key msg, Dead_Value = Msg_Value msg,
      Dead_Headers =
        [(''original-topic'', Msg_Topic msg), (''original-partition'', int_text (Msg_Partition msg)),
         (''original-offset'', int_text (Msg_Offset msg)), (''failure-reason'', truncate_reason reason),
         (''failure-count'', int_text attempts), (''failed-at'', formatTime now)]\<rparr>"

definition dlq_Send :: "bool \<Rightarrow> dlq_producer \<Rightarrow> time \<Rightarrow> consumer_message \<Rightarrow> string \<Rightarrow> int \<Rightarrow> dlq_message option" where
  "dlq_Send sent d now msg reason attempts = (if sent then Some (dlq_message_of d now msg reason attempts) else None)"

text \<open>\<^verbatim>\<open>Occupancy\<close>, over the topics of the dead-letter queue; \<open>offsets\<close> answers the partitions of a topic with
  their newest and oldest offsets.\<close>

definition Occupancy :: "(string \<Rightarrow> (int \<times> int) list option) \<Rightarrow> string list option \<Rightarrow> dlq_producer \<Rightarrow> int option" where
  "Occupancy offsets names d =
     (case (if DLQ_PerTenant d then AllDeadLetterTopics names else Some [DLQ_Topic d]) of
        None \<Rightarrow> None
      | Some topics \<Rightarrow>
          foldl (\<lambda>total topic.
            case total of
              None \<Rightarrow> None
            | Some n \<Rightarrow> map_option (\<lambda>ps. foldl (\<lambda>n (newest, oldest). if newest > oldest then wrap64 (n + (newest - oldest)) else n) n ps)
                          (offsets topic)) (Some 0) topics)"

section \<open>One message\<close>

record runner_config =
  Cfg_SessionInterval :: duration
  Cfg_FlushInterval :: duration
  Cfg_DedupTTL :: duration
  Cfg_MaxRetries :: int
  Cfg_DLQ :: "dlq_producer option"

definition NewRunner_config :: "runner_config \<Rightarrow> runner_config" where
  "NewRunner_config cfg =
     cfg\<lparr>Cfg_FlushInterval := (if Cfg_FlushInterval cfg = 0 then 10 * second else Cfg_FlushInterval cfg),
         Cfg_DedupTTL := (if Cfg_DedupTTL cfg = 0 then 600 * second else Cfg_DedupTTL cfg),
         Cfg_MaxRetries := (if Cfg_MaxRetries cfg = 0 then 10 else Cfg_MaxRetries cfg),
         Cfg_SessionInterval := (if Cfg_SessionInterval cfg = 0 then 60 * second else Cfg_SessionInterval cfg)\<rparr>"

type_synonym topic_partition = "string \<times> int"

record runner =
  Run_Dedup :: dedup_cache
  Run_Order :: order_tracker
  Run_Retries :: retry_cache
  Run_Offsets :: "topic_partition \<rightharpoonup> int"
  Run_Session :: bool

definition NewRunner :: runner where
  "NewRunner = \<lparr>Run_Dedup = Map.empty, Run_Order = Map.empty, Run_Retries = Map.empty, Run_Offsets = Map.empty, Run_Session = False\<rparr>"

text \<open>
  What a message does outside the runner: the provider accepted the event, a dead letter was confirmed, the record
  was dropped for want of a dead-letter queue, or a counter went up.
\<close>

datatype effect = Submitted metering_event | DeadLettered dlq_message | Dropped consumer_message | Inc string string

record message_env =
  Env_Contains :: time
  Env_Order :: time
  Env_Retry :: submit_env
  Env_Add :: time
  Env_SendOK :: bool
  Env_FailedAt :: time

definition trackOffset :: "consumer_message \<Rightarrow> runner \<Rightarrow> runner" where
  "trackOffset msg r =
     (let tp = (Msg_Topic msg, Msg_Partition msg) in
      case Run_Offsets r tp of
        Some current \<Rightarrow> if Msg_Offset msg > current then r\<lparr>Run_Offsets := (Run_Offsets r)(tp \<mapsto> Msg_Offset msg)\<rparr> else r
      | None \<Rightarrow> r\<lparr>Run_Offsets := (Run_Offsets r)(tp \<mapsto> Msg_Offset msg)\<rparr>)"

definition checkOutOfOrder :: "time \<Rightarrow> cloud_event \<Rightarrow> runner \<Rightarrow> effect list \<times> runner" where
  "checkOutOfOrder now ce r =
     (case map_of (CE_Extensions ce) ''osacresourceid'' of
        None \<Rightarrow> ([], r)
      | Some resourceID \<Rightarrow>
          (case CE_Data ce of
             None \<Rightarrow> ([], r)
           | Some data \<Rightarrow>
               (case map_of data ''transition_time'' of
                  Some (AnyString ttStr) \<Rightarrow>
                    (case ParseRFC3339Nano ttStr of
                       None \<Rightarrow> ([], r)
                     | Some tt \<Rightarrow>
                         (let (late, t') = order_check now resourceID tt (Run_Order r)
                          in (if late then [Inc ''out_of_order'' ''''] else [], r\<lparr>Run_Order := t'\<rparr>)))
                | _ \<Rightarrow> ([], r))))"

definition sendToDLQ :: "runner_config \<Rightarrow> message_env \<Rightarrow> consumer_message \<Rightarrow> string \<Rightarrow> int \<Rightarrow> bool \<times> effect list" where
  "sendToDLQ cfg env msg reason attempts =
     (case Cfg_DLQ cfg of
        None \<Rightarrow> (True, [Dropped msg, Inc ''events_dropped'' ''''])
      | Some d \<Rightarrow>
          (case dlq_Send (Env_SendOK env) d (Env_FailedAt env) msg reason attempts of
             None \<Rightarrow> (False, [Inc ''dlq_send_errors'' ''''])
           | Some m \<Rightarrow> (True, [DeadLettered m, Inc ''dlq_events'' ''''])))"

text \<open>Send the record to the dead-letter queue; go on past it only when that worked.\<close>

definition reject :: "runner_config \<Rightarrow> message_env \<Rightarrow> consumer_message \<Rightarrow> string \<Rightarrow> int \<Rightarrow> runner \<Rightarrow> bool \<times> effect list \<times> runner" where
  "reject cfg env msg reason attempts r =
     (let (ok, effects) = sendToDLQ cfg env msg reason attempts
      in if ok then (True, effects, trackOffset msg r) else (False, effects, r))"

text \<open>What follows the call of \<^verbatim>\<open>submitWithRetry\<close> in \<^verbatim>\<open>processMessage\<close>, and the whole handler.\<close>

definition finishMessage :: "runner_config \<Rightarrow> message_env \<Rightarrow> consumer_message \<Rightarrow> metering_event \<Rightarrow> retryResult \<Rightarrow> runner \<Rightarrow>
    bool \<times> effect list \<times> runner" where
  "finishMessage cfg env msg event result r =
     (case Result_Err result of
        Some err \<Rightarrow>
          if Result_NonRetryable result then
            (let (go, effects, r') = reject cfg env msg err (Result_Attempts result) r
             in (go, Inc ''events_failed'' ''non_retryable'' # effects, r'))
          else if Result_Exhausted result then
            (let (go, effects, r') = reject cfg env msg err (Result_Attempts result) r
             in (go, Inc ''events_failed'' ''retries_exhausted'' # effects, r'))
          else (False, [Inc ''events_failed'' ''retries_interrupted''], r)
      | None \<Rightarrow>
          (True, [Submitted event, Inc ''events_submitted'' (Msg_Topic msg)],
           trackOffset msg (r\<lparr>Run_Dedup := dedup_add (Env_Add env) (CE_ID (ME_CloudEvent event)) (Run_Dedup r)\<rparr>)))"

definition message_event :: "consumer_message \<Rightarrow> cloud_event \<Rightarrow> metering_event" where
  "message_event msg ce =
     \<lparr>ME_CloudEvent = ce, ME_Topic = Msg_Topic msg, ME_Partition = Msg_Partition msg, ME_Offset = Msg_Offset msg\<rparr>"

definition message_key :: "metering_event \<Rightarrow> retryKey" where
  "message_key event = \<lparr>Retry_Topic = ME_Topic event, Retry_Partition = ME_Partition event, Retry_Offset = ME_Offset event\<rparr>"

definition processMessage :: "(string \<Rightarrow> cloud_event option) \<Rightarrow> runner_config \<Rightarrow> message_env \<Rightarrow> consumer_message \<Rightarrow> runner \<Rightarrow>
    bool \<times> effect list \<times> runner" where
  "processMessage decode cfg env msg r =
     (case decode (Msg_Value msg) of
        None \<Rightarrow>
          (let (go, effects, r') = reject cfg env msg ''deserialization'' 1 r
           in (go, Inc ''events_failed'' ''deserialization'' # effects, r'))
      | Some ce \<Rightarrow>
          if CE_ID ce = '''' then
            (let (go, effects, r') = reject cfg env msg ''empty event id'' 1 r
             in (go, Inc ''events_failed'' ''non_retryable'' # effects, r'))
          else
            (let (duplicate, d') = dedup_contains (Cfg_DedupTTL cfg) (Env_Contains env) (CE_ID ce) (Run_Dedup r);
                 r1 = r\<lparr>Run_Dedup := d'\<rparr>
             in if duplicate then (True, [Inc ''duplicates_suppressed'' ''''], trackOffset msg r1)
                else
                  (let (ordering, r2) = checkOutOfOrder (Env_Order env) ce r1;
                       event = message_event msg ce;
                       (result, retries) = submitWithRetry (Env_Retry env) (Cfg_DedupTTL cfg) (message_key event)
                                             (Cfg_MaxRetries cfg) (Run_Retries r2);
                       (go, effects, r') = finishMessage cfg env msg event result (r2\<lparr>Run_Retries := retries\<rparr>)
                   in (go, ordering @ effects, r'))))"

section \<open>Claims, sessions and flushes\<close>

fun ConsumeClaim :: "(string \<Rightarrow> cloud_event option) \<Rightarrow> runner_config \<Rightarrow> (message_env \<times> consumer_message) list \<Rightarrow> runner \<Rightarrow>
    effect list \<times> runner" where
  "ConsumeClaim decode cfg [] r = ([], r)"
| "ConsumeClaim decode cfg ((env, msg) # msgs) r =
     (let (go, effects, r') = processMessage decode cfg env msg r in
      if go then (let (more, r'') = ConsumeClaim decode cfg msgs r' in (effects @ more, r'')) else (effects, r'))"

definition Setup :: "runner \<Rightarrow> runner" where "Setup r = r\<lparr>Run_Session := True\<rparr>"
definition Cleanup :: "runner \<Rightarrow> runner" where "Cleanup r = r\<lparr>Run_Session := False\<rparr>"

text \<open>
  A flush, given whether the adapter's own flush worked: \<open>None\<close> is its error, \<open>Some marks\<close> the offsets marked and
  committed in the session, each one past the last tracked.
\<close>

definition flush :: "bool \<Rightarrow> runner \<Rightarrow> (topic_partition \<rightharpoonup> int) option \<times> runner" where
  "flush flushed r =
     (if \<not> flushed then (None, r)
      else if \<not> Run_Session r then (Some Map.empty, r)
      else (Some (\<lambda>tp. map_option (\<lambda>offset. offset + 1) (Run_Offsets r tp)), r\<lparr>Run_Offsets := Map.empty\<rparr>))"

end
