(* ===== verification/Adapter_Delivery.thy ===== *)
theory Adapter_Delivery
  imports Adapter_Runner
begin

text \<open>
  What the adapter runner guarantees: which messages stop a claim, and that no offset is committed past a record that
  was not handled, over every interleaving of claims, flushes, evictions and sessions.
\<close>

section \<open>The outcome of a message\<close>

definition accepted :: "effect list \<Rightarrow> string \<Rightarrow> bool" where
  "accepted trace eventID \<longleftrightarrow> (\<exists>e. Submitted e \<in> set trace \<and> CE_ID (ME_CloudEvent e) = eventID)"

definition settled :: "(string \<Rightarrow> cloud_event option) \<Rightarrow> runner_config \<Rightarrow> effect list \<Rightarrow> consumer_message \<Rightarrow> bool" where
  "settled decode cfg trace msg \<longleftrightarrow>
     (\<exists>ce. decode (Msg_Value msg) = Some ce \<and> CE_ID ce \<noteq> '''' \<and> accepted trace (CE_ID ce)) \<or>
     (\<exists>d now reason attempts. Cfg_DLQ cfg = Some d \<and> DeadLettered (dlq_message_of d now msg reason attempts) \<in> set trace) \<or>
     Cfg_DLQ cfg = None \<and> Dropped msg \<in> set trace"

lemma accepted_append [simp]: "accepted (t @ u) eventID \<longleftrightarrow> accepted t eventID \<or> accepted u eventID"
  by (auto simp: accepted_def)

lemma settled_mono: "settled decode cfg t msg \<Longrightarrow> set t \<subseteq> set u \<Longrightarrow> settled decode cfg u msg"
  unfolding settled_def accepted_def by blast

lemma trackOffset_fields [simp]:
  "Run_Dedup (trackOffset msg r) = Run_Dedup r" "Run_Order (trackOffset msg r) = Run_Order r"
  "Run_Retries (trackOffset msg r) = Run_Retries r" "Run_Session (trackOffset msg r) = Run_Session r"
  by (auto simp: trackOffset_def Let_def split: option.splits)

lemma trackOffset_offsets:
  "Run_Offsets (trackOffset msg r) tp =
     (if tp = (Msg_Topic msg, Msg_Partition msg)
      then Some (case Run_Offsets r tp of None \<Rightarrow> Msg_Offset msg | Some current \<Rightarrow> max current (Msg_Offset msg))
      else Run_Offsets r tp)"
  by (auto simp: trackOffset_def Let_def split: option.splits)

lemma trackOffset_cong: "Run_Offsets r = Run_Offsets r' \<Longrightarrow> Run_Offsets (trackOffset msg r) = Run_Offsets (trackOffset msg r')"
  by (simp add: trackOffset_offsets fun_eq_iff)

lemma checkOutOfOrder_fields:
  assumes "checkOutOfOrder now ce r = (effects, r')"
  shows "Run_Dedup r' = Run_Dedup r" "Run_Retries r' = Run_Retries r" "Run_Offsets r' = Run_Offsets r" "Run_Session r' = Run_Session r"
    "\<forall>e\<in>set effects. \<exists>counter label. e = Inc counter label"
proof -
  consider "effects = []" "r' = r" | t' where "r' = r\<lparr>Run_Order := t'\<rparr>" "effects = [] \<or> effects = [Inc ''out_of_order'' '''']"
    using assms by (auto simp: checkOutOfOrder_def split: option.splits any.splits prod.splits if_splits)
  note cases = this
  show "Run_Dedup r' = Run_Dedup r" "Run_Retries r' = Run_Retries r" "Run_Offsets r' = Run_Offsets r" "Run_Session r' = Run_Session r"
    "\<forall>e\<in>set effects. \<exists>counter label. e = Inc counter label"
    by (use cases in \<open>cases; auto\<close>)+
qed

text \<open>How \<^verbatim>\<open>processMessage\<close> can end, with what it adds to the effects that are more than counters.\<close>

definition handed_over :: "effect list \<Rightarrow> effect list" where
  "handed_over = filter (\<lambda>e. \<not> (\<exists>counter label. e = Inc counter label))"

lemma handed_over_simps [simp]:
  "handed_over [] = []" "handed_over (Inc a b # es) = handed_over es" "handed_over (xs @ ys) = handed_over xs @ handed_over ys"
  "handed_over (Submitted e # es) = Submitted e # handed_over es" "handed_over (DeadLettered m # es) = DeadLettered m # handed_over es"
  "handed_over (Dropped msg # es) = Dropped msg # handed_over es"
  by (simp_all add: handed_over_def)

lemma handed_over_set: "set (handed_over es) = {e \<in> set es. \<forall>counter label. e \<noteq> Inc counter label}"
  by (auto simp: handed_over_def)

lemma handed_over_counters: "\<forall>e\<in>set es. \<exists>counter label. e = Inc counter label \<Longrightarrow> handed_over es = []"
  by (simp add: handed_over_def)

lemma reject_cases:
  assumes "reject cfg env msg reason attempts r = (go, effects, r')"
  obtains (failed) d where "Cfg_DLQ cfg = Some d" "\<not> Env_SendOK env" "\<not> go" "handed_over effects = []" "r' = r"
  | (dead) d where "Cfg_DLQ cfg = Some d" "Env_SendOK env" "go"
      "handed_over effects = [DeadLettered (dlq_message_of d (Env_FailedAt env) msg reason attempts)]" "r' = trackOffset msg r"
  | (dropped) "Cfg_DLQ cfg = None" "go" "handed_over effects = [Dropped msg]" "r' = trackOffset msg r"
  using assms by (auto simp: reject_def sendToDLQ_def dlq_Send_def split: option.splits if_splits)

lemma dedup_contains_le: "snd (dedup_contains ttl now eventID c) \<subseteq>\<^sub>m c"
  by (auto simp: dedup_contains_def map_le_def split: option.splits)

lemma dedup_contains_True: "fst (dedup_contains ttl now eventID c) \<Longrightarrow> c eventID \<noteq> None \<and> snd (dedup_contains ttl now eventID c) = c"
  by (auto simp: dedup_contains_def split: option.splits if_splits)

text \<open>The ways \<^verbatim>\<open>processMessage\<close> ends.\<close>

datatype outcome = Duplicate | Delivered cloud_event retryResult | Refused string int | Interrupted retryResult

fun ends_as :: "runner_config \<Rightarrow> message_env \<Rightarrow> consumer_message \<Rightarrow> runner \<Rightarrow> outcome \<Rightarrow> bool \<Rightarrow> effect list \<Rightarrow> runner \<Rightarrow> bool" where
  "ends_as cfg env msg r Duplicate go effects r' \<longleftrightarrow>
     go \<and> handed_over effects = [] \<and> Run_Dedup r' \<subseteq>\<^sub>m Run_Dedup r \<and> Run_Offsets r' = Run_Offsets (trackOffset msg r)"
| "ends_as cfg env msg r (Delivered ce result) go effects r' \<longleftrightarrow>
     go \<and> Result_Err result = None \<and> handed_over effects = [Submitted (message_event msg ce)] \<and>
     Run_Dedup r' \<subseteq>\<^sub>m (Run_Dedup r)(CE_ID ce \<mapsto> Env_Add env) \<and> Run_Offsets r' = Run_Offsets (trackOffset msg r)"
| "ends_as cfg env msg r (Refused reason attempts) go effects r' \<longleftrightarrow>
     Run_Dedup r' \<subseteq>\<^sub>m Run_Dedup r \<and> Run_Offsets r' = Run_Offsets (if go then trackOffset msg r else r) \<and>
     (case Cfg_DLQ cfg of
        None \<Rightarrow> go \<and> handed_over effects = [Dropped msg]
      | Some d \<Rightarrow> if go then Env_SendOK env \<and> handed_over effects = [DeadLettered (dlq_message_of d (Env_FailedAt env) msg reason attempts)]
                  else \<not> Env_SendOK env \<and> handed_over effects = [])"
| "ends_as cfg env msg r (Interrupted result) go effects r' \<longleftrightarrow>
     \<not> go \<and> interrupted result \<and> handed_over effects = [] \<and> Run_Dedup r' \<subseteq>\<^sub>m Run_Dedup r \<and> Run_Offsets r' = Run_Offsets r"

lemma ends_as_reject:
  assumes "reject cfg env msg reason attempts r0 = (go, effects, r')" "Run_Dedup r0 \<subseteq>\<^sub>m Run_Dedup r" "Run_Offsets r0 = Run_Offsets r"
    "handed_over effects' = handed_over effects"
  shows "ends_as cfg env msg r (Refused reason attempts) go effects' r'"
  using assms(1) by (cases rule: reject_cases) (use assms(2-4) in \<open>auto intro: trackOffset_cong\<close>)

definition result_outcome :: "cloud_event \<Rightarrow> retryResult \<Rightarrow> outcome" where
  "result_outcome ce result =
     (case Result_Err result of
        None \<Rightarrow> Delivered ce result
      | Some err \<Rightarrow> if Result_NonRetryable result \<or> Result_Exhausted result then Refused err (Result_Attempts result) else Interrupted result)"

lemma finishMessage_ends:
  assumes "finishMessage cfg env msg (message_event msg ce) result r0 = (go, effects, r')" "Run_Dedup r0 \<subseteq>\<^sub>m Run_Dedup r"
    "Run_Offsets r0 = Run_Offsets r" "handed_over early = []"
  shows "ends_as cfg env msg r (result_outcome ce result) go (early @ effects) r'"
proof (cases "Result_Err result")
  case None
  have "(Run_Dedup r0)(CE_ID ce \<mapsto> t) \<subseteq>\<^sub>m (Run_Dedup r)(CE_ID ce \<mapsto> t)" for t using assms(2) by (auto simp: map_le_def)
  then show ?thesis using assms None
    by (auto simp: result_outcome_def finishMessage_def message_event_def dedup_add_def intro: trackOffset_cong)
next
  case (Some err)
  obtain go1 e1 r1 where rej: "reject cfg env msg err (Result_Attempts result) r0 = (go1, e1, r1)" by (metis surj_pair)
  show ?thesis
  proof (cases "Result_NonRetryable result \<or> Result_Exhausted result")
    case True
    then have "go1 = go" "r1 = r'" "handed_over (early @ effects) = handed_over e1"
      using assms(1,4) Some rej by (auto simp: finishMessage_def split: if_splits)
    then show ?thesis using True Some ends_as_reject [OF rej assms(2,3)] by (simp add: result_outcome_def)
  next
    case False
    then show ?thesis using assms Some by (auto simp: result_outcome_def finishMessage_def interrupted_def)
  qed
qed

definition outcome_of :: "(string \<Rightarrow> cloud_event option) \<Rightarrow> runner_config \<Rightarrow> message_env \<Rightarrow> consumer_message \<Rightarrow> runner \<Rightarrow> outcome" where
  "outcome_of decode cfg env msg r =
     (case decode (Msg_Value msg) of
        None \<Rightarrow> Refused ''deserialization'' 1
      | Some ce \<Rightarrow>
          if CE_ID ce = '''' then Refused ''empty event id'' 1
          else if fst (dedup_contains (Cfg_DedupTTL cfg) (Env_Contains env) (CE_ID ce) (Run_Dedup r)) then Duplicate
          else result_outcome ce (fst (submitWithRetry (Env_Retry env) (Cfg_DedupTTL cfg) (message_key (message_event msg ce))
                 (Cfg_MaxRetries cfg) (Run_Retries r))))"

lemma processMessage_ends:
  assumes "processMessage decode cfg env msg r = (go, effects, r')"
  shows "ends_as cfg env msg r (outcome_of decode cfg env msg r) go effects r'"
proof (cases "decode (Msg_Value msg)")
  case None
  obtain go1 e1 r1 where rej: "reject cfg env msg ''deserialization'' 1 r = (go1, e1, r1)" by (metis surj_pair)
  then have "go1 = go" "r1 = r'" "handed_over effects = handed_over e1" using assms None by (auto simp: processMessage_def)
  then have "ends_as cfg env msg r (Refused ''deserialization'' 1) go effects r'" using ends_as_reject [OF rej map_le_refl refl] by blast
  then show ?thesis using None by (simp only: outcome_of_def option.case)
next
  case (Some ce)
  let ?look = "dedup_contains (Cfg_DedupTTL cfg) (Env_Contains env) (CE_ID ce) (Run_Dedup r)"
  let ?sub = "submitWithRetry (Env_Retry env) (Cfg_DedupTTL cfg) (message_key (message_event msg ce)) (Cfg_MaxRetries cfg) (Run_Retries r)"
  consider (empty) "CE_ID ce = ''''" | (dup) "CE_ID ce \<noteq> ''''" "fst ?look" | (new) "CE_ID ce \<noteq> ''''" "\<not> fst ?look" by blast
  then show ?thesis
  proof cases
    case empty
    obtain go1 e1 r1 where rej: "reject cfg env msg ''empty event id'' 1 r = (go1, e1, r1)" by (metis surj_pair)
    then have "go1 = go" "r1 = r'" "handed_over effects = handed_over e1" using assms Some empty by (auto simp: processMessage_def)
    then have "ends_as cfg env msg r (Refused ''empty event id'' 1) go effects r'" using ends_as_reject [OF rej map_le_refl refl] by blast
    then show ?thesis using Some empty by (simp add: outcome_of_def del: ends_as.simps)
  next
    case dup
    then show ?thesis using assms Some dedup_contains_True [OF dup(2)]
      by (auto simp: processMessage_def outcome_of_def Let_def case_prod_unfold intro: trackOffset_cong)
  next
    case new
    obtain d' where d: "?look = (False, d')" using new(2) by (metis (full_types) prod.collapse)
    obtain early r2 where o: "checkOutOfOrder (Env_Order env) ce (r\<lparr>Run_Dedup := d'\<rparr>) = (early, r2)" by fastforce
    note f = checkOutOfOrder_fields [OF o]
    obtain go1 e1 r1 where fin: "finishMessage cfg env msg (message_event msg ce) (fst ?sub) (r2\<lparr>Run_Retries := snd ?sub\<rparr>) = (go1, e1, r1)"
      by (metis surj_pair)
    have "Run_Dedup r2 \<subseteq>\<^sub>m Run_Dedup r" using f(1) dedup_contains_le [of "Cfg_DedupTTL cfg" "Env_Contains env" "CE_ID ce" "Run_Dedup r"] d by simp
    then have "ends_as cfg env msg r (result_outcome ce (fst ?sub)) go1 (early @ e1) r1"
      using finishMessage_ends [OF fin] f(3,5) by (simp add: handed_over_counters)
    moreover have "go = go1 \<and> effects = early @ e1 \<and> r' = r1"
      using assms Some new(1) d o fin f(2) by (simp add: processMessage_def Let_def case_prod_unfold)
    ultimately show ?thesis using Some new by (simp add: outcome_of_def del: ends_as.simps)
  qed
qed

lemma finishMessage_session: "finishMessage cfg env msg event result r = (go, effects, r') \<Longrightarrow> Run_Session r' = Run_Session r"
  by (auto simp: finishMessage_def reject_def split: option.splits if_splits prod.splits)

lemma processMessage_session: "processMessage decode cfg env msg r = (go, effects, r') \<Longrightarrow> Run_Session r' = Run_Session r"
  using checkOutOfOrder_fields(4) finishMessage_session
  by (fastforce simp: processMessage_def reject_def Let_def split: option.splits if_splits prod.splits)

text \<open>
  C37: the claim goes on past a message only when the message is dealt with. It stops exactly when the submit was
  interrupted by the end of the session or when a refused record could not be sent to the dead-letter queue; then
  nothing of the message is handed over and no offset is tracked. Otherwise the offset is tracked, and the message
  was accepted by the provider, is a duplicate, is in the dead-letter queue with the reason and the attempts made,
  or is dropped for want of a queue.
\<close>

theorem claim_goes_on_when_dealt_with:
  assumes "processMessage decode cfg env msg r = (go, effects, r')"
  shows "go = (case outcome_of decode cfg env msg r of
       Interrupted result \<Rightarrow> False | Refused reason attempts \<Rightarrow> Cfg_DLQ cfg = None \<or> Env_SendOK env | _ \<Rightarrow> True) \<and>
     handed_over effects = (if \<not> go then [] else case outcome_of decode cfg env msg r of
       Delivered ce result \<Rightarrow> [Submitted (message_event msg ce)]
     | Refused reason attempts \<Rightarrow>
         (case Cfg_DLQ cfg of None \<Rightarrow> [Dropped msg] | Some d \<Rightarrow> [DeadLettered (dlq_message_of d (Env_FailedAt env) msg reason attempts)])
     | _ \<Rightarrow> []) \<and>
     Run_Offsets r' = Run_Offsets (if go then trackOffset msg r else r)"
proof -
  note ends = processMessage_ends [OF assms]
  show ?thesis
  proof (cases "outcome_of decode cfg env msg r")
    case (Refused reason attempts)
    show ?thesis
    proof (cases "Cfg_DLQ cfg")
      case None
      then show ?thesis using ends Refused by simp
    next
      case (Some d)
      then show ?thesis using ends Refused by (cases go) auto
    qed
  qed (use ends in auto)
qed

section \<open>No offset is committed past an unhandled record\<close>

text \<open>
  The runner with its consumer group. \<open>topics tp\<close> is the partition's records, each at its offset; a claim starts at
  the committed offset and reads one record after another; committing moves the committed offset forward only. A run
  is any interleaving of sessions, messages of the claims, flushes and evictions.
\<close>

record system =
  Sys_Runner :: runner
  Sys_Position :: "topic_partition \<rightharpoonup> nat"
  Sys_Committed :: "topic_partition \<Rightarrow> nat"
  Sys_Trace :: "effect list"

definition initial_system :: system where
  "initial_system = \<lparr>Sys_Runner = NewRunner, Sys_Position = Map.empty, Sys_Committed = (\<lambda>tp. 0), Sys_Trace = []\<rparr>"

definition begin_session :: "topic_partition set \<Rightarrow> system \<Rightarrow> system" where
  "begin_session claims sys =
     sys\<lparr>Sys_Runner := Setup (Sys_Runner sys), Sys_Position := (\<lambda>tp. if tp \<in> claims then Some (Sys_Committed sys tp) else None)\<rparr>"

definition end_session :: "system \<Rightarrow> system" where
  "end_session sys = sys\<lparr>Sys_Runner := Cleanup (Sys_Runner sys), Sys_Position := Map.empty\<rparr>"

definition commit :: "(topic_partition \<rightharpoonup> int) \<Rightarrow> system \<Rightarrow> system" where
  "commit marks sys =
     sys\<lparr>Sys_Committed := (\<lambda>tp. case marks tp of None \<Rightarrow> Sys_Committed sys tp | Some offset \<Rightarrow> max (Sys_Committed sys tp) (nat offset))\<rparr>"

inductive runs :: "(string \<Rightarrow> cloud_event option) \<Rightarrow> runner_config \<Rightarrow> (topic_partition \<Rightarrow> consumer_message list) \<Rightarrow> system \<Rightarrow> bool"
  for decode cfg topics where
  runs_start: "runs decode cfg topics initial_system"
| runs_session: "runs decode cfg topics sys \<Longrightarrow> runs decode cfg topics (begin_session claims sys)"
| runs_end: "runs decode cfg topics sys \<Longrightarrow> runs decode cfg topics (end_session sys)"
| runs_message: "runs decode cfg topics sys \<Longrightarrow> Sys_Position sys tp = Some p \<Longrightarrow> p < length (topics tp) \<Longrightarrow>
    processMessage decode cfg env (topics tp ! p) (Sys_Runner sys) = (go, effects, r') \<Longrightarrow>
    runs decode cfg topics (sys\<lparr>Sys_Runner := r', Sys_Position := (Sys_Position sys)(tp := if go then Some (Suc p) else None),
      Sys_Trace := Sys_Trace sys @ effects\<rparr>)"
| runs_flush: "runs decode cfg topics sys \<Longrightarrow> flush flushed (Sys_Runner sys) = (marks, r') \<Longrightarrow>
    runs decode cfg topics (commit (case marks of None \<Rightarrow> Map.empty | Some ms \<Rightarrow> ms) (sys\<lparr>Sys_Runner := r'\<rparr>))"
| runs_evict: "runs decode cfg topics sys \<Longrightarrow>
    runs decode cfg topics (sys\<lparr>Sys_Runner := (Sys_Runner sys)\<lparr>
      Run_Dedup := dedup_evictExpired (Cfg_DedupTTL cfg) now (Run_Dedup (Sys_Runner sys)),
      Run_Order := order_evictExpired (Cfg_DedupTTL cfg) now (Run_Order (Sys_Runner sys)),
      Run_Retries := retry_evictExpired (Cfg_DedupTTL cfg) now (Run_Retries (Sys_Runner sys))\<rparr>\<rparr>)"

text \<open>A whole \<^verbatim>\<open>ConsumeClaim\<close> is such a run, one message after another.\<close>

lemma ConsumeClaim_runs:
  assumes "runs decode cfg topics sys" "Sys_Position sys tp = Some p" "map snd msgs = take (length msgs) (drop p (topics tp))"
    "ConsumeClaim decode cfg msgs (Sys_Runner sys) = (effects, r')"
  shows "\<exists>pos. runs decode cfg topics (sys\<lparr>Sys_Runner := r', Sys_Position := (Sys_Position sys)(tp := pos), Sys_Trace := Sys_Trace sys @ effects\<rparr>)"
  using assms
proof (induction msgs arbitrary: sys p effects)
  case Nil
  then have "sys\<lparr>Sys_Runner := r', Sys_Position := (Sys_Position sys)(tp := Some p), Sys_Trace := Sys_Trace sys @ effects\<rparr> = sys"
    by (simp add: fun_upd_idem)
  then show ?case using Nil.prems(1) by metis
next
  case (Cons m msgs)
  obtain env msg where m: "m = (env, msg)" by (cases m)
  have len: "p < length (topics tp)" using Cons.prems(3) by (cases "p < length (topics tp)") auto
  then have at: "drop p (topics tp) = topics tp ! p # drop (Suc p) (topics tp)" by (rule Cons_nth_drop_Suc [symmetric])
  then have drop: "drop p (topics tp) = msg # drop (Suc p) (topics tp)" "p < length (topics tp)" "topics tp ! p = msg"
    using Cons.prems(3) m len by simp_all
  obtain go e1 r1 where pm: "processMessage decode cfg env msg (Sys_Runner sys) = (go, e1, r1)" by (metis surj_pair)
  let ?sys = "sys\<lparr>Sys_Runner := r1, Sys_Position := (Sys_Position sys)(tp := if go then Some (Suc p) else None), Sys_Trace := Sys_Trace sys @ e1\<rparr>"
  have step: "runs decode cfg topics ?sys" using runs_message [OF Cons.prems(1,2) drop(2)] pm drop(3) by simp
  show ?case
  proof (cases go)
    case False
    then have "e1 = effects" "r1 = r'" using Cons.prems(4) m pm by simp_all
    then show ?thesis using step False by (intro exI [of _ None]) (simp only: if_False)
  next
    case True
    then obtain more where more: "ConsumeClaim decode cfg msgs (Sys_Runner ?sys) = (more, r')" "effects = e1 @ more"
      using Cons.prems(4) m pm by (auto split: prod.splits)
    have at_next: "Sys_Position ?sys tp = Some (Suc p)" using True by simp
    have "map snd msgs = take (length msgs) (drop (Suc p) (topics tp))" using Cons.prems(3) m drop(1) by simp
    from Cons.IH [OF step at_next this more(1)] obtain pos where
      "runs decode cfg topics (?sys\<lparr>Sys_Runner := r', Sys_Position := (Sys_Position ?sys)(tp := pos), Sys_Trace := Sys_Trace ?sys @ more\<rparr>)" by blast
    moreover have "?sys\<lparr>Sys_Runner := r', Sys_Position := (Sys_Position ?sys)(tp := pos), Sys_Trace := Sys_Trace ?sys @ more\<rparr> =
        sys\<lparr>Sys_Runner := r', Sys_Position := (Sys_Position sys)(tp := pos), Sys_Trace := Sys_Trace sys @ effects\<rparr>"
      using more(2) by (cases sys) (simp add: fun_eq_iff)
    ultimately show ?thesis by (intro exI [of _ pos]) (simp only:)
  qed
qed

definition log_ok :: "(topic_partition \<Rightarrow> consumer_message list) \<Rightarrow> bool" where
  "log_ok topics \<longleftrightarrow> (\<forall>topic partition i. i < length (topics (topic, partition)) \<longrightarrow>
     Msg_Topic (topics (topic, partition) ! i) = topic \<and> Msg_Partition (topics (topic, partition) ! i) = partition \<and>
     Msg_Offset (topics (topic, partition) ! i) = int i)"

definition handled_below :: "(string \<Rightarrow> cloud_event option) \<Rightarrow> runner_config \<Rightarrow> effect list \<Rightarrow> consumer_message list \<Rightarrow> nat \<Rightarrow> bool" where
  "handled_below decode cfg trace recs n \<longleftrightarrow> n \<le> length recs \<and> (\<forall>i < n. settled decode cfg trace (recs ! i))"

definition delivery_inv :: "(string \<Rightarrow> cloud_event option) \<Rightarrow> runner_config \<Rightarrow> (topic_partition \<Rightarrow> consumer_message list) \<Rightarrow> system \<Rightarrow> bool" where
  "delivery_inv decode cfg topics sys \<longleftrightarrow>
     (\<forall>eventID. Run_Dedup (Sys_Runner sys) eventID \<noteq> None \<longrightarrow> accepted (Sys_Trace sys) eventID) \<and>
     (\<forall>tp. handled_below decode cfg (Sys_Trace sys) (topics tp) (Sys_Committed sys tp)) \<and>
     (\<forall>tp p. Sys_Position sys tp = Some p \<longrightarrow> handled_below decode cfg (Sys_Trace sys) (topics tp) p) \<and>
     (\<forall>tp offset. Run_Offsets (Sys_Runner sys) tp = Some offset \<longrightarrow>
        0 \<le> offset \<and> handled_below decode cfg (Sys_Trace sys) (topics tp) (nat (offset + 1)))"

lemma handled_below_mono: "handled_below decode cfg t recs n \<Longrightarrow> set t \<subseteq> set u \<Longrightarrow> handled_below decode cfg u recs n"
  unfolding handled_below_def using settled_mono by blast

lemma settled_message:
  assumes "processMessage decode cfg env msg r = (go, effects, r')" "go"
    "\<forall>eventID. Run_Dedup r eventID \<noteq> None \<longrightarrow> accepted trace eventID"
  shows "settled decode cfg (trace @ effects) msg"
proof -
  note ends = processMessage_ends [OF assms(1)]
  have over: "e \<in> set (trace @ effects)" if "e \<in> set (handed_over effects)" for e using that by (simp add: handed_over_set)
  show ?thesis
  proof (cases "outcome_of decode cfg env msg r")
    case Duplicate
    then obtain ce where ce: "decode (Msg_Value msg) = Some ce" "CE_ID ce \<noteq> ''''"
      "fst (dedup_contains (Cfg_DedupTTL cfg) (Env_Contains env) (CE_ID ce) (Run_Dedup r))"
      by (auto simp: outcome_of_def result_outcome_def split: option.splits if_splits)
    then have "accepted trace (CE_ID ce)" using dedup_contains_True assms(3) by blast
    then show ?thesis using ce by (auto simp: settled_def)
  next
    case (Delivered ce result)
    then have ce: "decode (Msg_Value msg) = Some ce" "CE_ID ce \<noteq> ''''"
      by (auto simp: outcome_of_def result_outcome_def split: option.splits if_splits)
    have "Submitted (message_event msg ce) \<in> set (trace @ effects)" using ends Delivered by (intro over) simp
    then have "accepted (trace @ effects) (CE_ID ce)" unfolding accepted_def by (intro exI [of _ "message_event msg ce"]) (simp add: message_event_def)
    then show ?thesis using ce by (auto simp: settled_def)
  next
    case (Refused reason attempts)
    then show ?thesis
    proof (cases "Cfg_DLQ cfg")
      case None
      then have "Dropped msg \<in> set (trace @ effects)" using ends Refused by (intro over) simp
      then show ?thesis using None by (simp add: settled_def)
    next
      case (Some d)
      then have "DeadLettered (dlq_message_of d (Env_FailedAt env) msg reason attempts) \<in> set (trace @ effects)"
        using ends Refused assms(2) by (intro over) simp
      then show ?thesis using Some unfolding settled_def by blast
    qed
  next
    case (Interrupted result)
    then show ?thesis using ends assms(2) by simp
  qed
qed

lemma dedup_after_message:
  assumes "processMessage decode cfg env msg r = (go, effects, r')"
    "\<forall>eventID. Run_Dedup r eventID \<noteq> None \<longrightarrow> accepted trace eventID" "Run_Dedup r' eventID \<noteq> None"
  shows "accepted (trace @ effects) eventID"
proof -
  note ends = processMessage_ends [OF assms(1)]
  have old: "accepted (trace @ effects) eventID" if "Run_Dedup r' \<subseteq>\<^sub>m Run_Dedup r"
  proof -
    have "Run_Dedup r eventID \<noteq> None" using that assms(3) by (metis domIff map_le_def)
    then show ?thesis using assms(2) by simp
  qed
  show ?thesis
  proof (cases "outcome_of decode cfg env msg r")
    case (Delivered ce result)
    then have "Submitted (message_event msg ce) \<in> set effects" using ends handed_over_set [of effects] by auto
    then have new: "accepted effects (CE_ID ce)" unfolding accepted_def by (intro exI [of _ "message_event msg ce"]) (simp add: message_event_def)
    have "Run_Dedup r eventID \<noteq> None \<or> eventID = CE_ID ce"
      using ends Delivered assms(3) by (auto simp: map_le_def dom_def split: if_splits)
    then show ?thesis using new assms(2) by auto
  qed (use ends old in auto)
qed

lemma delivery_invD:
  assumes "delivery_inv decode cfg topics sys"
  shows "\<forall>eventID. Run_Dedup (Sys_Runner sys) eventID \<noteq> None \<longrightarrow> accepted (Sys_Trace sys) eventID"
    "handled_below decode cfg (Sys_Trace sys) (topics tp) (Sys_Committed sys tp)"
    "Sys_Position sys tp = Some p \<Longrightarrow> handled_below decode cfg (Sys_Trace sys) (topics tp) p"
    "Run_Offsets (Sys_Runner sys) tp = Some offset \<Longrightarrow> 0 \<le> offset \<and> handled_below decode cfg (Sys_Trace sys) (topics tp) (nat (offset + 1))"
  using assms unfolding delivery_inv_def by blast+

lemma delivery_inv_message:
  assumes inv: "delivery_inv decode cfg topics sys" and ok: "log_ok topics"
    and pos: "Sys_Position sys tp = Some p" "p < length (topics tp)"
    and run: "processMessage decode cfg env (topics tp ! p) (Sys_Runner sys) = (go, effects, r')"
  shows "delivery_inv decode cfg topics (sys\<lparr>Sys_Runner := r', Sys_Position := (Sys_Position sys)(tp := if go then Some (Suc p) else None),
      Sys_Trace := Sys_Trace sys @ effects\<rparr>)"
proof -
  let ?msg = "topics tp ! p" and ?trace = "Sys_Trace sys @ effects"
  have dedup: "\<forall>eventID. Run_Dedup (Sys_Runner sys) eventID \<noteq> None \<longrightarrow> accepted (Sys_Trace sys) eventID"
    by (rule delivery_invD(1) [OF inv])
  have grow: "handled_below decode cfg ?trace (topics tp') n" if "handled_below decode cfg (Sys_Trace sys) (topics tp') n" for tp' n
    using that by (rule handled_below_mono) simp
  have before: "handled_below decode cfg ?trace (topics tp) p" by (intro grow delivery_invD(3) [OF inv pos(1)])
  have here: "handled_below decode cfg ?trace (topics tp) (Suc p)" if go
    using before settled_message [OF run that dedup] pos(2) by (auto simp: handled_below_def less_Suc_eq)
  have at: "(Msg_Topic ?msg, Msg_Partition ?msg) = tp" "Msg_Offset ?msg = int p"
    using ok pos(2) by (cases tp, simp add: log_ok_def)+
  have offsets: "0 \<le> offset \<and> handled_below decode cfg ?trace (topics tp') (nat (offset + 1))" if tracked: "Run_Offsets r' tp' = Some offset" for tp' offset
  proof -
    have "Run_Offsets r' = Run_Offsets (if go then trackOffset ?msg (Sys_Runner sys) else Sys_Runner sys)"
      using processMessage_ends [OF run] by (cases "outcome_of decode cfg env ?msg (Sys_Runner sys)") (auto split: if_splits)
    then consider "Run_Offsets (Sys_Runner sys) tp' = Some offset" | "go" "tp' = tp" "offset = int p"
      using tracked at by (auto simp: trackOffset_offsets max_def split: if_splits option.splits)
    then show ?thesis
    proof cases
      case 1
      then show ?thesis using delivery_invD(4) [OF inv] grow by blast
    next
      case 2
      then show ?thesis using here by (simp add: nat_add_distrib)
    qed
  qed
  show ?thesis
    unfolding delivery_inv_def
    using dedup_after_message [OF run dedup] grow delivery_invD(2,3) [OF inv] here offsets
    by (auto simp del: split_paired_All split: if_splits)
qed

lemma delivery_inv_flush:
  assumes inv: "delivery_inv decode cfg topics sys" and run: "flush flushed (Sys_Runner sys) = (marks, r')"
  shows "delivery_inv decode cfg topics (commit (case marks of None \<Rightarrow> Map.empty | Some ms \<Rightarrow> ms) (sys\<lparr>Sys_Runner := r'\<rparr>))"
proof (cases "flushed \<and> Run_Session (Sys_Runner sys)")
  case False
  then have "r' = Sys_Runner sys" "(case marks of None \<Rightarrow> Map.empty | Some ms \<Rightarrow> ms) = Map.empty"
    using run by (auto simp: flush_def split: if_splits)
  then show ?thesis using inv by (simp add: commit_def delivery_inv_def)
next
  case True
  then have r: "r' = (Sys_Runner sys)\<lparr>Run_Offsets := Map.empty\<rparr>" "marks = Some (\<lambda>tp. map_option (\<lambda>offset. offset + 1) (Run_Offsets (Sys_Runner sys) tp))"
    using run by (auto simp: flush_def)
  have "handled_below decode cfg (Sys_Trace sys) (topics tp) (max (Sys_Committed sys tp) (nat (offset + 1)))"
    if "Run_Offsets (Sys_Runner sys) tp = Some offset" for tp offset
    using delivery_invD(2,4) [OF inv, of tp] that by (auto simp: max_def)
  then show ?thesis using delivery_invD [OF inv]
    by (auto simp: r commit_def delivery_inv_def simp del: split_paired_All split: option.splits)
qed

lemma delivery_inv_runs:
  assumes "runs decode cfg topics sys" "log_ok topics"
  shows "delivery_inv decode cfg topics sys"
  using assms(1)
proof (induction rule: runs.induct)
  case runs_start
  show ?case by (simp add: delivery_inv_def initial_system_def NewRunner_def handled_below_def)
next
  case (runs_session sys claims)
  then show ?case by (auto simp: delivery_inv_def begin_session_def Setup_def)
next
  case (runs_end sys)
  then show ?case by (simp add: delivery_inv_def end_session_def Cleanup_def)
next
  case (runs_message sys tp p env go effects r')
  show ?case by (rule delivery_inv_message [OF runs_message.IH assms(2) runs_message.hyps(2-4)])
next
  case (runs_flush sys flushed marks r')
  show ?case by (rule delivery_inv_flush [OF runs_flush.IH runs_flush.hyps(2)])
next
  case (runs_evict sys now)
  have "Run_Dedup (Sys_Runner sys) eventID \<noteq> None"
    if "dedup_evictExpired (Cfg_DedupTTL cfg) now (Run_Dedup (Sys_Runner sys)) eventID \<noteq> None" for eventID
    using that by (auto simp: dedup_evictExpired_def split: option.splits)
  then show ?case using runs_evict.IH by (simp add: delivery_inv_def)
qed

text \<open>
  C5: at-least-once delivery. However sessions, claims of several partitions, flushes and evictions interleave, every
  record below a committed offset was handled: its event, by identifier, was accepted by the provider, or the record
  is in the dead-letter queue, or it was dropped because no queue is configured.
\<close>

theorem committed_records_are_handled:
  assumes "runs decode cfg topics sys" "log_ok topics" "i < Sys_Committed sys tp"
  shows "i < length (topics tp) \<and> settled decode cfg (Sys_Trace sys) (topics tp ! i)"
  using delivery_invD(2) [OF delivery_inv_runs [OF assms(1,2)], of tp] assms(3) by (auto simp: handled_below_def)

section \<open>The properties at work\<close>

definition sample_config :: runner_config where
  "sample_config = NewRunner_config \<lparr>Cfg_SessionInterval = 0, Cfg_FlushInterval = 0, Cfg_DedupTTL = 0, Cfg_MaxRetries = 0, Cfg_DLQ = None\<rparr>"

definition sample_message :: consumer_message where
  "sample_message = \<lparr>Msg_Topic = ''t'', Msg_Partition = 0, Msg_Offset = 0, Msg_Key = None, Msg_Value = ''garbage''\<rparr>"

definition sample_env :: message_env where
  "sample_env = \<lparr>Env_Contains = 0, Env_Order = 0, Env_Retry = failing_session, Env_Add = 0, Env_SendOK = False, Env_FailedAt = 0\<rparr>"

lemma sample_process:
  "processMessage (\<lambda>_. None) sample_config sample_env sample_message (Setup NewRunner) =
     (True, [Inc ''events_failed'' ''deserialization'', Dropped sample_message, Inc ''events_dropped'' ''''],
      trackOffset sample_message (Setup NewRunner))"
  by (simp add: processMessage_def reject_def sendToDLQ_def sample_config_def NewRunner_config_def)

theorem claim_goes_on_when_dealt_with_witness:
  "\<exists>effects r'. processMessage (\<lambda>_. None) sample_config sample_env sample_message (Setup NewRunner) = (True, effects, r') \<and>
     handed_over effects = [Dropped sample_message] \<and> Run_Offsets r' = Run_Offsets (trackOffset sample_message (Setup NewRunner))"
proof -
  obtain go effects r' where p: "processMessage (\<lambda>_. None) sample_config sample_env sample_message (Setup NewRunner) = (go, effects, r')"
    by (metis surj_pair)
  have "outcome_of (\<lambda>_. None) sample_config sample_env sample_message (Setup NewRunner) = Refused ''deserialization'' 1"
    by (simp add: outcome_of_def)
  moreover have "Cfg_DLQ sample_config = None" by (simp add: sample_config_def NewRunner_config_def)
  ultimately show ?thesis using claim_goes_on_when_dealt_with [OF p] p by simp
qed

theorem committed_records_are_handled_witness:
  "\<exists>sys. runs (\<lambda>_. None) sample_config (\<lambda>tp. if tp = (''t'', 0) then [sample_message] else []) sys \<and>
     settled (\<lambda>_. None) sample_config (Sys_Trace sys) sample_message"
proof -
  let ?topics = "\<lambda>tp. if tp = (''t'', 0) then [sample_message] else []"
  let ?r = "trackOffset sample_message (Setup NewRunner)"
  have ok: "log_ok ?topics" by (auto simp: log_ok_def sample_message_def)
  let ?s1 = "begin_session {(''t'', 0)} initial_system"
  let ?s2 = "?s1\<lparr>Sys_Runner := ?r, Sys_Position := (Sys_Position ?s1)((''t'', 0) := if True then Some (Suc 0) else None),
    Sys_Trace := Sys_Trace ?s1 @ [Inc ''events_failed'' ''deserialization'', Dropped sample_message, Inc ''events_dropped'' '''']\<rparr>"
  have "runs (\<lambda>_. None) sample_config ?topics ?s1" by (intro runs_session runs_start)
  then have s2: "runs (\<lambda>_. None) sample_config ?topics ?s2"
    by (rule runs_message [where tp = "(''t'', 0)" and p = 0 and env = sample_env])
      (simp_all add: begin_session_def initial_system_def sample_process)
  obtain marks r' where f: "flush True (Sys_Runner ?s2) = (marks, r')" by fastforce
  from runs_flush [OF s2 f] obtain s3 where s3: "runs (\<lambda>_. None) sample_config ?topics s3"
    "s3 = commit (case marks of None \<Rightarrow> Map.empty | Some ms \<Rightarrow> ms) (?s2\<lparr>Sys_Runner := r'\<rparr>)" by blast
  have "Sys_Committed s3 (''t'', 0) = 1" using f s3(2)
    by (auto simp: flush_def commit_def begin_session_def initial_system_def Setup_def NewRunner_def trackOffset_offsets sample_message_def split: if_splits)
  then show ?thesis using s3(1) committed_records_are_handled [OF s3(1) ok, of 0 "(''t'', 0)"] by auto
qed

end
