(* ===== verification/M360_Adapter.thy ===== *)
theory M360_Adapter
  imports Adapter_Runner Heartbeat
begin

text \<open>
  The adapter of the M360 billing provider: \<^verbatim>\<open>translate.go\<close>, \<^verbatim>\<open>client.go\<close> and
  \<^verbatim>\<open>adapter.go\<close> of \<^verbatim>\<open>adapters/m360\<close>, with the field list of \<^verbatim>\<open>schema/lifecycle.go\<close>.
  The HTTP exchange is the argument \<open>http\<close>. An error keeps its kind, without the text of
  a library error it wraps or the quotes around an unknown type.
\<close>

section \<open>Translating an event\<close>

definition resourceTypeEndpoints :: "string \<rightharpoonup> string" where
  "resourceTypeEndpoints = map_of
     [(''compute_instance'', ''/vmaas/event''), (''cluster_order'', ''/caas/event''), (''bare_metal_instance'', ''/bmaas/event''),
      (''external_ip'', ''/networking/externalip/event''), (''nat_gateway'', ''/networking/natgateway/event''),
      (''volume'', ''/storage/volume/event''), (''maas_inference'', ''/maas/event'')]"

definition HeartbeatDataFields :: "string list" where
  "HeartbeatDataFields =
     [''tenant_id'', ''resource_type'', ''resource_id'', ''meter'', ''component'', ''heartbeat_time'', ''last_applied_offset'',
      ''rules_revision'']"

definition spaceString :: string where "spaceString = '' ''"

fun nullToSpace :: "any \<Rightarrow> any" where
  "nullToSpace AnyNil = AnyString spaceString"
| "nullToSpace (AnyString s) = (if s = '''' then AnyString spaceString else AnyString s)"
| "nullToSpace v = v"

fun isZeroValue :: "any \<Rightarrow> bool" where
  "isZeroValue AnyNil \<longleftrightarrow> True"
| "isZeroValue (AnyString s) \<longleftrightarrow> s = ''''"
| "isZeroValue (AnyNumber x) \<longleftrightarrow> x = 0"
| "isZeroValue _ \<longleftrightarrow> False"

text \<open>Reading a Go map, \<^verbatim>\<open>nil\<close> where it has no such key.\<close>

definition member :: "(string \<times> any) list \<Rightarrow> string \<Rightarrow> any" where
  "member data key = (case map_of data key of None \<Rightarrow> AnyNil | Some v \<Rightarrow> v)"

type_synonym m360_payload = "string \<rightharpoonup> any"

definition envelope_fields :: "cloud_event \<Rightarrow> m360_payload" where
  "envelope_fields ce = map_of
     [(''specversion'', AnyString (CE_SpecVersion ce)), (''type'', AnyString (CE_Type ce)), (''source'', AnyString (CE_Source ce)),
      (''subject'', AnyString (CE_Subject ce)), (''event_time'', AnyString (formatTime (CE_Time ce))),
      (''datacontenttype'', AnyString (CE_DataContentType ce)), (''event_id'', AnyString (CE_ID ce))]"

definition copy_fields :: "(string \<times> any) list \<Rightarrow> m360_payload \<Rightarrow> m360_payload" where
  "copy_fields data payload =
     foldl (\<lambda>p key. if key = ''usage'' then p else p(key \<mapsto> nullToSpace (member data key))) payload HeartbeatDataFields"

definition copy_usage :: "(string \<times> any) list \<Rightarrow> m360_payload \<Rightarrow> m360_payload" where
  "copy_usage data payload =
     (case map_of data ''usage'' of
        Some (AnyObject usage) \<Rightarrow>
          payload(''usage_semantics'' \<mapsto> member usage ''semantics'', ''interval_from'' \<mapsto> member usage ''from'',
                  ''interval_to'' \<mapsto> member usage ''to'', ''usage_quantity'' \<mapsto> member usage ''quantity'',
                  ''usage_unit'' \<mapsto> member usage ''unit'', ''usage_precision'' \<mapsto> member usage ''precision'')
      | _ \<Rightarrow> payload)"

fun merge_dimensions :: "(string \<times> any) list \<Rightarrow> m360_payload \<Rightarrow> m360_payload" where
  "merge_dimensions [] payload = payload"
| "merge_dimensions ((k, v) # dims) payload =
     merge_dimensions dims (if isZeroValue v then payload else if payload k \<noteq> None then payload else payload(k \<mapsto> v))"

datatype translate_error = EmptyID | ZeroTimestamp | UndecodableData | UnknownType string | DimensionsNotAMap

definition translateEvent :: "cloud_event \<Rightarrow> translate_error + string \<times> m360_payload" where
  "translateEvent ce =
     (if CE_ID ce = '''' then Inl EmptyID
      else if CE_Time ce = zero_time then Inl ZeroTimestamp
      else case CE_Data ce of
        None \<Rightarrow> Inl UndecodableData
      | Some data \<Rightarrow>
          (let resourceType = (case map_of data ''resource_type'' of Some (AnyString s) \<Rightarrow> s | _ \<Rightarrow> '''') in
           case resourceTypeEndpoints resourceType of
             None \<Rightarrow> Inl (UnknownType resourceType)
           | Some endpoint \<Rightarrow>
               (let payload = copy_usage data (copy_fields data (envelope_fields ce)) in
                case map_of data ''billing_dimensions'' of
                  None \<Rightarrow> Inr (endpoint, payload)
                | Some AnyNil \<Rightarrow> Inr (endpoint, payload)
                | Some (AnyObject dims) \<Rightarrow> Inr (endpoint, merge_dimensions dims payload)
                | Some _ \<Rightarrow> Inl DimensionsNotAMap)))"

section \<open>Sending it\<close>

datatype http_outcome = RequestFailed string | Response int "string option"

definition maxBodyLog :: nat where "maxBodyLog = 256"

definition m360_post :: "string \<Rightarrow> http_outcome \<Rightarrow> submit_answer" where
  "m360_post endpoint outcome =
     (case outcome of
        RequestFailed err \<Rightarrow> OtherError (''M360 request to '' @ endpoint @ '': '' @ err)
      | Response status body \<Rightarrow>
          if status \<ge> 200 \<and> status < 300 then Accepted
          else
            (let respBody = (case body of None \<Rightarrow> ''[body read error]'' | Some b \<Rightarrow> b);
                 excerpt = (if length respBody > maxBodyLog then take maxBodyLog respBody @ ''...(truncated)'' else respBody);
                 errMsg = ''M360 '' @ endpoint @ '' returned '' @ int_text status @ '': '' @ excerpt
             in if status \<ge> 400 \<and> status < 500 \<and> status \<noteq> 408 \<and> status \<noteq> 429 then NonRetryableError errMsg
                else OtherError errMsg))"

definition m360_url :: "string \<Rightarrow> string \<Rightarrow> string \<Rightarrow> string" where
  "m360_url baseURL apiVersion endpoint = baseURL @ ''/api/'' @ apiVersion @ ''/external/run'' @ endpoint"

definition translate_error_text :: "translate_error \<Rightarrow> string" where
  "translate_error_text e =
     (case e of
        EmptyID \<Rightarrow> ''CloudEvent has empty ID''
      | ZeroTimestamp \<Rightarrow> ''CloudEvent has zero timestamp''
      | UndecodableData \<Rightarrow> ''unmarshal CloudEvent data''
      | UnknownType t \<Rightarrow> ''unknown resource_type '' @ t
      | DimensionsNotAMap \<Rightarrow> ''billing_dimensions is not a map'')"

definition m360_Submit :: "(string \<Rightarrow> m360_payload \<Rightarrow> http_outcome) \<Rightarrow> string \<Rightarrow> string \<Rightarrow> metering_event \<Rightarrow> submit_answer" where
  "m360_Submit http baseURL apiVersion event =
     (case translateEvent (ME_CloudEvent event) of
        Inl e \<Rightarrow> NonRetryableError (translate_error_text e)
      | Inr (endpoint, payload) \<Rightarrow> m360_post endpoint (http (m360_url baseURL apiVersion endpoint) payload))"

section \<open>Dimensions never overwrite a canonical field\<close>

lemma merge_dimensions_lookup:
  "distinct (map fst dims) \<Longrightarrow> merge_dimensions dims payload k =
     (case payload k of
        Some v \<Rightarrow> Some v
      | None \<Rightarrow> (case map_of dims k of None \<Rightarrow> None | Some v \<Rightarrow> if isZeroValue v then None else Some v))"
proof (induction dims payload rule: merge_dimensions.induct)
  case (2 k' v dims payload)
  have "map_of dims k' = None" using "2.prems" by (simp add: map_of_eq_None_iff)
  then show ?case using "2.IH" "2.prems" by (auto split: option.splits)
qed (simp split: option.split)

definition without_dimensions :: "cloud_event \<Rightarrow> cloud_event" where
  "without_dimensions ce = ce\<lparr>CE_Data := map_option (filter (\<lambda>(k, v). k \<noteq> ''billing_dimensions'')) (CE_Data ce)\<rparr>"

lemma without_dimensions_simps [simp]:
  "CE_ID (without_dimensions ce) = CE_ID ce" "CE_Time (without_dimensions ce) = CE_Time ce"
  "envelope_fields (without_dimensions ce) = envelope_fields ce"
  by (simp_all add: without_dimensions_def envelope_fields_def)

lemma map_of_filter_key: "map_of (filter (\<lambda>(k, v). k \<noteq> x) xs) k = (if k = x then None else map_of xs k)"
  by (induction xs) auto

lemma copies_cong:
  assumes "\<forall>k. k \<noteq> ''billing_dimensions'' \<longrightarrow> map_of data k = map_of data' k"
  shows "copy_usage data (copy_fields data payload) = copy_usage data' (copy_fields data' payload)"
proof -
  have "member data k = member data' k" if "k \<noteq> ''billing_dimensions''" for k using assms that by (simp add: member_def)
  moreover have "map_of data ''usage'' = map_of data' ''usage''" using assms by simp
  ultimately show ?thesis by (simp add: copy_usage_def copy_fields_def HeartbeatDataFields_def)
qed

lemma copy_usage_keeps: "payload k \<noteq> None \<Longrightarrow> copy_usage data payload k \<noteq> None"
  by (auto simp: copy_usage_def split: option.splits any.splits)

definition canonical_fields :: "string list" where
  "canonical_fields =
     [''specversion'', ''type'', ''source'', ''subject'', ''event_time'', ''datacontenttype'', ''event_id''] @ HeartbeatDataFields"

lemma canonical_present:
  assumes "k \<in> set canonical_fields"
  shows "copy_usage data (copy_fields data (envelope_fields ce)) k \<noteq> None"
proof -
  have "copy_fields data (envelope_fields ce) k \<noteq> None"
    using assms by (auto simp: canonical_fields_def copy_fields_def envelope_fields_def HeartbeatDataFields_def)
  then show ?thesis by (rule copy_usage_keeps)
qed

lemma translateEvent_Inr:
  assumes "translateEvent ce = Inr (endpoint, payload)"
  obtains data where "CE_Data ce = Some data" "CE_ID ce \<noteq> ''''" "CE_Time ce \<noteq> zero_time"
    "resourceTypeEndpoints (case map_of data ''resource_type'' of Some (AnyString s) \<Rightarrow> s | _ \<Rightarrow> '''') = Some endpoint"
    "payload = (case map_of data ''billing_dimensions'' of Some (AnyObject dims) \<Rightarrow> merge_dimensions dims | _ \<Rightarrow> (\<lambda>p. p))
       (copy_usage data (copy_fields data (envelope_fields ce)))"
  using assms unfolding translateEvent_def Let_def
  by (auto split: if_splits option.splits simp del: not_None_eq) (auto split: any.splits)

text \<open>
  Billing dimensions cannot overwrite a canonical field. What is sent to M360 for an event with dimensions is what is sent for
  the event without them, canonical fields all present, and in addition each dimension under a new name whose value
  is neither null, empty nor zero.
\<close>

lemma dimensions_only_add:
  assumes "translateEvent ce = Inr (endpoint, payload)" "CE_Data ce = Some data"
    "map_of data ''billing_dimensions'' = Some (AnyObject dims)" "distinct (map fst dims)"
  shows "\<exists>canonical. translateEvent (without_dimensions ce) = Inr (endpoint, canonical) \<and> set canonical_fields \<subseteq> dom canonical \<and>
    payload = (\<lambda>k. case canonical k of
       Some v \<Rightarrow> Some v
     | None \<Rightarrow> (case map_of dims k of None \<Rightarrow> None | Some v \<Rightarrow> if isZeroValue v then None else Some v))"
proof -
  let ?canonical = "copy_usage data (copy_fields data (envelope_fields ce))"
  let ?data = "filter (\<lambda>(k, v). k \<noteq> ''billing_dimensions'') data"
  obtain d where d: "CE_Data ce = Some d" "CE_ID ce \<noteq> ''''" "CE_Time ce \<noteq> zero_time"
    "resourceTypeEndpoints (case map_of d ''resource_type'' of Some (AnyString s) \<Rightarrow> s | _ \<Rightarrow> '''') = Some endpoint"
    "payload = (case map_of d ''billing_dimensions'' of Some (AnyObject dims) \<Rightarrow> merge_dimensions dims | _ \<Rightarrow> (\<lambda>p. p))
       (copy_usage d (copy_fields d (envelope_fields ce)))"
    by (rule translateEvent_Inr [OF assms(1)])
  then have data: "d = data" "payload = merge_dimensions dims ?canonical" using assms(2,3) by simp_all
  have same: "copy_usage ?data (copy_fields ?data (envelope_fields ce)) = ?canonical" by (rule copies_cong) (simp add: map_of_filter_key)
  have "CE_Data (without_dimensions ce) = Some ?data" using assms(2) by (simp add: without_dimensions_def)
  then have "translateEvent (without_dimensions ce) = Inr (endpoint, ?canonical)"
    using d(2-4) data(1) same by (simp add: translateEvent_def map_of_filter_key Let_def)
  then show ?thesis
    using canonical_present data(2) merge_dimensions_lookup [OF assms(4), of ?canonical]
    by (intro exI [of _ ?canonical]) (auto simp: fun_eq_iff)
qed

section \<open>Every heartbeat translates\<close>

text \<open>
  A heartbeat as the adapter decodes it from its record: the CloudEvent envelope and the payload's JSON members, under
  their tags. \<open>num\<close> is the floating-point number \<^verbatim>\<open>encoding/json\<close> reads from the text of an integer.
\<close>

definition heartbeat_members :: "(int \<Rightarrow> rat) \<Rightarrow> heartbeat_data \<Rightarrow> (string \<times> any) list" where
  "heartbeat_members num d =
     [(''tenant_id'', AnyString (Data_TenantID d)), (''resource_type'', AnyString (Data_ResourceType d)),
      (''resource_id'', AnyString (Data_ResourceID d)), (''meter'', AnyString (Data_Meter d)),
      (''component'', AnyString (Data_Component d)),
      (''billing_dimensions'', AnyObject (map (\<lambda>(k, v). (k, AnyString v)) (Data_BillingDimensions d))),
      (''usage'', AnyObject
         [(''semantics'', AnyString (Usage_Semantics (Data_Usage d))), (''from'', AnyString (Usage_From (Data_Usage d))),
          (''to'', AnyString (Usage_To (Data_Usage d))), (''quantity'', AnyString (Usage_Quantity (Data_Usage d))),
          (''unit'', AnyString (Usage_Unit (Data_Usage d))), (''precision'', AnyString (Usage_Precision (Data_Usage d)))]),
      (''heartbeat_time'', AnyString (Data_HeartbeatTime d)), (''last_applied_offset'', AnyNumber (num (Data_LastAppliedOffset d))),
      (''rules_revision'', AnyString (Data_RulesRevision d))] @
     (case Data_ExternalBillingAccountID d of None \<Rightarrow> [] | Some i \<Rightarrow> [(''external_billing_account_id'', AnyString i)])"

definition heartbeat_cloud_event :: "(int \<Rightarrow> rat) \<Rightarrow> heartbeat_event \<Rightarrow> cloud_event" where
  "heartbeat_cloud_event num event =
     \<lparr>CE_ID = Event_ID event, CE_SpecVersion = ''1.0'', CE_Type = Event_Type event, CE_Source = Event_Source event, CE_Subject = '''',
      CE_Time = Event_Time event, CE_DataContentType = ''application/json'',
      CE_Extensions = Event_Extensions event, CE_Data = map_option (heartbeat_members num) (Event_Data event)\<rparr>"

lemma merge_dimensions_keeps: "payload k = Some v \<Longrightarrow> merge_dimensions dims payload k = Some v"
proof (induction dims payload rule: merge_dimensions.induct)
  case (2 k' v' dims payload)
  have "(if isZeroValue v' then payload else if payload k' \<noteq> None then payload else payload(k' \<mapsto> v')) k = Some v" using "2.prems" by auto
  from "2.IH" [OF this] show ?case by simp
qed simp

lemma known_type_endpoint: "KnownResourceType t \<Longrightarrow> \<exists>endpoint. resourceTypeEndpoints t = Some endpoint"
  by (auto simp: KnownResourceType_def resourceTypes_def resourceTypeEndpoints_def)

lemma heartbeat_payload:
  fixes d :: heartbeat_data and ce :: cloud_event and num :: "int \<Rightarrow> rat"
  assumes "Data_TenantID d \<noteq> ''''" "Data_ResourceID d \<noteq> ''''"
  defines "p \<equiv> copy_usage (heartbeat_members num d) (copy_fields (heartbeat_members num d) (envelope_fields ce))"
  shows "p ''event_id'' = Some (AnyString (CE_ID ce))" "p ''tenant_id'' = Some (AnyString (Data_TenantID d))"
    "p ''resource_id'' = Some (AnyString (Data_ResourceID d))"
    "p ''interval_from'' = Some (AnyString (Usage_From (Data_Usage d)))" "p ''interval_to'' = Some (AnyString (Usage_To (Data_Usage d)))"
    "p ''usage_quantity'' = Some (AnyString (Usage_Quantity (Data_Usage d)))" "p ''usage_unit'' = Some (AnyString (Usage_Unit (Data_Usage d)))"
  using assms(1,2)
  by (simp_all add: p_def heartbeat_members_def copy_usage_def copy_fields_def HeartbeatDataFields_def envelope_fields_def member_def)

text \<open>
  C39: the provider bills what the round measured. Every heartbeat of a known resource type that the round builds is
  translated, never refused: M360 gets, at the endpoint of its type, its identifier, tenant, resource, interval, quantity and
  unit unchanged, whatever its dimensions are called, and whether it counts as accepted is up to M360's answer alone.
\<close>

theorem heartbeat_reaches_provider:
  assumes "heartbeat_New sha256 tenant key from to quantityMicro unit heartbeatTime lastAppliedOffset rulesRevision account = Inr event"
    "Event_ID event \<noteq> ''''" "from \<noteq> zero_time" "tenant \<noteq> ''''" "Key_ResourceID key \<noteq> ''''"
    "KnownResourceType (ProtoResourceTypeToSchema (Key_ResourceType key))" "ME_CloudEvent msg = heartbeat_cloud_event num event"
  shows "\<exists>endpoint payload. resourceTypeEndpoints (ProtoResourceTypeToSchema (Key_ResourceType key)) = Some endpoint \<and>
    m360_Submit http baseURL apiVersion msg = m360_post endpoint (http (m360_url baseURL apiVersion endpoint) payload) \<and>
    payload ''event_id'' = Some (AnyString (Event_ID event)) \<and> payload ''tenant_id'' = Some (AnyString tenant) \<and>
    payload ''resource_id'' = Some (AnyString (Key_ResourceID key)) \<and>
    payload ''interval_from'' = Some (AnyString (formatTime from)) \<and> payload ''interval_to'' = Some (AnyString (formatTime to)) \<and>
    payload ''usage_quantity'' = Some (AnyString (FormatMicro quantityMicro)) \<and> payload ''usage_unit'' = Some (AnyString unit)"
proof -
  let ?ce = "heartbeat_cloud_event num event"
  obtain d where d: "Event_Data event = Some d" "Event_Time event = from" "Data_TenantID d = tenant" "Data_ResourceID d = Key_ResourceID key"
    "Data_ResourceType d = ProtoResourceTypeToSchema (Key_ResourceType key)" "Usage_From (Data_Usage d) = formatTime from"
    "Usage_To (Data_Usage d) = formatTime to" "Usage_Quantity (Data_Usage d) = FormatMicro quantityMicro" "Usage_Unit (Data_Usage d) = unit"
    using assms(1) by (auto simp: heartbeat_New_def ebind_Inr_iff)
  obtain endpoint where e: "resourceTypeEndpoints (Data_ResourceType d) = Some endpoint" using known_type_endpoint assms(6) d(5) by metis
  let ?p = "copy_usage (heartbeat_members num d) (copy_fields (heartbeat_members num d) (envelope_fields ?ce))"
  let ?payload = "merge_dimensions (map (\<lambda>(k, v). (k, AnyString v)) (Data_BillingDimensions d)) ?p"
  have ce: "CE_ID ?ce = Event_ID event" "CE_Time ?ce \<noteq> zero_time" "CE_Data ?ce = Some (heartbeat_members num d)"
    using assms(3) d(1,2) by (simp_all add: heartbeat_cloud_event_def)
  have members: "map_of (heartbeat_members num d) ''resource_type'' = Some (AnyString (Data_ResourceType d))"
    "map_of (heartbeat_members num d) ''billing_dimensions'' = Some (AnyObject (map (\<lambda>(k, v). (k, AnyString v)) (Data_BillingDimensions d)))"
    by (simp_all add: heartbeat_members_def)
  have "translateEvent ?ce = Inr (endpoint, ?payload)"
    unfolding translateEvent_def using assms(2) ce e by (simp add: members Let_def)
  then have "m360_Submit http baseURL apiVersion msg = m360_post endpoint (http (m360_url baseURL apiVersion endpoint) ?payload)"
    using assms(7) by (simp add: m360_Submit_def)
  moreover have "Data_TenantID d \<noteq> ''''" "Data_ResourceID d \<noteq> ''''" using assms(4,5) d(3,4) by simp_all
  note fields = heartbeat_payload [OF this, of num ?ce]
  ultimately show ?thesis
    using e d ce(1) fields by (intro exI [of _ endpoint] exI [of _ ?payload]) (simp add: merge_dimensions_keeps)
qed

lemma m360_post_classes:
  "m360_post endpoint outcome = Accepted \<longleftrightarrow> (\<exists>status body. outcome = Response status body \<and> status \<in> {200..<300})"
  "(\<exists>err. m360_post endpoint outcome = NonRetryableError err) \<longleftrightarrow>
     (\<exists>status body. outcome = Response status body \<and> status \<in> {400..<500} - {408, 429})"
  by (auto simp: m360_post_def Let_def split: http_outcome.splits)

section \<open>The properties at work\<close>

theorem heartbeat_reaches_provider_witness:
  "\<exists>event payload. heartbeat_New (\<lambda>s. s) ''acme'' sample_key 86420000000000 86500000000000 400000000 ''gib_seconds''
       86500000000000 7 ''0001'' '''' = Inr event \<and>
     m360_Submit (\<lambda>url p. Response 200 None) ''u'' ''v1'' \<lparr>ME_CloudEvent = heartbeat_cloud_event of_int event, ME_Topic = ''t'', ME_Partition = 0, ME_Offset = 0\<rparr> = Accepted \<and>
     payload ''usage_quantity'' = Some (AnyString (FormatMicro 400000000))"
proof -
  let ?made = "heartbeat_New (\<lambda>s. s) ''acme'' sample_key 86420000000000 86500000000000 400000000 ''gib_seconds''
     86500000000000 7 ''0001'' ''''"
  obtain event where made: "?made = Inr event" by (simp add: heartbeat_New_def sample_dimensions)
  let ?msg = "\<lparr>ME_CloudEvent = heartbeat_cloud_event of_int event, ME_Topic = ''t'', ME_Partition = 0, ME_Offset = 0\<rparr>"
  have "Event_ID event \<noteq> ''''" using made by (auto simp: heartbeat_New_def sample_dimensions heartbeat_ID_def heartbeat_text_def)
  moreover have "KnownResourceType (ProtoResourceTypeToSchema (Key_ResourceType sample_key))" "Key_ResourceID sample_key \<noteq> ''''" by code_simp+
  ultimately obtain endpoint payload where
    "m360_Submit (\<lambda>url p. Response 200 None) ''u'' ''v1'' ?msg = m360_post endpoint (Response 200 None)"
    "payload ''usage_quantity'' = Some (AnyString (FormatMicro 400000000))"
    using heartbeat_reaches_provider [OF made, of ?msg of_int "\<lambda>url p. Response 200 None" "''u''" "''v1''"] by auto
  moreover have "m360_post endpoint (Response 200 None) = Accepted" by (simp add: m360_post_def)
  ultimately show ?thesis using made by (intro exI [of _ event] exI [of _ payload]) simp
qed

end
