(* ===== verification/Echo_Adapter.thy ===== *)
theory Echo_Adapter
  imports Adapter_Runner
begin

text \<open>
  The echo adapter, which keeps the events it receives for inspection: the bounded store of \<^verbatim>\<open>adapters/echo/store.go\<close>,
  its HTTP handlers, and \<^verbatim>\<open>adapters/echo/adapter.go\<close>. \<open>marshal\<close> is the JSON of a CloudEvent, \<open>None\<close> when it
  cannot be encoded.
\<close>

section \<open>The event store\<close>

record storedEvent =
  Stored_Raw :: string
  Stored_id :: string
  Stored_eventType :: string
  Stored_resourceID :: string
  Stored_receivedAt :: time

record event_store =
  Store_events :: "storedEvent list"
  Store_max :: nat

definition DefaultMaxEvents :: nat where "DefaultMaxEvents = 1000"

definition NewEventStore :: "int \<Rightarrow> event_store" where
  "NewEventStore capacity = \<lparr>Store_events = [], Store_max = (if capacity \<le> 0 then DefaultMaxEvents else nat capacity)\<rparr>"

definition store_clear :: "event_store \<Rightarrow> event_store" where
  "store_clear s = s\<lparr>Store_events := []\<rparr>"

fun getByID_loop :: "string \<Rightarrow> storedEvent list \<Rightarrow> string option" where
  "getByID_loop eventID [] = None"
| "getByID_loop eventID (e # es) = (if Stored_id e = eventID then Some (Stored_Raw e) else getByID_loop eventID es)"

definition getByID :: "string \<Rightarrow> event_store \<Rightarrow> string option" where
  "getByID eventID s = getByID_loop eventID (Store_events s)"

definition stored_entry :: "time \<Rightarrow> cloud_event \<Rightarrow> string \<Rightarrow> storedEvent" where
  "stored_entry now ce raw =
     \<lparr>Stored_Raw = raw, Stored_id = CE_ID ce, Stored_eventType = CE_Type ce,
      Stored_resourceID = (case map_of (CE_Extensions ce) ''osacresourceid'' of None \<Rightarrow> '''' | Some v \<Rightarrow> v),
      Stored_receivedAt = now\<rparr>"

definition store_add :: "(cloud_event \<Rightarrow> string option) \<Rightarrow> time \<Rightarrow> metering_event \<Rightarrow> event_store \<Rightarrow> event_store" where
  "store_add marshal now event s =
     (case marshal (ME_CloudEvent event) of
        None \<Rightarrow> s
      | Some raw \<Rightarrow>
          (let entry = stored_entry now (ME_CloudEvent event) raw in
           if length (Store_events s) \<ge> Store_max s
           then s\<lparr>Store_events := tl (Store_events s) @ [entry]\<rparr>
           else s\<lparr>Store_events := Store_events s @ [entry]\<rparr>))"

definition matches :: "string \<Rightarrow> string \<Rightarrow> time \<Rightarrow> storedEvent \<Rightarrow> bool" where
  "matches eventType resourceID since e \<longleftrightarrow>
     \<not> (eventType \<noteq> '''' \<and> Stored_eventType e \<noteq> eventType) \<and> \<not> (resourceID \<noteq> '''' \<and> Stored_resourceID e \<noteq> resourceID) \<and>
     \<not> (since \<noteq> zero_time \<and> Stored_receivedAt e < since)"

fun query_loop :: "(storedEvent \<Rightarrow> bool) \<Rightarrow> int \<Rightarrow> storedEvent list \<Rightarrow> string list \<Rightarrow> string list" where
  "query_loop ok limit [] result = result"
| "query_loop ok limit (e # es) result =
     (if \<not> ok e then query_loop ok limit es result
      else let result' = result @ [Stored_Raw e]
           in if limit > 0 \<and> int (length result') \<ge> limit then result' else query_loop ok limit es result')"

definition store_query :: "string \<Rightarrow> string \<Rightarrow> time \<Rightarrow> int \<Rightarrow> event_store \<Rightarrow> string list" where
  "store_query eventType resourceID since limit s = query_loop (matches eventType resourceID since) limit (Store_events s) []"

fun count_loop :: "(storedEvent \<Rightarrow> bool) \<Rightarrow> storedEvent list \<Rightarrow> nat \<Rightarrow> nat" where
  "count_loop ok [] n = n"
| "count_loop ok (e # es) n = count_loop ok es (if \<not> ok e then n else n + 1)"

definition store_count :: "string \<Rightarrow> string \<Rightarrow> time \<Rightarrow> event_store \<Rightarrow> nat" where
  "store_count eventType resourceID since s = count_loop (matches eventType resourceID since) (Store_events s) 0"

section \<open>The handlers\<close>

datatype 'a http_reply = BadRequest | NotFound | NoContent | OK 'a

definition parse_since :: "string \<Rightarrow> time option" where
  "parse_since v = (if v \<noteq> '''' then ParseRFC3339Nano v else Some zero_time)"

definition parse_limit :: "string \<Rightarrow> int option" where
  "parse_limit v =
     (if v \<noteq> '''' then (case Atoi v of None \<Rightarrow> None | Some n \<Rightarrow> if n < 0 then None else Some n) else Some 0)"

definition HandleEvents :: "string \<Rightarrow> string \<Rightarrow> string \<Rightarrow> string \<Rightarrow> event_store \<Rightarrow> string list http_reply" where
  "HandleEvents eventType resourceID since limit s =
     (case parse_since since of
        None \<Rightarrow> BadRequest
      | Some t \<Rightarrow> (case parse_limit limit of None \<Rightarrow> BadRequest | Some n \<Rightarrow> OK (store_query eventType resourceID t n s)))"

definition HandleEventByID :: "string \<Rightarrow> event_store \<Rightarrow> string http_reply" where
  "HandleEventByID eventID s =
     (if eventID = '''' then BadRequest else case getByID eventID s of None \<Rightarrow> NotFound | Some raw \<Rightarrow> OK raw)"

definition HandleDeleteEvents :: "event_store \<Rightarrow> unit http_reply \<times> event_store" where
  "HandleDeleteEvents s = (NoContent, store_clear s)"

definition HandleCount :: "string \<Rightarrow> string \<Rightarrow> string \<Rightarrow> event_store \<Rightarrow> nat http_reply" where
  "HandleCount eventType resourceID since s =
     (case parse_since since of None \<Rightarrow> BadRequest | Some t \<Rightarrow> OK (store_count eventType resourceID t s))"

record echo_adapter =
  Echo_store :: event_store
  Echo_submitted :: int
  Echo_flushed :: int

definition echo_Submit :: "(cloud_event \<Rightarrow> string option) \<Rightarrow> time \<Rightarrow> metering_event \<Rightarrow> echo_adapter \<Rightarrow> submit_answer \<times> echo_adapter" where
  "echo_Submit marshal now event a =
     (Accepted, a\<lparr>Echo_store := store_add marshal now event (Echo_store a), Echo_submitted := wrap64 (Echo_submitted a + 1)\<rparr>)"

definition echo_Flush :: "echo_adapter \<Rightarrow> echo_adapter" where
  "echo_Flush a = a\<lparr>Echo_flushed := wrap64 (Echo_flushed a + 1)\<rparr>"

section \<open>The store keeps the latest events\<close>

datatype store_op = Receive time metering_event | Clear

fun store_run :: "(cloud_event \<Rightarrow> string option) \<Rightarrow> store_op list \<Rightarrow> event_store \<Rightarrow> event_store" where
  "store_run marshal [] s = s"
| "store_run marshal (Receive now event # ops) s = store_run marshal ops (store_add marshal now event s)"
| "store_run marshal (Clear # ops) s = store_run marshal ops (snd (HandleDeleteEvents s))"

text \<open>The specification: everything received since the last clear, in order, never forgotten.\<close>

fun received :: "(cloud_event \<Rightarrow> string option) \<Rightarrow> store_op list \<Rightarrow> storedEvent list \<Rightarrow> storedEvent list" where
  "received marshal [] h = h"
| "received marshal (Receive now event # ops) h =
     received marshal ops (case marshal (ME_CloudEvent event) of None \<Rightarrow> h | Some raw \<Rightarrow> h @ [stored_entry now (ME_CloudEvent event) raw])"
| "received marshal (Clear # ops) h = received marshal ops []"

definition latest :: "nat \<Rightarrow> 'a list \<Rightarrow> 'a list" where
  "latest n xs = drop (length xs - n) xs"

lemma latest_snoc: "1 \<le> n \<Longrightarrow> latest n (xs @ [x]) = (if length (latest n xs) \<ge> n then tl (latest n xs) else latest n xs) @ [x]"
  by (auto simp: latest_def Suc_diff_le tl_drop drop_Suc [symmetric])

lemma store_add_latest:
  assumes "Store_events s = latest (Store_max s) h" "1 \<le> Store_max s"
  shows "Store_events (store_add marshal now event s) = latest (Store_max s)
      (case marshal (ME_CloudEvent event) of None \<Rightarrow> h | Some raw \<Rightarrow> h @ [stored_entry now (ME_CloudEvent event) raw])"
    "Store_max (store_add marshal now event s) = Store_max s"
  using assms by (auto simp: store_add_def Let_def latest_snoc split: option.split)

lemma store_run_latest:
  assumes "Store_events s = latest (Store_max s) h" "1 \<le> Store_max s"
  shows "Store_events (store_run marshal ops s) = latest (Store_max s) (received marshal ops h)"
  using assms
proof (induction marshal ops s arbitrary: h rule: store_run.induct)
  case (2 marshal now event ops s)
  note add = store_add_latest [OF "2.prems", of marshal now event]
  show ?case using "2.IH" [of "case marshal (ME_CloudEvent event) of None \<Rightarrow> h | Some raw \<Rightarrow> h @ [stored_entry now (ME_CloudEvent event) raw]"] add "2.prems"(2)
    by simp
next
  case (3 marshal ops s)
  then show ?case by (simp add: HandleDeleteEvents_def store_clear_def latest_def)
qed simp

lemma query_loop_filter:
  "limit \<le> 0 \<Longrightarrow> query_loop ok limit es result = result @ map Stored_Raw (filter ok es)"
  "int (length result) < limit \<Longrightarrow> query_loop ok limit es result = take (nat limit) (result @ map Stored_Raw (filter ok es))"
proof -
  show "limit \<le> 0 \<Longrightarrow> query_loop ok limit es result = result @ map Stored_Raw (filter ok es)"
    by (induction es arbitrary: result) auto
  show "int (length result) < limit \<Longrightarrow> query_loop ok limit es result = take (nat limit) (result @ map Stored_Raw (filter ok es))"
  proof (induction es arbitrary: result)
    case (Cons e es)
    show ?case
    proof (cases "ok e \<and> limit \<le> int (length result) + 1")
      case True
      then have "nat limit = length (result @ [Stored_Raw e])" using Cons.prems by auto
      then show ?thesis using True Cons.prems by simp
    next
      case False
      then show ?thesis using Cons.IH [of result] Cons.IH [of "result @ [Stored_Raw e]"] Cons.prems by auto
    qed
  qed simp
qed

lemma count_loop_filter: "count_loop ok es n = n + length (filter ok es)"
  by (induction es arbitrary: n) auto

lemma parse_limit_nonneg: "parse_limit v = Some n \<Longrightarrow> 0 \<le> n"
  by (auto simp: parse_limit_def split: if_splits option.splits)

lemma store_query_spec:
  "0 \<le> n \<Longrightarrow> store_query eventType resourceID t n s =
     (let found = map Stored_Raw (filter (matches eventType resourceID t) (Store_events s)) in if n = 0 then found else take (nat n) found)"
  by (simp add: store_query_def query_loop_filter Let_def)

text \<open>
  The echo store answers from the latest events. Whatever is received and cleared, it holds the last events received
  since the last clear, up to its capacity, and both endpoints answer from these: the listing gives the matching
  events in order, cut at the limit, the count their number, and either refuses parameters that do not parse.
\<close>

lemma echo_serves_latest_events:
  "let s = store_run marshal ops (NewEventStore capacity);
       kept = latest (if capacity \<le> 0 then 1000 else nat capacity) (received marshal ops [])
   in Store_events s = kept \<and> length kept \<le> (if capacity \<le> 0 then 1000 else nat capacity) \<and>
    HandleCount eventType resourceID since s =
      (case parse_since since of None \<Rightarrow> BadRequest | Some t \<Rightarrow> OK (length (filter (matches eventType resourceID t) kept))) \<and>
    HandleEvents eventType resourceID since limit s =
      (case (parse_since since, parse_limit limit) of
         (Some t, Some n) \<Rightarrow>
           (let found = map Stored_Raw (filter (matches eventType resourceID t) kept) in OK (if n = 0 then found else take (nat n) found))
       | _ \<Rightarrow> BadRequest)"
proof -
  define s where "s = store_run marshal ops (NewEventStore capacity)"
  define kept where "kept = latest (if capacity \<le> 0 then 1000 else nat capacity) (received marshal ops [])"
  have events: "Store_events s = kept" unfolding s_def kept_def
  proof -
    have cap: "Store_max (NewEventStore capacity) = (if capacity \<le> 0 then 1000 else nat capacity)"
      by (simp add: NewEventStore_def DefaultMaxEvents_def)
    have "Store_events (NewEventStore capacity) = latest (Store_max (NewEventStore capacity)) []" by (simp add: NewEventStore_def latest_def)
    moreover have "1 \<le> Store_max (NewEventStore capacity)" by (auto simp: cap)
    ultimately show "Store_events (store_run marshal ops (NewEventStore capacity)) =
        latest (if capacity \<le> 0 then 1000 else nat capacity) (received marshal ops [])"
      unfolding cap [symmetric] by (rule store_run_latest)
  qed
  have "HandleEvents eventType resourceID since limit s =
      (case (parse_since since, parse_limit limit) of
         (Some t, Some n) \<Rightarrow>
           (let found = map Stored_Raw (filter (matches eventType resourceID t) kept) in OK (if n = 0 then found else take (nat n) found))
       | _ \<Rightarrow> BadRequest)"
    using parse_limit_nonneg [of limit] by (auto simp: HandleEvents_def store_query_spec events Let_def split: option.splits)
  moreover have "length kept \<le> (if capacity \<le> 0 then 1000 else nat capacity)" by (simp add: kept_def latest_def)
  moreover have "HandleCount eventType resourceID since s =
      (case parse_since since of None \<Rightarrow> BadRequest | Some t \<Rightarrow> OK (length (filter (matches eventType resourceID t) kept)))"
    by (simp add: HandleCount_def store_count_def count_loop_filter events split: option.split)
  ultimately show ?thesis using events unfolding Let_def s_def kept_def by blast
qed

end
