(* ===== verification/Spec2Isabelle.thy ===== *)
theory Spec2Isabelle
  imports Fold_Loop Round_Correctness Catch_Up_Replay Relay Metering_Service Adapter_Delivery M360_Adapter Echo_Adapter
begin

text \<open>
  A verification of the metering pipeline of OSAC, \<^verbatim>\<open>src/osac-metering\<close>, with the tracked-field
  registry of \<^verbatim>\<open>src/proto/metering\<close> it reads.

  \<^bold>\<open>The program.\<close> Metering turns the change events of the fulfillment service into billed usage. For every
  tenant three loops share one PostgreSQL database. The \<^emph>\<open>fold\<close> reads the tenant's event topic and writes
  facts (a field of a resource has a value since a time) to the history. The \<^emph>\<open>round\<close> runs at an interval:
  it first catches up with the heartbeats already on the tenant's heartbeat topic, then computes the usage that
  history and rule revisions justify, compares it with the ledger of usage sent, and writes the
  differences, positive or negative, to the outbox in the transaction that updates the ledger. The
  \<^emph>\<open>relay\<close> moves outbox rows to the heartbeat topic. The \<^emph>\<open>service\<close> starts, restarts and stops these loops as
  tenants come and go, and loads the rule revisions. Billing \<^emph>\<open>adapters\<close> read the heartbeats of all tenants and
  submit them to a provider, with retries, suppression of duplicates and a dead-letter queue.

  \<^bold>\<open>Theories and sources.\<close>
  \<^item> \<open>Metering_Prelude\<close>, \<open>Go_Stdlib\<close>, \<open>Go_Time\<close>, \<open>Metering_Types\<close>: \<^verbatim>\<open>int64\<close> with wrap-around, Go time as
    nanoseconds since year 1, errors as a sum type, adjacent intervals of boundary lists; the parts of
    \<^verbatim>\<open>math/big\<close>, \<^verbatim>\<open>encoding/json\<close>, \<^verbatim>\<open>strconv\<close>, \<^verbatim>\<open>net/netip\<close> and
    \<^verbatim>\<open>time\<close> the code calls; the rows of \<^verbatim>\<open>internal/database\<close>.
  \<^item> \<open>Metering_Rules\<close>: \<^verbatim>\<open>internal/rules\<close> (\<^verbatim>\<open>validate\<close>, \<^verbatim>\<open>CheckStartup\<close>,
    the dimension tables) and \<^verbatim>\<open>proto/metering\<close> (owners, enum prefixes). The compiled descriptors and the enum
    values of a state field are arguments. \<open>Rule_Sources\<close> models \<^verbatim>\<open>Parse\<close> and the ConfigMap and directory sources,
    with the YAML decoder as an argument.
  \<^item> \<open>Usage_Engine\<close> models \<^verbatim>\<open>internal/usage/engine.go\<close> function by function. \<open>Usage_Correctness\<close>,
    \<open>Usage_Pieces\<close> and \<open>Usage_Threshold\<close> show that runs are exactly the billable moments, that a gate opens
    exactly on a confirming state, that spans partition an interval at midnights and field changes, and, of the
    whole calculator, that no moment is charged twice, that every charge is due, that usage of a second or more
    is billed, and that quantities are exact.
  \<^item> \<open>Heartbeat\<close>: \<^verbatim>\<open>internal/heartbeat/event.go\<close> and \<^verbatim>\<open>schema/heartbeat.go\<close>: quantities as text, the event
    and its identifier, and that a heartbeat reads back as the usage it was built from.
  \<^item> \<open>Schema_Versions\<close>: \<^verbatim>\<open>schema/versions.go\<close>: validation of published schema files, the add-only rule, the
    version in effect and the fields a record must carry.
  \<^item> \<open>Metering_Store\<close>: every statement of \<^verbatim>\<open>internal/database/store.go\<close> on a record of tables, and the keys the
    tables keep in every state the statements reach (\<open>db_reachable\<close>).
  \<^item> \<open>Fold\<close>: \<^verbatim>\<open>internal/fold\<close>: the facts of an event and applying a batch; that every batch commits, that a
    replay changes nothing, and what the history always satisfies. \<open>Fold_Loop\<close> is the loop around it, as the step
    relation \<open>fold_runs\<close> of several pods on one tenant: no event Kafka still holds is passed over. Two of its lemmas
    show what it does not do: \<open>closing_stream_hides_gap\<close> and \<open>recreated_topic_repeats_its_first_batch\<close>.
  \<^item> \<open>Round_Diff\<close> and \<open>Round\<close>: \<^verbatim>\<open>internal/round/round.go\<close>: the difference of one meter, committing it, the
    guards of a round, ownership roots, the choice of resources, one tick. \<open>Round_Conservation\<close> states both sides
    of a comparison through the locale \<open>span_measure\<close>, a list of spans with a cumulated quantity, interpreted
    for expected pieces (\<open>expected_side\<close>) and ledger rows (\<open>ledger_side\<close>), and shows that what a comparison sends
    is what the ledger changes by. \<open>Round_Correctness\<close> shows that a recomputed resource is settled, that a tick
    changes its tenant only, that the choice of resources misses none, that a round waiting for events goes ahead,
    and where the ownership walk ends.
  \<^item> \<open>Catch_Up\<close>: \<^verbatim>\<open>internal/round/catchup.go\<close>. \<open>Catch_Up_Merge\<close> and \<open>Catch_Up_Replay\<close> show that merging a
    comparison's heartbeats rebuilds the rates the round committed; \<open>Catch_Up_Groups\<close> that groups are read whole,
    that copies count once, and what a pass may change.
  \<^item> \<open>Topics\<close>: \<^verbatim>\<open>schema/topics.go\<close>, \<^verbatim>\<open>internal/topics\<close> and the adapters' \<^verbatim>\<open>internal/kafka/topics.go\<close>: topic
    names, and that a rejected record leaves the consumed topics.
  \<^item> \<open>Relay\<close>: \<^verbatim>\<open>internal/relay/relay.go\<close>: that no heartbeat is lost or made up however drains fail, that the
    heartbeat offset moves over a drain's own messages only, and that the outbox empties while Kafka answers.
  \<^item> \<open>Metering_Service\<close>: \<^verbatim>\<open>internal/service/service.go\<close> and the topic set-up of \<^verbatim>\<open>internal/kafka/connect.go\<close>. The
    service is the step relation \<open>service_runs\<close> over listings, loops that fail and end, deletions and shutdown: rows are
    deleted only after three missing listings, a pass serves every listed tenant, approved rules stay approved. Two
    of its runs show what the code does not exclude: \<open>returned_tenant_loses_its_rows\<close> and
    \<open>shutdown_closes_under_gone_loops\<close>.
  \<^item> \<open>Adapter_Retry\<close>: \<^verbatim>\<open>dedup.go\<close>, \<^verbatim>\<open>order.go\<close> and \<^verbatim>\<open>retry.go\<close> of \<^verbatim>\<open>adapters/internal/runner\<close>. The locales
    \<open>expiring_cache\<close> and \<open>checked_cache\<close> state what a cache whose entries expire promises under background
    evictions, interpreted for the three caches; a record's retry budget spans its sessions.
  \<^item> \<open>Adapter_Runner\<close>: \<^verbatim>\<open>runner.go\<close>, \<^verbatim>\<open>runner_process.go\<close> and \<^verbatim>\<open>dlq.go\<close>: the message handler, claims, sessions,
    flushes. \<open>Adapter_Delivery\<close> puts them together as the step relation \<open>runs\<close> and shows at-least-once delivery:
    every record below a committed offset was handled.
  \<^item> \<open>M360_Adapter\<close> and \<open>Echo_Adapter\<close>: \<^verbatim>\<open>adapters/m360\<close> and \<^verbatim>\<open>adapters/echo\<close>: translation of a heartbeat for the
    provider, from the round's quantity to the posted one; the echo store keeps the latest events and answers
    queries from them.

  \<^bold>\<open>Correspondence.\<close> A definition has the name of the Go function it models; the body of a loop has a name of
  its own when the loop is a fold. A function that returns an error has a sum type, \<open>metering_error + 'a\<close> or the
  component's own errors. Functions on
  a transaction take the store and return it updated, so a rollback is the old store. A Go map whose order cannot matter is an
  association list or a function. Loops are structural recursion, folds over lists, or functions with a
  termination proof (\<open>midnights\<close>, \<open>groupEnd\<close>, \<open>apply_groups\<close>, \<open>drag\<close>, \<open>submit_loop\<close>, \<open>runes\<close>); there is no fuel. The only bounded loop of
  the source, the ownership walk, keeps its bound. Loops that run until their context ends (the relay, the service, the
  adapter's sessions) are lists of steps or step relations, and the theorems hold for every such run.

  \<^bold>\<open>Assumptions.\<close> Failures of PostgreSQL are modelled in the relay and in the service's rules check and
  deletion, where the code goes on after them; elsewhere a failed transaction is a transaction that did not happen. What Kafka answers (watermarks, delivered
  records) is an argument. Row locks serialise a tenant's transactions. SHA-256 is a function argument; the theorem on
  identifiers assumes that it does not collide on the two texts compared. The published schema versions are an
  argument of catch-up, loaded without error. JSON envelopes are records, absent when they do not decode.

  \<^bold>\<open>Not modelled.\<close> Command lines and HTTP servers, Prometheus gauges and histograms, the set-up of Kafka and HTTP
  clients (TLS, SASL, health checks), timers and timeouts of the loops, the YAML and Kubernetes libraries: they keep
  no state of the pipeline. The other programs of the repository (fulfillment service,
  operators, CSI driver, user interface) are not part of metering; the fulfillment service enters through the events
  it publishes, the arguments of the fold.
\<close>

end
